(* ===== verification/Prelude.thy ===== *)
theory Prelude
  imports Main "HOL-Library.Word"
begin

text \<open>
  Shared vocabulary of the development.

  Rust bytes are \<open>8 word\<close>, byte strings are lists of bytes.  A \<open>usize\<close> is a \<open>nat\<close>; where
  the code relies on its width (a \<open>checked_add\<close>, a cast) the bound \<open>2 ^ 64\<close> or the \<open>mod\<close> is
  written in the definition.  A Rust function that can return \<open>Err\<close> or panic returns an
  \<open>outcome\<close>; \<open>obind\<close> is the \<open>?\<close> operator.  The rest of the theory is the arithmetic of
  big-endian byte strings (\<open>be_bytes\<close>, \<open>be_nat\<close>), of \<open>leading_zeros\<close>, and facts on lists
  the component theories share.
\<close>

section \<open>Bytes, outcomes\<close>

type_synonym byte = "8 word"
type_synonym bytes = "byte list"

datatype ('e, 'a) outcome = Ok 'a | Err 'e | Panic

fun obind :: "('e, 'a) outcome \<Rightarrow> ('a \<Rightarrow> ('e, 'b) outcome) \<Rightarrow> ('e, 'b) outcome" where
  "obind (Ok x) f = f x"
| "obind (Err e) f = Err e"
| "obind Panic f = Panic"

fun omap :: "('a \<Rightarrow> 'b) \<Rightarrow> ('e, 'a) outcome \<Rightarrow> ('e, 'b) outcome" where
  "omap f (Ok x) = Ok (f x)"
| "omap f (Err e) = Err e"
| "omap f Panic = Panic"

fun is_ok :: "('e, 'a) outcome \<Rightarrow> bool" where
  "is_ok (Ok x) = True"
| "is_ok (Err e) = False"
| "is_ok Panic = False"

named_theorems byte_simps \<open>rewrite rules for big-endian byte strings\<close>

lemma obind_cong [fundef_cong]:
  "m = n \<Longrightarrow> (\<And>x. n = Ok x \<Longrightarrow> f x = g x) \<Longrightarrow> obind m f = obind n g"
  by (cases n) auto

lemma obind_assoc: "obind (obind m f) g = obind m (\<lambda>x. obind (f x) g)"
  by (cases m) auto

lemma obind_Ok_iff [simp]: "obind m f = Ok y \<longleftrightarrow> (\<exists>x. m = Ok x \<and> f x = Ok y)"
  by (cases m) auto

lemma obind_Panic_iff [simp]: "obind m f = Panic \<longleftrightarrow> m = Panic \<or> (\<exists>x. m = Ok x \<and> f x = Panic)"
  by (cases m) auto

lemma obind_right_Ok [simp]: "obind m Ok = m"
  by (cases m) auto

lemma omap_Ok_iff [simp]: "omap f m = Ok y \<longleftrightarrow> (\<exists>x. m = Ok x \<and> y = f x)"
  by (cases m) auto

lemma is_ok_iff: "is_ok m \<longleftrightarrow> (\<exists>x. m = Ok x)"
  by (cases m) auto

section \<open>Indexing and subtraction that panic\<close>

text \<open>\<open>nth_checked\<close> is Rust's \<open>xs[i]\<close> and \<open>checked_sub\<close> the \<open>usize\<close> subtraction with overflow
  checks on; \<open>None\<close> is the panic.\<close>

definition nth_checked :: "'a list \<Rightarrow> nat \<Rightarrow> 'a option" where
  "nth_checked xs i = (if i < length xs then Some (xs ! i) else None)"

definition checked_sub :: "nat \<Rightarrow> nat \<Rightarrow> nat option" where
  "checked_sub a b = (if b \<le> a then Some (a - b) else None)"

lemma nth_checked_less [simp]: "i < length xs \<Longrightarrow> nth_checked xs i = Some (xs ! i)"
  by (simp add: nth_checked_def)

lemma checked_sub_le [simp]: "b \<le> a \<Longrightarrow> checked_sub a b = Some (a - b)"
  by (simp add: checked_sub_def)

section \<open>Unsigned arithmetic: the number of bits, leading zeros\<close>

fun bit_len :: "nat \<Rightarrow> nat" where
  "bit_len n = (if n = 0 then 0 else Suc (bit_len (n div 2)))"

declare bit_len.simps [simp del]

definition leading_zeros :: "nat \<Rightarrow> nat \<Rightarrow> nat" where
  "leading_zeros w n = w - bit_len n"

lemma bit_len_0 [simp]: "bit_len 0 = 0"
  by (simp add: bit_len.simps)

lemma bit_len_pos: "0 < n \<Longrightarrow> bit_len n = Suc (bit_len (n div 2))"
  by (subst bit_len.simps) simp

lemma bit_len_le_iff: "bit_len n \<le> k \<longleftrightarrow> n < 2 ^ k"
proof (induction k arbitrary: n)
  case 0
  then show ?case by (cases "n = 0") (auto simp: bit_len_pos)
next
  case (Suc k)
  show ?case
  proof (cases "n = 0")
    case True
    then show ?thesis by simp
  next
    case False
    then show ?thesis using Suc.IH [of "n div 2"] by (simp add: bit_len_pos) arith
  qed
qed

lemma bit_len_eq_0_iff [simp]: "bit_len n = 0 \<longleftrightarrow> n = 0"
  by (cases "n = 0") (auto simp: bit_len_pos)

definition byte_len :: "nat \<Rightarrow> nat" where
  "byte_len n = (bit_len n + 7) div 8"

lemma byte_len_0 [simp]: "byte_len 0 = 0"
  by (simp add: byte_len_def)

lemma byte_len_le_iff: "byte_len n \<le> k \<longleftrightarrow> n < 256 ^ k"
proof -
  have "byte_len n \<le> k \<longleftrightarrow> bit_len n \<le> 8 * k"
    unfolding byte_len_def by arith
  also have "\<dots> \<longleftrightarrow> n < 256 ^ k"
    by (simp add: bit_len_le_iff power_mult)
  finally show ?thesis .
qed

lemma byte_len_eq_0_iff [simp]: "byte_len n = 0 \<longleftrightarrow> n = 0"
  using byte_len_le_iff [of n 0] by auto

lemma byte_len_pos [simp]: "0 < byte_len n \<longleftrightarrow> 0 < n"
  by (metis byte_len_eq_0_iff neq0_conv)

lemma less_256_power_byte_len: "n < 256 ^ byte_len n"
  using byte_len_le_iff [of n "byte_len n"] by simp

lemma byte_len_lower: "0 < n \<Longrightarrow> 256 ^ (byte_len n - 1) \<le> n"
  using byte_len_le_iff [of n "byte_len n - 1"] byte_len_pos [of n]
  by (simp del: byte_len_pos) arith

lemma leading_zeros_div_8: "n < 256 ^ k \<Longrightarrow> leading_zeros (8 * k) n div 8 = k - byte_len n"
  using byte_len_le_iff [of n k] unfolding leading_zeros_def byte_len_def by arith

section \<open>Big-endian byte strings\<close>

fun be_bytes :: "nat \<Rightarrow> nat \<Rightarrow> bytes" where
  "be_bytes 0 n = []"
| "be_bytes (Suc k) n = be_bytes k (n div 256) @ [word_of_nat n]"

definition be_nat :: "bytes \<Rightarrow> nat" where
  "be_nat bs = foldl (\<lambda>a b. a * 256 + unat b) 0 bs"

lemma length_be_bytes [simp]: "length (be_bytes k n) = k"
  by (induction k arbitrary: n) auto

lemma be_nat_Nil [simp]: "be_nat [] = 0"
  by (simp add: be_nat_def)

lemma be_nat_snoc [simp]: "be_nat (bs @ [b]) = be_nat bs * 256 + unat b"
  by (simp add: be_nat_def)

lemma be_nat_single [simp]: "be_nat [b] = unat b"
  by (simp add: be_nat_def)

lemma be_nat_append [byte_simps]: "be_nat (xs @ ys) = be_nat xs * 256 ^ length ys + be_nat ys"
proof (induction ys rule: rev_induct)
  case Nil
  then show ?case by simp
next
  case (snoc y ys)
  have "be_nat (xs @ ys @ [y]) = be_nat (xs @ ys) * 256 + unat y"
    by (metis append_assoc be_nat_snoc)
  with snoc show ?case by (simp add: algebra_simps)
qed

lemma be_nat_Cons [byte_simps]: "be_nat (b # bs) = unat b * 256 ^ length bs + be_nat bs"
  using be_nat_append [of "[b]" bs] by simp

lemma unat_byte_less [simp]: "unat (b :: byte) < 256"
  using unsigned_less [of b, where ?'a = nat] by simp

lemma unat_byte_of_nat [simp]: "unat (word_of_nat n :: byte) = n mod 256"
  by (simp add: unat_of_nat)

lemma byte_eq_iff: "(b :: byte) = c \<longleftrightarrow> unat b = unat c"
  by (simp add: word_unat_eq_iff)

lemma be_nat_less [simp]: "be_nat bs < 256 ^ length bs"
proof (induction bs rule: rev_induct)
  case Nil
  then show ?case by simp
next
  case (snoc b bs)
  have "be_nat bs * 256 + unat b < (be_nat bs + 1) * 256" by simp
  also have "\<dots> \<le> 256 ^ length bs * 256" using snoc by (simp add: Suc_leI)
  finally show ?case by simp
qed

lemma be_nat_be_bytes [byte_simps]: "be_nat (be_bytes k n) = n mod 256 ^ k"
proof (induction k arbitrary: n)
  case 0
  then show ?case by simp
next
  case (Suc k)
  have "be_nat (be_bytes (Suc k) n) = (n div 256) mod 256 ^ k * 256 + n mod 256"
    by (simp add: Suc.IH)
  also have "\<dots> = n mod (256 * 256 ^ k)"
    by (simp add: mod_mult2_eq)
  finally show ?case by simp
qed

lemma byte_of_nat_mult_add: "(word_of_nat (m * 256 + unat b) :: byte) = b"
proof -
  have "unat (word_of_nat (m * 256 + unat b) :: byte) = unat b"
    by (simp only: unat_byte_of_nat) simp
  then show ?thesis by (simp only: byte_eq_iff)
qed

lemma be_bytes_be_nat [byte_simps]: "be_bytes (length bs) (be_nat bs) = bs"
proof (induction bs rule: rev_induct)
  case Nil
  then show ?case by simp
next
  case (snoc b bs)
  have "(be_nat bs * 256 + unat b) div 256 = be_nat bs" by simp
  then show ?case
    using snoc by (simp add: byte_of_nat_mult_add del: of_nat_add of_nat_mult)
qed

lemma be_bytes_eqI: "length bs = k \<Longrightarrow> be_nat bs = n mod 256 ^ k \<Longrightarrow> bs = be_bytes k n"
  by (metis be_bytes_be_nat be_nat_be_bytes length_be_bytes)

lemma be_nat_inj: "length xs = length ys \<Longrightarrow> be_nat xs = be_nat ys \<Longrightarrow> xs = ys"
  by (metis be_bytes_be_nat)

lemma be_bytes_mod: "be_bytes k (n mod 256 ^ k) = be_bytes k n"
  by (rule sym, rule be_bytes_eqI) (simp_all add: be_nat_be_bytes)

lemma drop_be_bytes: "drop j (be_bytes (j + k) n) = be_bytes k n"
proof (induction k arbitrary: n)
  case 0
  then show ?case by simp
next
  case (Suc k)
  then show ?case by simp
qed

lemma drop_leading_be_bytes:
  assumes "n < 256 ^ k"
  shows "drop (leading_zeros (8 * k) n div 8) (be_bytes k n) = be_bytes (byte_len n) n"
proof -
  have "byte_len n \<le> k" using assms by (simp add: byte_len_le_iff)
  then have "drop (k - byte_len n) (be_bytes k n) = be_bytes (byte_len n) n"
    using drop_be_bytes [of "k - byte_len n" "byte_len n" n] by simp
  then show ?thesis using assms by (simp add: leading_zeros_div_8)
qed

lemma hd_be_bytes_byte_len: "0 < n \<Longrightarrow> hd (be_bytes (byte_len n) n) \<noteq> 0"
proof
  assume n: "0 < n" and hd: "hd (be_bytes (byte_len n) n) = 0"
  obtain b bs where bs: "be_bytes (byte_len n) n = b # bs"
    using n by (metis byte_len_pos length_be_bytes length_greater_0_conv neq_Nil_conv)
  then have len: "length bs = byte_len n - 1"
    by (metis length_be_bytes length_Cons diff_Suc_1)
  have "n = be_nat (be_bytes (byte_len n) n)"
    using less_256_power_byte_len [of n] by (simp add: be_nat_be_bytes)
  also have "\<dots> = be_nat bs"
    using hd bs by (simp add: be_nat_Cons)
  also have "\<dots> < 256 ^ (byte_len n - 1)"
    using be_nat_less [of bs] len by simp
  finally show False using byte_len_lower [OF n] by simp
qed

lemma shift_bytes: "(2 :: nat) ^ (k * 8) = 256 ^ k"
  using power_mult [of "2 :: nat" 8 k] by (simp add: mult.commute)

lemma be_nat_less_power: "length bs \<le> k \<Longrightarrow> be_nat bs < 256 ^ k"
  by (rule less_le_trans [OF be_nat_less]) (simp add: power_increasing)

section \<open>Slices\<close>

text \<open>\<open>slice bs a b\<close> is Rust's \<open>&bs[a..b]\<close> for \<open>a \<le> b \<le> bs.len()\<close>.\<close>

definition slice :: "'a list \<Rightarrow> nat \<Rightarrow> nat \<Rightarrow> 'a list" where
  "slice xs a b = take (b - a) (drop a xs)"

lemma length_slice [simp]: "b \<le> length xs \<Longrightarrow> length (slice xs a b) = b - a"
  by (simp add: slice_def)

lemma slice_append1: "b \<le> length xs \<Longrightarrow> slice (xs @ ys) a b = slice xs a b"
  by (cases "a \<le> b") (auto simp: slice_def)

lemma slice_shift: "length xs \<le> a \<Longrightarrow> slice (xs @ ys) a b = slice ys (a - length xs) (b - length xs)"
  by (simp add: slice_def)

lemma slice_full [simp]: "slice xs 0 (length xs) = xs"
  by (simp add: slice_def)

lemma slice_0: "slice xs 0 n = take n xs"
  by (simp add: slice_def)

text \<open>\<open>insert_slice\<close> of \<open>elastic_array\<close> and \<open>Vec\<close>: the bytes from \<open>pos\<close> on move right.\<close>

definition insert_slice :: "'a list \<Rightarrow> nat \<Rightarrow> 'a list \<Rightarrow> 'a list" where
  "insert_slice xs pos ys = take pos xs @ ys @ drop pos xs"

lemma insert_slice_append [simp]: "length xs = n \<Longrightarrow> insert_slice (xs @ ys) n zs = xs @ zs @ ys"
  by (simp add: insert_slice_def)

lemma insert_slice_end [simp]: "length xs = n \<Longrightarrow> insert_slice xs n zs = xs @ zs"
  by (simp add: insert_slice_def)

end
