(* ===== verification/Rlp_Stream.thy ===== *)
theory Rlp_Stream
  imports Prelude "HOL-Library.Monad_Syntax"
begin

text \<open>
  The RLP encoder: \<open>rlp/src/stream.rs\<close>.

  \<open>RlpStream\<close> appends to one buffer; a list of known length is opened by \<open>begin_list\<close>, which
  reserves one byte for its header and pushes a \<open>ListInfo\<close> on the stack of unfinished lists.
  \<open>note_appended\<close> counts items and, when a list is full, writes its header (shifting the
  payload right when the header is longer than the reserved byte), pops it, and counts one
  item in the enclosing list.  A panic is \<open>None\<close>.  The stack is kept with its back (where the
  code pushes and pops) at the head of the list; \<open>ElasticArray\<close> is a growable array, a list
  here.

  The second half states what the encoder promises: \<open>rlp_enc\<close> is the RLP encoding of a tree,
  and driving a stream with a tree appends exactly \<open>rlp_enc\<close> of it.  The proof goes through
  an abstract stack of frames (\<open>push\<close>), which \<open>note_appended\<close> refines.
\<close>

section \<open>State\<close>

record list_info =
  li_position :: nat
  li_current :: nat
  li_max :: "nat option"

record rlp_stream =
  unfinished_lists :: "list_info list"
  buffer :: bytes
  finished_list :: bool

definition new_list_info :: "nat \<Rightarrow> nat option \<Rightarrow> list_info" where
  "new_list_info position mx = \<lparr>li_position = position, li_current = 0, li_max = mx\<rparr>"

definition new_stream :: rlp_stream where
  "new_stream = \<lparr>unfinished_lists = [], buffer = [], finished_list = False\<rparr>"

section \<open>The byte-level encoder\<close>

definition insert_size :: "bytes \<Rightarrow> nat \<Rightarrow> nat \<Rightarrow> (bytes \<times> byte) option" where
  "insert_size buf sz position =
     (let sz = sz mod 2 ^ 32;
          leading_empty_bytes = leading_zeros 32 sz div 8;
          size_bytes = 4 - leading_empty_bytes
      in if length buf < position then None
         else Some (insert_slice buf position (drop leading_empty_bytes (be_bytes 4 sz)),
                    word_of_nat size_bytes))"

definition insert_list_payload :: "bytes \<Rightarrow> nat \<Rightarrow> nat \<Rightarrow> bytes option" where
  "insert_list_payload buf len pos =
     (if pos = 0 \<or> length buf < pos then None
      else if len \<le> 55 then Some (buf[pos - 1 := 0xc0 + word_of_nat len])
      else do { (buf, inserted_bytes) \<leftarrow> insert_size buf len pos;
                Some (buf[pos - 1 := 0xf7 + inserted_bytes]) })"

definition encode_value :: "bytes \<Rightarrow> bytes \<Rightarrow> bytes option" where
  "encode_value buf value =
     (if length value = 0 then Some (buf @ [0x80])
      else if length value = 1 \<and> value ! 0 < 0x80 then Some (buf @ [value ! 0])
      else if length value \<le> 55 then Some (buf @ [0x80 + word_of_nat (length value)] @ value)
      else (let buf = buf @ [0]; position = length buf in
            do { (buf, inserted_bytes) \<leftarrow> insert_size buf (length value) position;
                 Some (buf[position - 1 := 0xb7 + inserted_bytes] @ value) }))"

text \<open>\<open>encoder()\<close> lends the buffer of the stream to a \<open>BasicEncoder\<close>; what is written through
  it is not counted as an item.\<close>

definition with_encoder :: "(bytes \<Rightarrow> bytes option) \<Rightarrow> rlp_stream \<Rightarrow> rlp_stream option" where
  "with_encoder write s = do { buf \<leftarrow> write (buffer s); Some (s\<lparr>buffer := buf\<rparr>) }"

section \<open>The stream\<close>

text \<open>
  \<open>x.current += inserted_items\<close> is an addition of \<open>usize\<close>s, which panics on overflow.  The maximum
  of a bounded list is itself a \<open>usize\<close>, so there an overflow is a count above the maximum, which
  panics too; in an unbounded list the overflow is the only panic.
\<close>

function note_appended :: "rlp_stream \<Rightarrow> nat \<Rightarrow> rlp_stream option" where
  "note_appended s inserted_items =
     (case unfinished_lists s of
        [] \<Rightarrow> Some s
      | x # rest \<Rightarrow>
          (let x = x\<lparr>li_current := li_current x + inserted_items\<rparr>;
               should_finish = (li_max x = Some (li_current x))
           in if (case li_max x of Some m \<Rightarrow> m < li_current x | None \<Rightarrow> 2 ^ 64 \<le> li_current x) then None
              else if should_finish then
                (if length (buffer s) < li_position x then None
                 else do {
                   buf \<leftarrow> insert_list_payload (buffer s) (length (buffer s) - li_position x)
                            (li_position x);
                   s \<leftarrow> note_appended (s\<lparr>unfinished_lists := rest, buffer := buf\<rparr>) 1;
                   Some (s\<lparr>finished_list := True\<rparr>) })
              else Some (s\<lparr>unfinished_lists := x # rest, finished_list := False\<rparr>)))"
  by pat_completeness auto
termination
  by (relation "measure (\<lambda>(s, n). length (unfinished_lists s))") auto

declare note_appended.simps [simp del]

definition begin_list :: "rlp_stream \<Rightarrow> nat \<Rightarrow> rlp_stream option" where
  "begin_list s len =
     (let s = s\<lparr>finished_list := False\<rparr> in
      if len = 0 then
        do { s \<leftarrow> note_appended (s\<lparr>buffer := buffer s @ [0xc0]\<rparr>) 1;
             Some (s\<lparr>finished_list := True\<rparr>) }
      else (let buf = buffer s @ [0]; position = length buf in
            Some (s\<lparr>buffer := buf,
                    unfinished_lists := new_list_info position (Some len) # unfinished_lists s\<rparr>)))"

definition begin_unbounded_list :: "rlp_stream \<Rightarrow> rlp_stream" where
  "begin_unbounded_list s =
     (let buf = buffer s @ [0]; position = length buf in
      s\<lparr>finished_list := False, buffer := buf,
        unfinished_lists := new_list_info position None # unfinished_lists s\<rparr>)"

definition complete_unbounded_list :: "rlp_stream \<Rightarrow> rlp_stream option" where
  "complete_unbounded_list s =
     (case unfinished_lists s of
        [] \<Rightarrow> None
      | list # rest \<Rightarrow>
          if li_max list \<noteq> None then None
          else if length (buffer s) < li_position list then None
          else do {
            buf \<leftarrow> insert_list_payload (buffer s) (length (buffer s) - li_position list)
                     (li_position list);
            note_appended (s\<lparr>unfinished_lists := rest, buffer := buf\<rparr>) 1 })"

definition append_empty_data :: "rlp_stream \<Rightarrow> rlp_stream option" where
  "append_empty_data s = note_appended (s\<lparr>buffer := buffer s @ [0x80]\<rparr>) 1"

definition append_raw :: "rlp_stream \<Rightarrow> bytes \<Rightarrow> nat \<Rightarrow> rlp_stream option" where
  "append_raw s bytes item_count = note_appended (s\<lparr>buffer := buffer s @ bytes\<rparr>) item_count"

text \<open>\<open>append\<close> takes the value as its \<open>Encodable::rlp_append\<close>.\<close>

definition append_with :: "(rlp_stream \<Rightarrow> rlp_stream option) \<Rightarrow> rlp_stream \<Rightarrow> rlp_stream option" where
  "append_with rlp_append s =
     do { s \<leftarrow> rlp_append (s\<lparr>finished_list := False\<rparr>);
          if finished_list s then Some s else note_appended s 1 }"

definition append_internal :: "(rlp_stream \<Rightarrow> rlp_stream option) \<Rightarrow> rlp_stream \<Rightarrow> rlp_stream option" where
  "append_internal rlp_append s = rlp_append s"

fun append_each :: "(rlp_stream \<Rightarrow> rlp_stream option) list \<Rightarrow> rlp_stream \<Rightarrow> rlp_stream option" where
  "append_each [] s = Some s"
| "append_each (v # vs) s = do { s \<leftarrow> append_with v s; append_each vs s }"

definition append_list :: "(rlp_stream \<Rightarrow> rlp_stream option) list \<Rightarrow> rlp_stream \<Rightarrow> rlp_stream option" where
  "append_list values s = do { s \<leftarrow> begin_list s (length values); append_each values s }"

definition new_list :: "nat \<Rightarrow> rlp_stream option" where
  "new_list len = begin_list new_stream len"

definition estimate_size :: "rlp_stream \<Rightarrow> nat \<Rightarrow> nat" where
  "estimate_size s add =
     (let total_size = length (buffer s) + add in
      foldl (\<lambda>base_size list.
               (let len = total_size - li_position list in
                if 55 < len
                then (let leading_empty_bytes = leading_zeros 64 len div 8;
                          size_bytes = 8 - leading_empty_bytes
                      in base_size + size_bytes)
                else base_size))
            total_size (rev (unfinished_lists s)))"

definition stream_len :: "rlp_stream \<Rightarrow> nat" where
  "stream_len s = estimate_size s 0"

definition append_raw_checked :: "rlp_stream \<Rightarrow> bytes \<Rightarrow> nat \<Rightarrow> nat \<Rightarrow> (rlp_stream \<times> bool) option" where
  "append_raw_checked s bytes item_count max_size =
     (if max_size < estimate_size s (length bytes) then Some (s, False)
      else do { s \<leftarrow> append_raw s bytes item_count; Some (s, True) })"

definition clear_stream :: "rlp_stream \<Rightarrow> rlp_stream" where
  "clear_stream s = s\<lparr>buffer := [], unfinished_lists := []\<rparr>"

definition is_finished :: "rlp_stream \<Rightarrow> bool" where
  "is_finished s \<longleftrightarrow> length (unfinished_lists s) = 0"

definition stream_as_raw :: "rlp_stream \<Rightarrow> bytes" where
  "stream_as_raw s = buffer s"

definition out :: "rlp_stream \<Rightarrow> bytes option" where
  "out s = (if is_finished s then Some (buffer s) else None)"

definition drain :: "rlp_stream \<Rightarrow> bytes option" where
  "drain s = (if is_finished s then Some (buffer s) else None)"

definition encode_with :: "(rlp_stream \<Rightarrow> rlp_stream option) \<Rightarrow> bytes option" where
  "encode_with object = do { stream \<leftarrow> append_with object new_stream; drain stream }"

definition encode_list_with :: "(rlp_stream \<Rightarrow> rlp_stream option) list \<Rightarrow> bytes option" where
  "encode_list_with objects = do { stream \<leftarrow> append_list objects new_stream; drain stream }"

text \<open>\<open>Encodable for &[u8]\<close> and \<open>Vec<u8>\<close>.\<close>

definition rlp_append_bytes :: "bytes \<Rightarrow> rlp_stream \<Rightarrow> rlp_stream option" where
  "rlp_append_bytes v s = do { buf \<leftarrow> encode_value (buffer s) v; Some (s\<lparr>buffer := buf\<rparr>) }"

section \<open>The specification: RLP of a tree\<close>

datatype rlp_item = RData bytes | RList "rlp_item list"

definition rlp_header :: "byte \<Rightarrow> nat \<Rightarrow> bytes" where
  "rlp_header off n =
     (if n \<le> 55 then [off + word_of_nat n]
      else (off + 55 + word_of_nat (byte_len n)) # be_bytes (byte_len n) n)"

primrec rlp_enc :: "rlp_item \<Rightarrow> bytes" where
  "rlp_enc (RData b) =
     (if length b = 1 \<and> hd b < 0x80 then b else rlp_header 0x80 (length b) @ b)"
| "rlp_enc (RList xs) =
     (let p = concat (map rlp_enc xs) in rlp_header 0xc0 (length p) @ p)"

text \<open>A client of the stream: the \<open>rlp_append\<close> of a tree.\<close>

primrec rlp_append_item :: "rlp_item \<Rightarrow> rlp_stream \<Rightarrow> rlp_stream option" where
  "rlp_append_item (RData b) = rlp_append_bytes b"
| "rlp_append_item (RList xs) = append_list (map rlp_append_item xs)"

text \<open>
  The header the code writes: the length goes through \<open>as u32\<close>.  It is \<open>rlp_header\<close> below
  four gigabytes (\<open>code_header_eq\<close>), and \<open>code_enc\<close> is the encoding with these headers.
\<close>

definition code_header :: "byte \<Rightarrow> nat \<Rightarrow> bytes" where
  "code_header off n =
     (if n \<le> 55 then [off + word_of_nat n]
      else (let n = n mod 2 ^ 32 in
            (off + 55 + word_of_nat (byte_len n)) # be_bytes (byte_len n) n))"

primrec code_enc :: "rlp_item \<Rightarrow> bytes" where
  "code_enc (RData b) =
     (if length b = 1 \<and> hd b < 0x80 then b else code_header 0x80 (length b) @ b)"
| "code_enc (RList xs) =
     (let p = concat (map code_enc xs) in code_header 0xc0 (length p) @ p)"

lemma code_header_eq: "n < 2 ^ 32 \<Longrightarrow> code_header off n = rlp_header off n"
  by (simp add: code_header_def rlp_header_def)

lemma length_concat_le: "x \<in> set xs \<Longrightarrow> length (f x) \<le> length (concat (map f xs))"
  by (induction xs) auto

lemma code_enc_eq: "length (rlp_enc t) < 2 ^ 32 \<Longrightarrow> code_enc t = rlp_enc t"
proof (induction t)
  case (RData b)
  then show ?case by (auto simp: code_header_eq)
next
  case (RList xs)
  let ?p = "concat (map rlp_enc xs)"
  have small: "length ?p < 2 ^ 32" using RList.prems by (simp add: Let_def)
  have "code_enc x = rlp_enc x" if "x \<in> set xs" for x
    using RList.IH [OF that] length_concat_le [OF that, of rlp_enc] small by simp
  then have "map code_enc xs = map rlp_enc xs" by simp
  with small show ?case by (simp only: code_enc.simps rlp_enc.simps Let_def code_header_eq)
qed

lemma rlp_enc_pos: "Suc 0 \<le> length (rlp_enc t)"
  by (cases t) (auto simp: rlp_header_def Let_def)

section \<open>The encoder writes the header\<close>

lemma insert_size_eq:
  "position \<le> length buf \<Longrightarrow> insert_size buf sz position =
     (let n = sz mod 2 ^ 32 in
      Some (insert_slice buf position (be_bytes (byte_len n) n), word_of_nat (byte_len n)))"
proof -
  assume "position \<le> length buf"
  moreover have n: "sz mod 2 ^ 32 < 256 ^ 4" by simp
  moreover have "byte_len (sz mod 2 ^ 32) \<le> 4" using n by (simp only: byte_len_le_iff)
  ultimately show ?thesis
    using drop_leading_be_bytes [OF n] leading_zeros_div_8 [OF n]
    by (simp add: insert_size_def Let_def)
qed

lemma insert_list_payload_eq:
  "insert_list_payload (xs @ [0] @ p) (length p) (Suc (length xs)) =
     Some (xs @ code_header 0xc0 (length p) @ p)"
proof -
  have "xs @ 0 # p = (xs @ [0]) @ p" by simp
  then have "insert_slice (xs @ 0 # p) (Suc (length xs)) ys = (xs @ [0]) @ ys @ p" for ys :: bytes
    by (simp only: insert_slice_append length_append_singleton)
  then show ?thesis
    by (simp add: insert_list_payload_def insert_size_eq code_header_def Let_def
        list_update_append)
qed

lemma encode_value_eq: "encode_value buf value = Some (buf @ code_enc (RData value))"
proof (cases "length value \<le> 55")
  case True
  then show ?thesis
    by (cases "value") (auto simp: encode_value_def code_header_def)
next
  case False
  then show ?thesis
    by (auto simp: encode_value_def code_header_def Let_def insert_size_eq list_update_append)
qed

section \<open>The stack of open lists, abstractly\<close>

text \<open>
  A frame is an open list: its declared length, the items counted so far, and their bytes.
  \<open>push\<close> adds the bytes of \<open>n\<close> items to the innermost frame; a full frame closes, and its
  encoding is one item of the next.
\<close>

type_synonym frame = "nat option \<times> nat \<times> bytes"

fun push :: "frame list \<Rightarrow> bytes \<Rightarrow> bytes \<Rightarrow> nat \<Rightarrow> (frame list \<times> bytes) option" where
  "push [] base e n = Some ([], base @ e)"
| "push ((m, c, p) # fs) base e n =
     (case m of
        None \<Rightarrow> if c + n < 2 ^ 64 then Some ((m, c + n, p @ e) # fs, base) else None
      | Some k \<Rightarrow>
          if k < c + n then None
          else if c + n = k then push fs base (code_header 0xc0 (length (p @ e)) @ p @ e) 1
          else Some ((m, c + n, p @ e) # fs, base))"

fun closes :: "frame list \<Rightarrow> nat \<Rightarrow> bool" where
  "closes [] n = False"
| "closes ((m, c, p) # fs) n = (m = Some (c + n))"

fun flat :: "frame list \<Rightarrow> bytes \<Rightarrow> bytes" where
  "flat [] base = base"
| "flat ((m, c, p) # fs) base = flat fs base @ [0] @ p"

fun infos :: "frame list \<Rightarrow> bytes \<Rightarrow> list_info list" where
  "infos [] base = []"
| "infos ((m, c, p) # fs) base =
     \<lparr>li_position = Suc (length (flat fs base)), li_current = c, li_max = m\<rparr> # infos fs base"

definition conc :: "frame list \<Rightarrow> bytes \<Rightarrow> bool \<Rightarrow> rlp_stream" where
  "conc fs base fl = \<lparr>unfinished_lists = infos fs base, buffer = flat fs base, finished_list = fl\<rparr>"

lemma conc_simps [simp]:
  "buffer (conc fs base fl) = flat fs base"
  "unfinished_lists (conc fs base fl) = infos fs base"
  "finished_list (conc fs base fl) = fl"
  "(conc fs base fl)\<lparr>finished_list := fl'\<rparr> = conc fs base fl'"
  by (simp_all add: conc_def)

lemma note_appended_push:
  "note_appended \<lparr>unfinished_lists = infos fs base, buffer = flat fs base @ e, finished_list = fl\<rparr> n =
     map_option (\<lambda>(fs', base'). conc fs' base' (if fs = [] then fl else closes fs n)) (push fs base e n)"
proof (induction fs arbitrary: e n fl)
  case Nil
  then show ?case by (simp add: note_appended.simps conc_def)
next
  case (Cons f fs)
  obtain m c p where f: "f = (m, c, p)" by (cases f) auto
  show ?case
  proof (cases "m = Some (c + n)")
    case True
    have "insert_list_payload (flat fs base @ 0 # p @ e) (length (p @ e)) (Suc (length (flat fs base)))
        = Some (flat fs base @ code_header 0xc0 (length (p @ e)) @ p @ e)"
      using insert_list_payload_eq [of "flat fs base" "p @ e"] by simp
    then show ?thesis
      using True f
      by (subst note_appended.simps)
        (simp add: Let_def Cons.IH option.map_comp o_def split_def map_option_case bind_eq_Some_conv
          split: option.split)
  next
    case False
    then show ?thesis
      using f by (subst note_appended.simps) (auto simp: Let_def conc_def split: option.splits)
  qed
qed

lemma note_appended_conc:
  "note_appended ((conc fs base fl)\<lparr>buffer := flat fs base @ e\<rparr>) n =
     map_option (\<lambda>(fs', base'). conc fs' base' (if fs = [] then fl else closes fs n)) (push fs base e n)"
  using note_appended_push [of fs base e fl n] by (simp add: conc_def)

lemma append_raw_conc:
  "append_raw (conc fs base fl) e n =
     map_option (\<lambda>(fs', base'). conc fs' base' (if fs = [] then fl else closes fs n)) (push fs base e n)"
  by (simp add: append_raw_def note_appended_conc)

lemma append_bytes_conc:
  "append_with (rlp_append_bytes b) (conc fs base fl) =
     map_option (\<lambda>(fs', base'). conc fs' base' (if fs = [] then False else closes fs 1))
       (push fs base (code_enc (RData b)) 1)"
proof -
  have "append_with (rlp_append_bytes b) (conc fs base fl) =
      note_appended ((conc fs base False)\<lparr>buffer := flat fs base @ code_enc (RData b)\<rparr>) 1"
    by (simp add: append_with_def rlp_append_bytes_def encode_value_eq del: code_enc.simps)
  then show ?thesis by (simp only: note_appended_conc)
qed

section \<open>Driving the stream with a tree\<close>

text \<open>
  \<open>appends_item f t\<close>: appending through \<open>f\<close> is pushing the encoding of \<open>t\<close>; the flag left
  behind is true whenever the push closed a list.
\<close>

definition appends_item :: "(rlp_stream \<Rightarrow> rlp_stream option) \<Rightarrow> rlp_item \<Rightarrow> bool" where
  "appends_item f t \<longleftrightarrow>
     (\<forall>fs base fl. \<exists>g. (closes fs 1 \<longrightarrow> g) \<and>
        append_with f (conc fs base fl) =
          map_option (\<lambda>(fs', base'). conc fs' base' g) (push fs base (code_enc t) 1))"

lemma appends_itemE:
  assumes "appends_item f t"
  obtains g where "closes fs 1 \<longrightarrow> g"
    and "append_with f (conc fs base fl) =
          map_option (\<lambda>(fs', base'). conc fs' base' g) (push fs base (code_enc t) 1)"
  using assms unfolding appends_item_def by blast

lemma appends_item_bytes: "appends_item (rlp_append_bytes b) (RData b)"
  unfolding appends_item_def append_bytes_conc
  by (auto intro: exI [where x = "if fs = [] then False else closes fs 1" for fs])

lemma append_each_Nil: "append_each [] = Some"
  by (rule ext) simp

lemma append_each_open:
  assumes "list_all2 appends_item fs' ts" and "c + length ts < k"
  shows "\<exists>g. append_each fs' (conc ((Some k, c, p) # fs) base fl) =
     Some (conc ((Some k, c + length ts, p @ concat (map code_enc ts)) # fs) base g)"
  using assms
proof (induction arbitrary: c p fl rule: list_all2_induct)
  case Nil
  then show ?case by auto
next
  case (Cons f fs' t ts)
  obtain g where "append_with f (conc ((Some k, c, p) # fs) base fl) =
      map_option (\<lambda>(fs', base'). conc fs' base' g) (push ((Some k, c, p) # fs) base (code_enc t) 1)"
    using Cons.hyps(1) by (rule appends_itemE)
  then have step: "append_with f (conc ((Some k, c, p) # fs) base fl) =
      Some (conc ((Some k, Suc c, p @ code_enc t) # fs) base g)"
    using Cons.prems by simp
  have "Suc c + length ts < k" using Cons.prems by simp
  from Cons.IH [OF this, of "p @ code_enc t" g] show ?case by (simp add: step)
qed

lemma append_each_close:
  assumes all: "list_all2 appends_item fs' ts" and ne: "ts \<noteq> []"
  shows "append_each fs' (conc ((Some (length ts), 0, []) # fs) base fl) =
     map_option (\<lambda>(fs', base'). conc fs' base' True) (push fs base (code_enc (RList ts)) 1)"
proof -
  obtain us u where ts: "ts = us @ [u]" using ne by (metis append_butlast_last_id)
  obtain gs f where fs': "fs' = gs @ [f]" and gs: "list_all2 appends_item gs us"
    and f: "appends_item f u"
    using all unfolding ts by (auto simp: list_all2_append2 list_all2_Cons2)
  have each_append: "append_each (gs @ [f]) s =
      do { s \<leftarrow> append_each gs s; append_with f s }" for s
    by (induction gs arbitrary: s) (simp_all add: Option.bind_assoc cong: Option.bind_cong)
  obtain g where open_part: "append_each gs (conc ((Some (length ts), 0, []) # fs) base fl) =
      Some (conc ((Some (length ts), length us, concat (map code_enc us)) # fs) base g)"
    using append_each_open [OF gs, of 0 "length ts" "[]" fs base fl] ts by auto
  obtain h where "closes ((Some (length ts), length us, concat (map code_enc us)) # fs) 1 \<longrightarrow> h"
    and last_part: "append_with f (conc ((Some (length ts), length us, concat (map code_enc us)) # fs) base g) =
      map_option (\<lambda>(fs', base'). conc fs' base' h)
        (push ((Some (length ts), length us, concat (map code_enc us)) # fs) base (code_enc u) 1)"
    using f by (rule appends_itemE)
  then have h: "h" using ts by simp
  show ?thesis
    unfolding fs' each_append open_part Option.bind.simps last_part
    using h ts by (simp add: Let_def)
qed

lemma append_with_list:
  "append_with (append_list vs) (conc fs base fl) =
     do { s \<leftarrow> append_list vs (conc fs base False);
          if finished_list s then Some s else note_appended s 1 }"
  by (simp add: append_with_def)

lemma append_list_conc:
  assumes "list_all2 appends_item vs ts" and "ts \<noteq> []"
  shows "append_list vs (conc fs base False) =
     map_option (\<lambda>(fs', base'). conc fs' base' True) (push fs base (code_enc (RList ts)) 1)"
proof -
  have "length vs = length ts" "length ts \<noteq> 0"
    using assms by (auto simp: list_all2_lengthD)
  then have "begin_list (conc fs base False) (length vs) =
      Some (conc ((Some (length ts), 0, []) # fs) base False)"
    by (simp add: begin_list_def conc_def new_list_info_def Let_def)
  then show ?thesis
    using append_each_close [OF assms] by (simp add: append_list_def)
qed

lemma appends_item_list:
  assumes "list_all2 appends_item vs ts"
  shows "appends_item (append_list vs) (RList ts)"
proof (cases "ts = []")
  case True
  then have "vs = []" using assms by simp
  moreover have "code_header 0xc0 0 = [0xc0]" by (simp add: code_header_def)
  ultimately show ?thesis
    using True unfolding appends_item_def append_with_list
    by (auto simp: append_list_def begin_list_def note_appended_conc split_def map_option_case
        split: option.split intro: exI [where x = True])
next
  case False
  have "append_list vs (conc fs base False) =
      map_option (\<lambda>(fs', base'). conc fs' base' True) (push fs base (code_enc (RList ts)) 1)" for fs base
    using assms False by (rule append_list_conc)
  then show ?thesis
    unfolding appends_item_def append_with_list
    by (auto simp: split_def map_option_case split: option.split intro: exI [where x = True]
        simp del: code_enc.simps)
qed

lemma appends_item_tree: "appends_item (rlp_append_item t) t"
proof (induction t)
  case (RData b)
  then show ?case by (simp add: appends_item_bytes)
next
  case (RList ts)
  then have "list_all2 appends_item (map rlp_append_item ts) ts"
    by (auto simp: list_all2_conv_all_nth)
  then show ?case by (simp add: appends_item_list)
qed

lemma conc_new_stream: "new_stream = conc [] [] False"
  by (simp add: new_stream_def conc_def)

lemma encode_with_item: "appends_item f t \<Longrightarrow> encode_with f = Some (code_enc t)"
  unfolding encode_with_def conc_new_stream
  by (erule appends_itemE [where fs = "[]" and base = "[]" and fl = False])
    (simp add: drain_def is_finished_def)

lemma encode_list_with_items:
  assumes "list_all2 appends_item vs ts"
  shows "encode_list_with vs = Some (code_enc (RList ts))"
proof (cases "ts = []")
  case True
  then have "vs = []" using assms by simp
  moreover have "code_header 0xc0 0 = [0xc0]" by (simp add: code_header_def)
  ultimately show ?thesis
    using True unfolding encode_list_with_def conc_new_stream
    by (simp add: append_list_def begin_list_def note_appended.simps conc_def drain_def is_finished_def)
next
  case False
  then show ?thesis
    unfolding encode_list_with_def conc_new_stream append_list_conc [OF assms False]
    by (simp add: drain_def is_finished_def)
qed

section \<open>Filling a list of fixed length\<close>

text \<open>\<open>pushes f e\<close>: the call \<open>f\<close> appends one item with the bytes \<open>e\<close>, raw or encoded.\<close>

definition pushes :: "(rlp_stream \<Rightarrow> rlp_stream option) \<Rightarrow> bytes \<Rightarrow> bool" where
  "pushes f e \<longleftrightarrow>
     (\<forall>fs base fl. \<exists>g. f (conc fs base fl) =
          map_option (\<lambda>(fs', base'). conc fs' base' g) (push fs base e 1))"

fun run_each :: "(rlp_stream \<Rightarrow> rlp_stream option) list \<Rightarrow> rlp_stream \<Rightarrow> rlp_stream option" where
  "run_each [] s = Some s"
| "run_each (f # fs) s = do { s \<leftarrow> f s; run_each fs s }"

lemma pushes_raw [simp]: "pushes (\<lambda>s. append_raw s e (Suc 0)) e"
  unfolding pushes_def append_raw_conc One_nat_def by blast

lemma pushes_item: "appends_item f t \<Longrightarrow> pushes (append_with f) (code_enc t)"
  unfolding pushes_def appends_item_def by blast

lemma pushes_empty_data [simp]: "pushes append_empty_data [0x80]"
  unfolding pushes_def append_empty_data_def note_appended_conc conc_simps by blast

lemma run_each_append: "run_each (fs @ gs) s = do { s \<leftarrow> run_each fs s; run_each gs s }"
  by (induction fs arbitrary: s) (simp_all add: Option.bind_assoc cong: Option.bind_cong)

lemma run_each_open:
  assumes "list_all2 pushes fs' es" and "c + length es < k"
  shows "\<exists>g. run_each fs' (conc ((Some k, c, p) # fs) base fl) =
     Some (conc ((Some k, c + length es, p @ concat es) # fs) base g)"
  using assms
proof (induction arbitrary: c p fl rule: list_all2_induct)
  case Nil
  then show ?case by auto
next
  case (Cons f fs' e es)
  obtain g where "f (conc ((Some k, c, p) # fs) base fl) =
      map_option (\<lambda>(fs', base'). conc fs' base' g) (push ((Some k, c, p) # fs) base e 1)"
    using Cons.hyps(1) unfolding pushes_def by blast
  then have step: "f (conc ((Some k, c, p) # fs) base fl) = Some (conc ((Some k, Suc c, p @ e) # fs) base g)"
    using Cons.prems by simp
  have "Suc c + length es < k" using Cons.prems by simp
  from Cons.IH [OF this, of "p @ e" g] show ?case by (simp add: step)
qed

lemma new_list_run_each:
  assumes "list_all2 pushes fs es" and "es \<noteq> []"
  shows "do { s \<leftarrow> new_list (length es); s \<leftarrow> run_each fs s; out s } =
     Some (code_header 0xc0 (length (concat es)) @ concat es)"
proof -
  obtain us u where es: "es = us @ [u]" using assms(2) by (metis append_butlast_last_id)
  obtain gs f where fs: "fs = gs @ [f]" and gs: "list_all2 pushes gs us" and f: "pushes f u"
    using assms(1) unfolding es by (auto simp: list_all2_append2 list_all2_Cons2)
  have start: "new_list (length es) = Some (conc [(Some (length es), 0, [])] [] False)"
    using assms(2) by (simp add: new_list_def begin_list_def new_stream_def conc_def new_list_info_def Let_def)
  obtain g where "run_each gs (conc [(Some (length es), 0, [])] [] False) =
      Some (conc [(Some (length es), length us, concat us)] [] g)"
    using run_each_open [OF gs, of 0 "length es" "[]" "[]" "[]" False] es by auto
  moreover obtain h where "f (conc [(Some (length es), length us, concat us)] [] g) =
      map_option (\<lambda>(fs', base'). conc fs' base' h) (push [(Some (length es), length us, concat us)] [] u 1)"
    using f unfolding pushes_def by blast
  ultimately show ?thesis
    unfolding start fs run_each_append by (simp add: es out_def is_finished_def)
qed

text \<open>A list opened with \<open>begin_list\<close> and filled by calls that append its items is one item
  of the list around it.\<close>

lemma begin_list_conc:
  "n \<noteq> 0 \<Longrightarrow> begin_list (conc fs base fl) n = Some (conc ((Some n, 0, []) # fs) base False)"
  by (simp add: begin_list_def conc_def new_list_info_def Let_def)

lemma begin_list_0_conc:
  "begin_list (conc fs base fl) 0 = map_option (\<lambda>(fs', base'). conc fs' base' True) (push fs base [0xc0] 1)"
  by (cases "push fs base [0xc0] 1") (simp_all add: begin_list_def note_appended_conc split_def)

lemma run_each_Nil: "run_each [] = Some"
  by (rule ext) simp

lemma pushes_list:
  assumes "list_all2 pushes gs es"
  shows "pushes (\<lambda>s. do { s \<leftarrow> begin_list s (length es); run_each gs s })
    (code_header 0xc0 (length (concat es)) @ concat es)"
  unfolding pushes_def
proof (intro allI)
  fix fs base fl
  show "\<exists>g. do { s \<leftarrow> begin_list (conc fs base fl) (length es); run_each gs s } =
      map_option (\<lambda>(fs', base'). conc fs' base' g)
        (push fs base (code_header 0xc0 (length (concat es)) @ concat es) 1)"
  proof (cases "es = []")
    case True
    then have "gs = []" "code_header 0xc0 0 = [0xc0]" using assms by (simp_all add: code_header_def)
    then show ?thesis
      using True by (cases "push fs base [0xc0] 1") (auto simp: begin_list_0_conc split_def)
  next
    case False
    then obtain us u where es: "es = us @ [u]" by (metis append_butlast_last_id)
    obtain hs f where gs: "gs = hs @ [f]" and hs: "list_all2 pushes hs us" and f: "pushes f u"
      using assms unfolding es by (auto simp: list_all2_append2 list_all2_Cons2)
    obtain g where "run_each hs (conc ((Some (length es), 0, []) # fs) base False) =
        Some (conc ((Some (length es), length us, concat us) # fs) base g)"
      using run_each_open [OF hs, of 0 "length es" "[]" fs base False] es by auto
    moreover obtain h where "f (conc ((Some (length es), length us, concat us) # fs) base g) =
        map_option (\<lambda>(fs', base'). conc fs' base' h)
          (push ((Some (length es), length us, concat us) # fs) base u 1)"
      using f unfolding pushes_def by blast
    ultimately show ?thesis
      using False unfolding gs run_each_append
      by (auto simp: begin_list_conc es run_each_Nil)
  qed
qed

lemma pushes_append_list:
  assumes "list_all2 appends_item vs ts"
  shows "pushes (append_list vs) (code_enc (RList ts))"
  unfolding pushes_def
proof (intro allI)
  fix fs base fl
  have flag: "append_list vs (conc fs base fl) = append_list vs (conc fs base False)"
    by (simp add: append_list_def begin_list_def Let_def)
  show "\<exists>g. append_list vs (conc fs base fl) =
      map_option (\<lambda>(fs', base'). conc fs' base' g) (push fs base (code_enc (RList ts)) 1)"
  proof (cases "ts = []")
    case True
    then have "vs = []" "code_header 0xc0 0 = [0xc0]" using assms by (simp_all add: code_header_def)
    then show ?thesis using True by (auto simp: append_list_def begin_list_0_conc)
  next
    case False
    then show ?thesis unfolding flag append_list_conc [OF assms False] by blast
  qed
qed

section \<open>Unbounded lists, sizes\<close>

lemma append_each_unbounded:
  assumes "list_all2 appends_item vs ts" and "c + length ts < 2 ^ 64"
  shows "\<exists>g. append_each vs (conc ((None, c, p) # fs) base fl) =
     Some (conc ((None, c + length ts, p @ concat (map code_enc ts)) # fs) base g)"
  using assms
proof (induction arbitrary: c p fl rule: list_all2_induct)
  case Nil
  then show ?case by auto
next
  case (Cons f vs t ts)
  obtain g where "append_with f (conc ((None, c, p) # fs) base fl) =
      map_option (\<lambda>(fs', base'). conc fs' base' g) (push ((None, c, p) # fs) base (code_enc t) 1)"
    using Cons.hyps(1) by (rule appends_itemE)
  then have "append_with f (conc ((None, c, p) # fs) base fl) =
      Some (conc ((None, Suc c, p @ code_enc t) # fs) base g)"
    using Cons.prems by simp
  then show ?case using Cons.IH [of "Suc c" "p @ code_enc t" g] Cons.prems by simp
qed

lemma begin_unbounded_conc:
  "begin_unbounded_list (conc fs base fl) = conc ((None, 0, []) # fs) base False"
  by (simp add: begin_unbounded_list_def conc_def new_list_info_def Let_def)

lemma complete_unbounded_conc:
  "complete_unbounded_list (conc ((None, c, p) # fs) base fl) =
     map_option (\<lambda>(fs', base'). conc fs' base' (if fs = [] then fl else closes fs 1))
       (push fs base (code_header 0xc0 (length p) @ p) 1)"
proof -
  have "insert_list_payload (flat fs base @ 0 # p) (length p) (Suc (length (flat fs base)))
      = Some (flat fs base @ code_header 0xc0 (length p) @ p)"
    using insert_list_payload_eq [of "flat fs base" p] by simp
  moreover have "complete_unbounded_list (conc ((None, c, p) # fs) base fl) =
      do { buf \<leftarrow> insert_list_payload (flat fs base @ 0 # p) (length p) (Suc (length (flat fs base)));
           note_appended \<lparr>unfinished_lists = infos fs base, buffer = buf, finished_list = fl\<rparr> 1 }"
    by (simp add: complete_unbounded_list_def conc_def)
  ultimately show ?thesis by (simp only: Option.bind.simps note_appended_push)
qed

section \<open>Reachable streams\<close>

text \<open>
  The states the public operations build, with arguments that are \<open>usize\<close>s.  \<open>append\<close> of a value
  runs the \<open>rlp_append\<close> of its type, which is any sequence of public operations, between a reset of
  the flag and the count of one item; these two halves are rules of their own (\<open>reach_start\<close>,
  \<open>reach_finish\<close>), so the relation covers every \<open>Encodable\<close>, finished or in the middle of its
  \<open>rlp_append\<close>.  The rules for trees are the cases the codecs of this crate use.
\<close>

inductive reachable_stream :: "rlp_stream \<Rightarrow> bool" where
  reach_new: "reachable_stream new_stream"
| reach_new_list: "n < 2 ^ 64 \<Longrightarrow> new_list n = Some s \<Longrightarrow> reachable_stream s"
| reach_begin: "reachable_stream s \<Longrightarrow> n < 2 ^ 64 \<Longrightarrow> begin_list s n = Some s' \<Longrightarrow> reachable_stream s'"
| reach_unbounded: "reachable_stream s \<Longrightarrow> reachable_stream (begin_unbounded_list s)"
| reach_complete: "reachable_stream s \<Longrightarrow> complete_unbounded_list s = Some s' \<Longrightarrow> reachable_stream s'"
| reach_append: "reachable_stream s \<Longrightarrow> append_with (rlp_append_item t) s = Some s' \<Longrightarrow> reachable_stream s'"
| reach_append_list: "reachable_stream s \<Longrightarrow> append_list (map rlp_append_item ts) s = Some s' \<Longrightarrow> reachable_stream s'"
| reach_internal: "reachable_stream s \<Longrightarrow> append_internal (rlp_append_item t) s = Some s' \<Longrightarrow> reachable_stream s'"
| reach_encoder: "reachable_stream s \<Longrightarrow> with_encoder (\<lambda>buf. encode_value buf v) s = Some s' \<Longrightarrow> reachable_stream s'"
| reach_start: "reachable_stream s \<Longrightarrow> reachable_stream (s\<lparr>finished_list := False\<rparr>)"
| reach_finish: "reachable_stream s \<Longrightarrow> \<not> finished_list s \<Longrightarrow> note_appended s 1 = Some s' \<Longrightarrow> reachable_stream s'"
| reach_empty: "reachable_stream s \<Longrightarrow> append_empty_data s = Some s' \<Longrightarrow> reachable_stream s'"
| reach_raw: "reachable_stream s \<Longrightarrow> n < 2 ^ 64 \<Longrightarrow> append_raw s b n = Some s' \<Longrightarrow> reachable_stream s'"
| reach_raw_checked: "reachable_stream s \<Longrightarrow> n < 2 ^ 64 \<Longrightarrow> append_raw_checked s b n sz = Some (s', ok)
    \<Longrightarrow> reachable_stream s'"
| reach_clear: "reachable_stream s \<Longrightarrow> reachable_stream (clear_stream s)"

text \<open>
  Every such state is \<open>conc\<close> of frames that are not yet full; this is the invariant by which the
  index computations of \<open>note_appended\<close> and \<open>insert_list_payload\<close> stay inside the buffer.
\<close>

fun frame_open :: "frame \<Rightarrow> bool" where
  "frame_open (None, c, p) = (c < 2 ^ 64)"
| "frame_open (Some k, c, p) = (c < k \<and> k < 2 ^ 64)"

fun lists_ok :: "nat \<Rightarrow> list_info list \<Rightarrow> bool" where
  "lists_ok n [] = True"
| "lists_ok n (x # xs) =
     (0 < li_position x \<and> li_position x \<le> n \<and>
      (case li_max x of None \<Rightarrow> li_current x < 2 ^ 64 | Some m \<Rightarrow> li_current x < m \<and> m < 2 ^ 64) \<and>
      lists_ok (li_position x - 1) xs)"

definition stream_ok :: "rlp_stream \<Rightarrow> bool" where
  "stream_ok s = lists_ok (length (buffer s)) (unfinished_lists s)"

lemma lists_ok_mono: "lists_ok n xs \<Longrightarrow> n \<le> m \<Longrightarrow> lists_ok m xs"
  by (induction xs) auto

lemma stream_ok_conc: "list_all frame_open fs \<Longrightarrow> stream_ok (conc fs base fl)"
proof (induction fs)
  case Nil
  then show ?case by (simp add: stream_ok_def)
next
  case (Cons f fs)
  then show ?case
    by (cases f rule: frame_open.cases) (auto simp: stream_ok_def)
qed

lemma push_open: "list_all frame_open fs \<Longrightarrow> push fs base e n = Some (fs', base') \<Longrightarrow> list_all frame_open fs'"
  by (induction fs base e n rule: push.induct) (auto split: option.splits if_splits)

text \<open>One more item fits unless its count reaches an unbounded list that has counted
  \<open>usize::MAX\<close> items: a bounded list is not full, and when the item fills it, the list becomes one
  item of the next.\<close>

fun has_room :: "list_info list \<Rightarrow> bool" where
  "has_room [] = True"
| "has_room (x # xs) =
     (case li_max x of
        None \<Rightarrow> li_current x < 2 ^ 64 - 1
      | Some m \<Rightarrow> if li_current x + 1 = m then has_room xs else True)"

lemma push_one: "list_all frame_open fs \<Longrightarrow> (push fs base e 1 = None) \<longleftrightarrow> \<not> has_room (infos fs base)"
proof (induction fs base e "1 :: nat" rule: push.induct)
  case (1 base e)
  then show ?case by simp
next
  case (2 m c p fs base e)
  then show ?case by (cases m) auto
qed

definition stream_inv :: "rlp_stream \<Rightarrow> bool" where
  "stream_inv s \<longleftrightarrow> (\<exists>fs base fl. s = conc fs base fl \<and> list_all frame_open fs)"

lemma stream_invI: "list_all frame_open fs \<Longrightarrow> stream_inv (conc fs base fl)"
  unfolding stream_inv_def by blast

lemma stream_invE:
  assumes "stream_inv s"
  obtains fs base fl where "s = conc fs base fl" and "list_all frame_open fs"
  using assms unfolding stream_inv_def by blast

lemma push_inv:
  "list_all frame_open fs \<Longrightarrow> map_option (\<lambda>(fs', base'). conc fs' base' g) (push fs base e n) = Some s
     \<Longrightarrow> stream_inv s"
  by (auto intro!: stream_invI dest: push_open)

lemma inv_begin:
  assumes "stream_inv s" and "n < 2 ^ 64" and "begin_list s n = Some s'"
  shows "stream_inv s'"
proof -
  obtain fs base fl where s: "s = conc fs base fl" and open_fs: "list_all frame_open fs"
    using assms(1) by (rule stream_invE)
  show ?thesis
  proof (cases "n = 0")
    case True
    with assms(3) s open_fs show ?thesis
      by (auto simp: begin_list_def bind_eq_Some_conv note_appended_conc
          intro!: stream_invI dest: push_open)
  next
    case False
    then have "s' = conc ((Some n, 0, []) # fs) base False"
      using assms(3) s by (simp add: begin_list_def conc_def new_list_info_def Let_def)
    with False open_fs assms(2) show ?thesis by (auto intro: stream_invI)
  qed
qed

lemma inv_complete:
  assumes "stream_inv s" and "complete_unbounded_list s = Some s'"
  shows "stream_inv s'"
proof -
  obtain fs base fl where s: "s = conc fs base fl" and open_fs: "list_all frame_open fs"
    using assms(1) by (rule stream_invE)
  then obtain c p gs where "fs = (None, c, p) # gs"
    using assms(2)
    by (cases "(fs, base)" rule: infos.cases)
      (auto simp: complete_unbounded_list_def split: if_splits)
  then show ?thesis
    using assms(2) s open_fs by (auto simp: complete_unbounded_conc intro!: stream_invI dest: push_open)
qed

lemma inv_raw: "stream_inv s \<Longrightarrow> append_raw s e n = Some s' \<Longrightarrow> stream_inv s'"
  by (erule stream_invE) (auto simp: append_raw_conc intro!: stream_invI dest: push_open)

lemma append_empty_data_raw: "append_empty_data s = append_raw s [0x80] 1"
  by (simp add: append_empty_data_def append_raw_def)

lemma append_item_room:
  assumes "appends_item f t" and "stream_inv s"
  shows "case append_with f s of
      None \<Rightarrow> \<not> has_room (unfinished_lists s)
    | Some s' \<Rightarrow> has_room (unfinished_lists s) \<and> stream_inv s'"
proof -
  obtain fs base fl where s: "s = conc fs base fl" and open_fs: "list_all frame_open fs"
    using assms(2) by (rule stream_invE)
  obtain g where g: "append_with f s =
      map_option (\<lambda>(fs', base'). conc fs' base' g) (push fs base (code_enc t) 1)"
    using assms(1) unfolding s by (rule appends_itemE [where fs = fs and base = base and fl = fl])
  show ?thesis
  proof (cases "push fs base (code_enc t) 1")
    case None
    then show ?thesis using g s push_one [OF open_fs, of base "code_enc t"] by simp
  next
    case (Some u)
    then show ?thesis
      using g s push_one [OF open_fs, of base "code_enc t"] push_open [OF open_fs] stream_invI
      by (cases u) auto
  qed
qed

lemma inv_item: "stream_inv s \<Longrightarrow> append_with (rlp_append_item t) s = Some s' \<Longrightarrow> stream_inv s'"
  using append_item_room [OF appends_item_tree, of s t] by simp

lemma inv_append_list:
  assumes "stream_inv s" and "append_list (map rlp_append_item ts) s = Some s'"
  shows "stream_inv s'"
proof -
  have "pushes (append_list (map rlp_append_item ts)) (code_enc (RList ts))"
    by (rule pushes_append_list) (auto simp: list_all2_conv_all_nth intro: appends_item_tree)
  moreover obtain fs base fl where s: "s = conc fs base fl" and open_fs: "list_all frame_open fs"
    using assms(1) by (rule stream_invE)
  ultimately obtain g where "map_option (\<lambda>(fs', base'). conc fs' base' g) (push fs base (code_enc (RList ts)) 1) = Some s'"
    using assms(2) unfolding pushes_def by metis
  then show ?thesis by (rule push_inv [OF open_fs])
qed

text \<open>Bytes written through the encoder land in the innermost frame, uncounted.\<close>

lemma inv_write:
  assumes "stream_inv s"
  shows "stream_inv (s\<lparr>buffer := buffer s @ e\<rparr>)"
proof -
  obtain fs base fl where s: "s = conc fs base fl" and open_fs: "list_all frame_open fs"
    using assms by (rule stream_invE)
  show ?thesis
  proof (cases fs)
    case Nil
    then have "s\<lparr>buffer := buffer s @ e\<rparr> = conc [] (base @ e) fl" using s by (simp add: conc_def)
    then show ?thesis using stream_invI [of "[]"] by simp
  next
    case (Cons f gs)
    obtain m c p where f: "f = (m, c, p)" by (cases f) auto
    have "s\<lparr>buffer := buffer s @ e\<rparr> = conc ((m, c, p @ e) # gs) base fl"
      using s Cons f by (simp add: conc_def)
    moreover have "list_all frame_open ((m, c, p @ e) # gs)"
      using open_fs Cons f by (cases m) auto
    ultimately show ?thesis using stream_invI by simp
  qed
qed

lemma inv_encoder: "stream_inv s \<Longrightarrow> with_encoder (\<lambda>buf. encode_value buf v) s = Some s' \<Longrightarrow> stream_inv s'"
  using inv_write [of s "code_enc (RData v)"] by (simp add: with_encoder_def encode_value_eq del: code_enc.simps)

lemma inv_internal:
  assumes "stream_inv s" and "append_internal (rlp_append_item t) s = Some s'"
  shows "stream_inv s'"
proof (cases t)
  case (RData b)
  then have "with_encoder (\<lambda>buf. encode_value buf b) s = Some s'"
    using assms(2) by (simp add: append_internal_def rlp_append_bytes_def with_encoder_def)
  with assms(1) show ?thesis by (rule inv_encoder)
next
  case (RList ts)
  then show ?thesis using assms inv_append_list by (simp add: append_internal_def)
qed

lemma inv_start: "stream_inv s \<Longrightarrow> stream_inv (s\<lparr>finished_list := False\<rparr>)"
  by (erule stream_invE) (simp add: stream_invI)

lemma inv_finish: "stream_inv s \<Longrightarrow> note_appended s 1 = Some s' \<Longrightarrow> stream_inv s'"
  using inv_raw [of s "[]" 1 s'] by (simp add: append_raw_def)

lemma inv_raw_checked: "stream_inv s \<Longrightarrow> append_raw_checked s e n sz = Some (s', ok) \<Longrightarrow> stream_inv s'"
  by (auto simp: append_raw_checked_def bind_eq_Some_conv intro: inv_raw split: if_splits)

lemma inv_unbounded: "stream_inv s \<Longrightarrow> stream_inv (begin_unbounded_list s)"
  by (erule stream_invE) (auto simp: begin_unbounded_conc intro!: stream_invI)

lemma inv_clear: "stream_inv (clear_stream s)"
  unfolding stream_inv_def
  by (rule exI [where x = "[]"], rule exI [where x = "[]"], rule exI [where x = "finished_list s"])
    (simp add: clear_stream_def conc_def)

lemma inv_new: "stream_inv new_stream"
  by (simp add: conc_new_stream stream_invI)

lemma reachable_inv: "reachable_stream s \<Longrightarrow> stream_inv s"
proof (induction rule: reachable_stream.induct)
  case reach_new
  show ?case by (rule inv_new)
next
  case (reach_new_list n s)
  then show ?case using inv_begin [OF inv_new] by (simp add: new_list_def)
next
  case (reach_begin s n s')
  show ?case by (rule inv_begin [OF reach_begin.IH reach_begin.hyps(2,3)])
next
  case (reach_unbounded s)
  show ?case by (rule inv_unbounded [OF reach_unbounded.IH])
next
  case (reach_complete s s')
  show ?case by (rule inv_complete [OF reach_complete.IH reach_complete.hyps(2)])
next
  case (reach_append s t s')
  show ?case by (rule inv_item [OF reach_append.IH reach_append.hyps(2)])
next
  case (reach_append_list s ts s')
  show ?case by (rule inv_append_list [OF reach_append_list.IH reach_append_list.hyps(2)])
next
  case (reach_internal s t s')
  show ?case by (rule inv_internal [OF reach_internal.IH reach_internal.hyps(2)])
next
  case (reach_encoder s v s')
  show ?case by (rule inv_encoder [OF reach_encoder.IH reach_encoder.hyps(2)])
next
  case (reach_start s)
  show ?case by (rule inv_start [OF reach_start.IH])
next
  case (reach_finish s s')
  show ?case by (rule inv_finish [OF reach_finish.IH reach_finish.hyps(3)])
next
  case (reach_empty s s')
  show ?case
    by (rule inv_raw [OF reach_empty.IH reach_empty.hyps(2) [unfolded append_empty_data_raw]])
next
  case (reach_raw s n b s')
  show ?case by (rule inv_raw [OF reach_raw.IH reach_raw.hyps(3)])
next
  case (reach_raw_checked s n b sz s' ok)
  show ?case by (rule inv_raw_checked [OF reach_raw_checked.IH reach_raw_checked.hyps(3)])
next
  case (reach_clear s)
  show ?case by (rule inv_clear)
qed

section \<open>Properties\<close>

text \<open>C1. Driving a fresh \<open>RlpStream\<close> with a tree of byte strings and lists of any depth
  (\<open>append\<close>, \<open>append_list\<close>, \<open>begin_list\<close>, \<open>note_appended\<close>, the headers patched in afterwards)
  and draining it returns exactly the RLP encoding of the tree, for encodings below four
  gigabytes; in particular no panic is reached.\<close>

theorem stream_encodes_tree:
  "length (rlp_enc t) < 2 ^ 32 \<Longrightarrow> encode_with (rlp_append_item t) = Some (rlp_enc t)"
  using encode_with_item [OF appends_item_tree] code_enc_eq by simp

theorem stream_encodes_tree_witness:
  "encode_with (rlp_append_item (RList [RData [0x63, 0x61, 0x74], RList [], RData [1]])) =
     Some [0xc6, 0x83, 0x63, 0x61, 0x74, 0xc0, 1]"
  using stream_encodes_tree [of "RList [RData [0x63, 0x61, 0x74], RList [], RData [1]]"]
  by (simp add: rlp_header_def)

text \<open>C34. In every state the public operations can reach (\<open>append_internal\<close>, writes through
  \<open>encoder()\<close> and states in the middle of an \<open>append\<close> included), the open lists' positions lie
  inside the buffer, strictly nested, no open list is full and every count is a \<open>usize\<close>.
  Appending one value (a tree of any depth) there panics exactly when it would overflow the item
  count of an unbounded list, which takes an \<open>append_raw\<close> that declares that many items; otherwise
  it returns such a state again.\<close>

theorem reachable_stream_safe:
  "reachable_stream s \<Longrightarrow>
     stream_ok s \<and>
     (case append_with (rlp_append_item t) s of
        None \<Rightarrow> \<not> has_room (unfinished_lists s)
      | Some s' \<Rightarrow> has_room (unfinished_lists s) \<and> stream_ok s')"
proof -
  assume "reachable_stream s"
  then have inv: "stream_inv s" by (rule reachable_inv)
  have "stream_ok u" if "stream_inv u" for u
    using that by (auto elim: stream_invE simp: stream_ok_conc)
  then show ?thesis using inv append_item_room [OF appends_item_tree inv, of t] by (auto split: option.splits)
qed

theorem reachable_stream_safe_witness:
  "(\<exists>s s'. begin_list new_stream 2 = Some s \<and> append_with (rlp_append_item (RData [5])) s = Some s' \<and> stream_ok s') \<and>
   (\<exists>s. append_raw (begin_unbounded_list new_stream) [] (2 ^ 64 - 1) = Some s \<and> stream_ok s \<and>
     append_with (rlp_append_item (RData [5])) s = None)"
proof
  obtain s where s: "begin_list new_stream 2 = Some s"
    by (simp add: begin_list_def Let_def)
  then have "reachable_stream s" by (intro reach_begin [OF reach_new]) auto
  moreover have "has_room (unfinished_lists s)"
    using s by (auto simp: begin_list_def new_list_info_def new_stream_def)
  ultimately show "\<exists>s s'. begin_list new_stream 2 = Some s \<and>
      append_with (rlp_append_item (RData [5])) s = Some s' \<and> stream_ok s'"
    using s reachable_stream_safe [of s "RData [5]"] by (auto split: option.splits)
next
  let ?l = "begin_unbounded_list new_stream"
  obtain s where s: "append_raw ?l [] (2 ^ 64 - 1) = Some s"
    and full: "\<not> has_room (unfinished_lists s)"
    by (simp add: append_raw_def begin_unbounded_list_def note_appended.simps new_list_info_def Let_def)
  have "reachable_stream s"
    by (rule reach_raw [OF reach_unbounded [OF reach_new] _ s]) simp
  from reachable_stream_safe [OF this, of "RData [5]"] full
  show "\<exists>s. append_raw ?l [] (2 ^ 64 - 1) = Some s \<and> stream_ok s \<and>
      append_with (rlp_append_item (RData [5])) s = None"
    using s by (auto split: option.splits)
qed

text \<open>A list opened with unknown length (\<open>begin_unbounded_list\<close>, the items,
  \<open>complete_unbounded_list\<close>) drains to the same bytes as the list of known length.\<close>

theorem unbounded_list_encoding:
  "length (rlp_enc (RList ts)) < 2 ^ 32 \<Longrightarrow>
     do { s \<leftarrow> append_each (map rlp_append_item ts) (begin_unbounded_list new_stream);
          s \<leftarrow> complete_unbounded_list s;
          out s } = Some (rlp_enc (RList ts))"
proof -
  assume small: "length (rlp_enc (RList ts)) < 2 ^ 32"
  have "length ts \<le> length (concat (map rlp_enc ts))"
    using sum_list_mono [of ts "\<lambda>_. 1" "\<lambda>t. length (rlp_enc t)"] rlp_enc_pos
    by (simp add: length_concat comp_def sum_list_triv)
  then have n: "0 + length ts < 2 ^ 64" using small by (simp add: Let_def)
  have "list_all2 appends_item (map rlp_append_item ts) ts"
    by (auto simp: list_all2_conv_all_nth intro: appends_item_tree)
  from append_each_unbounded [OF this n, of "[]" "[]" "[]" False]
  obtain g where "append_each (map rlp_append_item ts) (begin_unbounded_list new_stream) =
      Some (conc [(None, length ts, concat (map code_enc ts))] [] g)"
    by (auto simp: conc_new_stream begin_unbounded_conc)
  then show ?thesis
    using code_enc_eq [OF small]
    by (simp add: complete_unbounded_conc out_def is_finished_def Let_def)
qed

theorem unbounded_list_encoding_witness:
  "do { s \<leftarrow> append_each [rlp_append_item (RData [1]), rlp_append_item (RData [])]
               (begin_unbounded_list new_stream);
        s \<leftarrow> complete_unbounded_list s;
        out s } = Some [0xc2, 1, 0x80]"
  using unbounded_list_encoding [of "[RData [1], RData []]"] by (simp add: rlp_header_def)

text \<open>The length of a value goes through \<open>as u32\<close>: a value of exactly four gigabytes is
  written with an empty length field, as the header byte \<open>0xb7\<close> of a 55-byte string.\<close>

theorem encode_value_4gib:
  "length v = 2 ^ 32 \<Longrightarrow> encode_value buf v = Some (buf @ [0xb7] @ v)"
  by (simp add: encode_value_eq code_header_def)

end
