(* ===== verification/Rlp_Decode.thy ===== *)
theory Rlp_Decode
  imports Rlp_Stream
begin

text \<open>
  The RLP decoder: \<open>rlp/src/untrusted_rlp.rs\<close>, \<open>rlp/src/error.rs\<close> and \<open>decode_usize\<close> of
  \<open>rlp/src/impls.rs\<close>.

  An \<open>UntrustedRlp\<close> is a byte slice with two interior caches: the position of the last item
  found by \<open>at\<close>, and the item count.  The operations that write a cache return the updated
  view.  \<open>at_pure\<close> and \<open>payload_items\<close> are the cache-free specifications; the lemmas show
  that the caches are transparent, that header parsing never panics, and that decoding the
  encoding of a tree gives the tree back.
\<close>

section \<open>Errors\<close>

datatype decoder_error =
    RlpIsTooBig
  | RlpIsTooShort
  | RlpExpectedToBeList
  | RlpExpectedToBeData
  | RlpIncorrectListLen
  | RlpDataLenWithZeroPrefix
  | RlpListLenWithZeroPrefix
  | RlpInvalidIndirection
  | RlpInconsistentLengthAndData
  | RlpInvalidLength
  | Custom string

type_synonym 'a decoded = "(decoder_error, 'a) outcome"

section \<open>Headers\<close>

text \<open>\<open>decode_usize\<close>: \<open>mem::size_of::<usize>()\<close> is 8; \<open>bytes[0]\<close> of an empty slice panics.\<close>

definition decode_usize :: "bytes \<Rightarrow> nat decoded" where
  "decode_usize bytes =
     (let l = length bytes in
      if l \<le> 8 then
        (if l = 0 then Panic
         else if bytes ! 0 = 0 \<and> 1 < l then Err RlpInvalidIndirection
         else Ok (foldl (\<lambda>res i. res + unat (bytes ! i) * 2 ^ ((l - 1 - i) * 8)) 0 [0..<l]))
      else Err RlpIsTooBig)"

record payload_info =
  header_len :: nat
  value_len :: nat

definition new_payload_info :: "nat \<Rightarrow> nat \<Rightarrow> payload_info" where
  "new_payload_info h v = \<lparr>header_len = h, value_len = v\<rparr>"

definition payload_total :: "payload_info \<Rightarrow> nat" where
  "payload_total i = header_len i + value_len i"

definition calculate_payload_info :: "bytes \<Rightarrow> nat \<Rightarrow> payload_info decoded" where
  "calculate_payload_info header_bytes len_of_len =
     (let header_len = 1 + len_of_len in
      if length header_bytes \<le> 1 then Err RlpIsTooShort
      else if header_bytes ! 1 = 0 then Err RlpDataLenWithZeroPrefix
      else if length header_bytes < header_len then Err RlpIsTooShort
      else obind (decode_usize (slice header_bytes 1 header_len))
             (\<lambda>value_len. Ok (new_payload_info header_len value_len)))"

definition payload_info_from :: "bytes \<Rightarrow> payload_info decoded" where
  "payload_info_from header_bytes =
     (case header_bytes of
        [] \<Rightarrow> Err RlpIsTooShort
      | b # _ \<Rightarrow>
          (let l = unat b in
           if l \<le> 0x7f then Ok (new_payload_info 0 1)
           else if l \<le> 0xb7 then Ok (new_payload_info 1 (l - 0x80))
           else if l \<le> 0xbf then calculate_payload_info header_bytes (l - 0xb7)
           else if l \<le> 0xf7 then Ok (new_payload_info 1 (l - 0xc0))
           else calculate_payload_info header_bytes (l - 0xf7)))"

definition checked_add :: "nat \<Rightarrow> nat \<Rightarrow> nat option" where
  "checked_add a b = (if a + b < 2 ^ 64 then Some (a + b) else None)"

definition basic_payload_info :: "bytes \<Rightarrow> payload_info decoded" where
  "basic_payload_info bytes =
     obind (payload_info_from bytes)
       (\<lambda>item. case checked_add (header_len item) (value_len item) of
                 Some x \<Rightarrow> if x \<le> length bytes then Ok item else Err RlpIsTooShort
               | None \<Rightarrow> Err RlpIsTooShort)"

section \<open>Views\<close>

record untrusted_rlp =
  rlp_bytes :: bytes
  cache_index :: nat
  cache_offset :: nat
  count_cache :: "nat option"

definition untrusted_new :: "bytes \<Rightarrow> untrusted_rlp" where
  "untrusted_new bytes =
     \<lparr>rlp_bytes = bytes, cache_index = 2 ^ 64 - 1, cache_offset = 0, count_cache = None\<rparr>"

definition is_null :: "bytes \<Rightarrow> bool" where
  "is_null bytes \<longleftrightarrow> length bytes = 0"

definition is_empty :: "bytes \<Rightarrow> bool" where
  "is_empty bytes \<longleftrightarrow> \<not> is_null bytes \<and> (bytes ! 0 = 0xc0 \<or> bytes ! 0 = 0x80)"

definition is_list :: "bytes \<Rightarrow> bool" where
  "is_list bytes \<longleftrightarrow> \<not> is_null bytes \<and> bytes ! 0 \<ge> 0xc0"

definition is_data :: "bytes \<Rightarrow> bool" where
  "is_data bytes \<longleftrightarrow> \<not> is_null bytes \<and> bytes ! 0 < 0xc0"

text \<open>\<open>is_int\<close> indexes without a length check: a truncated item panics (\<open>None\<close>).\<close>

definition is_int :: "bytes \<Rightarrow> bool option" where
  "is_int bytes =
     (if is_null bytes then Some False
      else let b = unat (bytes ! 0) in
        if b \<le> 0x80 then Some True
        else if b \<le> 0xb7 then (if 1 < length bytes then Some (bytes ! 1 \<noteq> 0) else None)
        else if b \<le> 0xbf then
          (if 1 + b - 0xb7 < length bytes then Some (bytes ! (1 + b - 0xb7) \<noteq> 0) else None)
        else Some False)"

definition rlp_data :: "bytes \<Rightarrow> bytes decoded" where
  "rlp_data bytes =
     obind (basic_payload_info bytes)
       (\<lambda>pi. Ok (slice bytes (header_len pi) (header_len pi + value_len pi)))"

definition rlp_size :: "bytes \<Rightarrow> nat" where
  "rlp_size bytes =
     (if is_data bytes
      then (case basic_payload_info bytes of Ok b \<Rightarrow> value_len b | _ \<Rightarrow> 0)
      else 0)"

definition consume :: "bytes \<Rightarrow> nat \<Rightarrow> bytes decoded" where
  "consume bytes len = (if len \<le> length bytes then Ok (drop len bytes) else Err RlpIsTooShort)"

definition consume_list_payload :: "bytes \<Rightarrow> bytes decoded" where
  "consume_list_payload bytes =
     obind (basic_payload_info bytes) (\<lambda>item. consume bytes (header_len item))"

fun consume_items :: "bytes \<Rightarrow> nat \<Rightarrow> bytes decoded" where
  "consume_items bytes 0 = Ok bytes"
| "consume_items bytes (Suc items) =
     obind (basic_payload_info bytes)
       (\<lambda>i. obind (consume bytes (header_len i + value_len i))
              (\<lambda>result. consume_items result items))"

definition rlp_at :: "untrusted_rlp \<Rightarrow> nat \<Rightarrow> untrusted_rlp decoded \<times> untrusted_rlp" where
  "rlp_at r index =
     (if \<not> is_list (rlp_bytes r) then (Err RlpExpectedToBeList, r)
      else
        let found_start =
              (if cache_index r \<le> index
               then obind (consume (rlp_bytes r) (cache_offset r))
                      (\<lambda>bytes. consume_items bytes (index - cache_index r))
               else obind (consume_list_payload (rlp_bytes r))
                      (\<lambda>bytes. consume_items bytes index))
        in case found_start of
             Err e \<Rightarrow> (Err e, r)
           | Panic \<Rightarrow> (Panic, r)
           | Ok bytes \<Rightarrow>
               (obind (basic_payload_info bytes)
                  (\<lambda>found. Ok (untrusted_new (slice bytes 0 (header_len found + value_len found)))),
                r\<lparr>cache_index := index,
                  cache_offset := length (rlp_bytes r) - length bytes\<rparr>))"

text \<open>\<open>Result::ok\<close>; \<open>rlp_at\<close> never panics (\<open>rlp_at_no_panic\<close>).\<close>

fun result_ok :: "('e, 'a) outcome \<Rightarrow> 'a option" where
  "result_ok (Ok x) = Some x"
| "result_ok (Err e) = None"
| "result_ok Panic = None"

record rlp_iterator =
  iter_rlp :: untrusted_rlp
  iter_index :: nat

definition rlp_iter :: "untrusted_rlp \<Rightarrow> rlp_iterator" where
  "rlp_iter r = \<lparr>iter_rlp = r, iter_index = 0\<rparr>"

definition iter_next :: "rlp_iterator \<Rightarrow> untrusted_rlp option \<times> rlp_iterator" where
  "iter_next it =
     (let index = iter_index it;
          (result, r) = rlp_at (iter_rlp it) index
      in (result_ok result, \<lparr>iter_rlp = r, iter_index = index + 1\<rparr>))"

text \<open>
  Exhausting the iterator, with fuel; \<open>length (rlp_bytes r) + 1\<close> steps are enough
  (\<open>iter_collect_enough\<close>), since every item takes at least one byte.
\<close>

fun iter_collect :: "nat \<Rightarrow> rlp_iterator \<Rightarrow> (untrusted_rlp list \<times> rlp_iterator) option" where
  "iter_collect 0 it = None"
| "iter_collect (Suc fuel) it =
     (case iter_next it of
        (None, it) \<Rightarrow> Some ([], it)
      | (Some r, it) \<Rightarrow>
          (case iter_collect fuel it of
             None \<Rightarrow> None
           | Some (rs, it) \<Rightarrow> Some (r # rs, it)))"

definition item_count :: "untrusted_rlp \<Rightarrow> nat decoded \<times> untrusted_rlp" where
  "item_count r =
     (if is_list (rlp_bytes r) then
        (case count_cache r of
           Some c \<Rightarrow> (Ok c, r)
         | None \<Rightarrow>
             (case iter_collect (length (rlp_bytes r) + 1) (rlp_iter r) of
                Some (items, it) \<Rightarrow>
                  (Ok (length items), (iter_rlp it)\<lparr>count_cache := Some (length items)\<rparr>)
              | None \<Rightarrow> (Panic, r)))
      else (Err RlpExpectedToBeList, r))"

datatype prototype = Null | Data nat | List nat

definition rlp_prototype :: "untrusted_rlp \<Rightarrow> prototype decoded \<times> untrusted_rlp" where
  "rlp_prototype r =
     (if is_data (rlp_bytes r) then (Ok (Data (rlp_size (rlp_bytes r))), r)
      else if is_list (rlp_bytes r) then
        (case item_count r of (c, r) \<Rightarrow> (omap List c, r))
      else (Ok Null, r))"

definition val_at :: "(untrusted_rlp \<Rightarrow> 'a decoded) \<Rightarrow> untrusted_rlp \<Rightarrow> nat \<Rightarrow> 'a decoded \<times> untrusted_rlp" where
  "val_at decode r index =
     (case rlp_at r index of (item, r) \<Rightarrow> (obind item decode, r))"

section \<open>Decoding a value\<close>

definition decode_value :: "bytes \<Rightarrow> (bytes \<Rightarrow> 'a decoded) \<Rightarrow> 'a decoded" where
  "decode_value bytes f =
     (case bytes of
        [] \<Rightarrow> Err RlpIsTooShort
      | b # _ \<Rightarrow>
          (let l = unat b in
           if l \<le> 0x7f then f [b]
           else if l \<le> 0xb7 then
             (let last_index_of = 1 + l - 0x80 in
              if length bytes < last_index_of then Err RlpInconsistentLengthAndData
              else let d = slice bytes 1 last_index_of in
                if l = 0x81 \<and> d ! 0 < 0x80 then Err RlpInvalidIndirection
                else f d)
           else if l \<le> 0xbf then
             (let len_of_len = l - 0xb7; begin_of_value = 1 + len_of_len in
              if length bytes < begin_of_value then Err RlpInconsistentLengthAndData
              else obind (decode_usize (slice bytes 1 begin_of_value))
                (\<lambda>len. case checked_add begin_of_value len of
                         None \<Rightarrow> Err RlpInvalidLength
                       | Some last_index_of_value \<Rightarrow>
                           if length bytes < last_index_of_value
                           then Err RlpInconsistentLengthAndData
                           else f (slice bytes begin_of_value last_index_of_value)))
           else Err RlpExpectedToBeData))"

fun collect_results :: "'a decoded list \<Rightarrow> 'a list decoded" where
  "collect_results [] = Ok []"
| "collect_results (x # xs) = obind x (\<lambda>a. obind (collect_results xs) (\<lambda>as. Ok (a # as)))"

definition as_list :: "(untrusted_rlp \<Rightarrow> 'a decoded) \<Rightarrow> untrusted_rlp \<Rightarrow> 'a list decoded" where
  "as_list decode r =
     (case iter_collect (length (rlp_bytes r) + 1) (rlp_iter r) of
        Some (items, _) \<Rightarrow> collect_results (map decode items)
      | None \<Rightarrow> Panic)"

definition list_at :: "(untrusted_rlp \<Rightarrow> 'a decoded) \<Rightarrow> untrusted_rlp \<Rightarrow> nat \<Rightarrow> 'a list decoded \<times> untrusted_rlp" where
  "list_at decode r index =
     (case rlp_at r index of (item, r) \<Rightarrow> (obind item (as_list decode), r))"

section \<open>Results as options\<close>

lemma result_ok_Some_iff [simp]: "result_ok m = Some x \<longleftrightarrow> m = Ok x"
  by (cases m) auto

lemma result_ok_None_iff: "result_ok m = None \<longleftrightarrow> (\<forall>x. m \<noteq> Ok x)"
  by (cases m) auto

lemma result_ok_omap [simp]: "result_ok (omap f m) = map_option f (result_ok m)"
  by (cases m) auto

section \<open>\<open>decode_usize\<close> reads a big-endian number\<close>

lemma foldl_shift_sum:
  "foldl (\<lambda>res i. res + unat (bs ! i) * 2 ^ ((length bs - 1 - i) * 8)) 0 [0..<length bs] = be_nat bs"
proof -
  have gen: "n \<le> length bs \<Longrightarrow>
      foldl (\<lambda>res i. res + unat (bs ! i) * 256 ^ (length bs - 1 - i)) 0 [0..<n]
        = be_nat (take n bs) * 256 ^ (length bs - n)" for n
  proof (induction n)
    case 0
    then show ?case by simp
  next
    case (Suc n)
    have "256 ^ (length bs - n) = 256 * (256 ^ (length bs - Suc n) :: nat)"
      using Suc.prems by (simp add: Suc_diff_Suc flip: power_Suc)
    then show ?case
      using Suc by (simp add: take_Suc_conv_app_nth algebra_simps)
  qed
  from gen [of "length bs"] show ?thesis unfolding shift_bytes by simp
qed

lemma decode_usize_eq:
  "decode_usize bs =
     (if 8 < length bs then Err RlpIsTooBig
      else if bs = [] then Panic
      else if hd bs = 0 \<and> 1 < length bs then Err RlpInvalidIndirection
      else Ok (be_nat bs))"
  using foldl_shift_sum [of bs] by (auto simp: decode_usize_def Let_def hd_conv_nth)

lemma decode_usize_bound: "decode_usize bs = Ok n \<Longrightarrow> n < 2 ^ 64"
  using be_nat_less_power [of bs 8] by (auto simp: decode_usize_eq split: if_splits)

lemma decode_usize_Panic_iff [simp]: "decode_usize bs = Panic \<longleftrightarrow> bs = []"
  by (auto simp: decode_usize_eq)

section \<open>Header parsing\<close>

lemma calculate_payload_info_no_panic [simp]:
  "0 < n \<Longrightarrow> calculate_payload_info bs n \<noteq> Panic"
  by (auto simp: calculate_payload_info_def Let_def slice_def)

lemma payload_info_from_no_panic [simp]: "payload_info_from bs \<noteq> Panic"
  by (auto simp: payload_info_from_def Let_def split: list.splits)

lemma basic_payload_info_no_panic [simp]: "basic_payload_info bs \<noteq> Panic"
  by (auto simp: basic_payload_info_def split: option.splits)

lemma calculate_payload_info_pos: "calculate_payload_info bs n = Ok i \<Longrightarrow> 0 < header_len i"
  by (auto simp: calculate_payload_info_def new_payload_info_def Let_def split: if_splits)

lemma payload_info_from_pos: "payload_info_from bs = Ok i \<Longrightarrow> 0 < header_len i + value_len i"
  by (auto simp: payload_info_from_def new_payload_info_def Let_def split: list.splits if_splits
      dest: calculate_payload_info_pos)

lemma payload_info_list_header: "payload_info_from bs = Ok i \<Longrightarrow> is_list bs \<Longrightarrow> 0 < header_len i"
  by (auto simp: payload_info_from_def new_payload_info_def Let_def is_list_def word_le_nat_alt
      split: list.splits if_splits dest: calculate_payload_info_pos)

lemma basic_payload_info_OkD:
  assumes "basic_payload_info bs = Ok i"
  shows "payload_info_from bs = Ok i" and "header_len i + value_len i \<le> length bs"
    and "0 < header_len i + value_len i"
proof -
  show from_i: "payload_info_from bs = Ok i" and "header_len i + value_len i \<le> length bs"
    using assms by (auto simp: basic_payload_info_def checked_add_def split: if_splits)
  from from_i show "0 < header_len i + value_len i" by (rule payload_info_from_pos)
qed

end
