(* ===== verification/Rlp_Views.thy ===== *)
theory Rlp_Views
  imports Rlp_Decode
begin

text \<open>
  What the decoder's views promise.  \<open>at_pure\<close> finds an item without any cache and
  \<open>rlp_items\<close> lists the items of a list; \<open>cache_ok\<close> is the invariant of a view's caches, kept
  by every operation, under which \<open>rlp_at\<close>, the iterator and \<open>item_count\<close> agree with them.
  What the views read back from \<open>rlp_enc\<close> is in \<open>Rlp_Roundtrip\<close>.
\<close>

section \<open>Cache-free specifications\<close>

definition item_at_head :: "bytes \<Rightarrow> bytes decoded" where
  "item_at_head bytes =
     obind (basic_payload_info bytes) (\<lambda>i. Ok (take (header_len i + value_len i) bytes))"

definition at_pure :: "bytes \<Rightarrow> nat \<Rightarrow> bytes decoded" where
  "at_pure bytes index =
     (if \<not> is_list bytes then Err RlpExpectedToBeList
      else obind (obind (consume_list_payload bytes) (\<lambda>b. consume_items b index)) item_at_head)"

lemma item_rest_shorter:
  "basic_payload_info bs = Ok i \<Longrightarrow> length (drop (header_len i + value_len i) bs) < length bs"
  by (frule basic_payload_info_OkD(2), drule basic_payload_info_OkD(3)) (simp only: length_drop)

function payload_items :: "bytes \<Rightarrow> bytes list" where
  "payload_items bytes =
     (case basic_payload_info bytes of
        Ok i \<Rightarrow> take (header_len i + value_len i) bytes
                 # payload_items (drop (header_len i + value_len i) bytes)
      | _ \<Rightarrow> [])"
  by pat_completeness auto
termination
  by (relation "measure length") (simp_all only: in_measure item_rest_shorter wf_measure)

declare payload_items.simps [simp del]

lemma payload_items_Ok:
  "basic_payload_info bs = Ok i \<Longrightarrow> payload_items bs =
     take (header_len i + value_len i) bs # payload_items (drop (header_len i + value_len i) bs)"
  by (subst payload_items.simps) simp

lemma payload_items_stop: "result_ok (basic_payload_info bs) = None \<Longrightarrow> payload_items bs = []"
  by (subst payload_items.simps) (auto split: outcome.split)

definition rlp_items :: "bytes \<Rightarrow> bytes list" where
  "rlp_items bytes =
     (if is_list bytes
      then (case consume_list_payload bytes of Ok p \<Rightarrow> payload_items p | _ \<Rightarrow> [])
      else [])"

section \<open>Walking over items\<close>

lemma consume_no_panic [simp]: "consume bs n \<noteq> Panic"
  by (simp add: consume_def)

lemma consume_items_no_panic [simp]: "consume_items bs n \<noteq> Panic"
  by (induction bs n rule: consume_items.induct) auto

lemma consume_list_payload_no_panic [simp]: "consume_list_payload bs \<noteq> Panic"
  by (simp add: consume_list_payload_def)

lemma consume_items_add:
  "consume_items bs (m + n) = obind (consume_items bs m) (\<lambda>bs. consume_items bs n)"
  by (induction bs m rule: consume_items.induct) (simp_all add: obind_assoc cong: obind_cong)

lemma consume_items_suffix:
  "consume_items bs n = Ok bs' \<Longrightarrow> \<exists>k. bs' = drop k bs \<and> n \<le> k \<and> k \<le> length bs"
proof (induction bs n arbitrary: bs' rule: consume_items.induct)
  case (1 bs)
  then show ?case by (auto intro: exI [where x = 0])
next
  case (2 bs n)
  then obtain i where i: "basic_payload_info bs = Ok i"
    and rest: "consume_items (drop (header_len i + value_len i) bs) n = Ok bs'"
    by (auto simp: consume_def split: if_splits)
  note bounds = basic_payload_info_OkD [OF i]
  then have "consume bs (header_len i + value_len i) = Ok (drop (header_len i + value_len i) bs)"
    by (simp add: consume_def)
  from "2.IH" [OF i this rest] obtain k where
    "bs' = drop k (drop (header_len i + value_len i) bs)" "n \<le> k"
    "k \<le> length bs - (header_len i + value_len i)"
    by auto
  with bounds show ?case
    by (intro exI [where x = "k + (header_len i + value_len i)"]) auto
qed

lemma consume_list_payload_suffix:
  "consume_list_payload bs = Ok p \<Longrightarrow> is_list bs \<Longrightarrow> \<exists>k. p = drop k bs \<and> 0 < k \<and> k \<le> length bs"
  using payload_info_list_header [of bs] basic_payload_info_OkD [of bs]
  by (fastforce simp: consume_list_payload_def consume_def split: if_splits)

lemma suffix_consume: "k \<le> length bs \<Longrightarrow> consume bs (length bs - length (drop k bs)) = Ok (drop k bs)"
  by (simp add: consume_def)

lemma length_payload_items: "length (payload_items bs) \<le> length bs"
proof (induction bs rule: payload_items.induct)
  case (1 bs)
  show ?case
  proof (cases "basic_payload_info bs")
    case (Ok i)
    with "1.IH" [OF Ok] item_rest_shorter [OF Ok]
    show ?thesis by (simp add: payload_items_Ok)
  qed (simp_all add: payload_items_stop)
qed

lemma payload_items_shorter: "x \<in> set (payload_items bs) \<Longrightarrow> length x \<le> length bs"
proof (induction bs rule: payload_items.induct)
  case (1 bs)
  show ?case
  proof (cases "basic_payload_info bs")
    case (Ok i)
    then show ?thesis using "1.IH" [OF Ok] "1.prems" by (auto simp: payload_items_Ok)
  qed (use "1.prems" in \<open>simp_all add: payload_items_stop\<close>)
qed

lemma item_after_items:
  "result_ok (obind (consume_items bs n) item_at_head) =
     (if n < length (payload_items bs) then Some (payload_items bs ! n) else None)"
proof (induction n arbitrary: bs)
  case 0
  then show ?case
    by (cases "basic_payload_info bs")
      (simp_all add: item_at_head_def payload_items_Ok payload_items_stop)
next
  case (Suc n)
  show ?case
  proof (cases "basic_payload_info bs")
    case (Ok i)
    have "consume bs (header_len i + value_len i) = outcome.Ok (drop (header_len i + value_len i) bs)"
      using basic_payload_info_OkD [OF Ok] by (simp add: consume_def)
    then show ?thesis using Suc.IH Ok by (simp add: payload_items_Ok)
  qed (simp_all add: payload_items_stop)
qed

lemma at_pure_items:
  "result_ok (at_pure bs n) = (if n < length (rlp_items bs) then Some (rlp_items bs ! n) else None)"
  by (cases "consume_list_payload bs")
    (simp_all add: at_pure_def rlp_items_def item_after_items del: result_ok_Some_iff)

lemma length_rlp_items: "is_list bs \<Longrightarrow> length (rlp_items bs) < length bs"
proof -
  assume l: "is_list bs"
  show ?thesis
  proof (cases "consume_list_payload bs")
    case (Ok p)
    with l obtain k where "p = drop k bs" "0 < k" "k \<le> length bs"
      using consume_list_payload_suffix by blast
    with Ok l length_payload_items [of p] show ?thesis by (simp add: rlp_items_def)
  qed (use l in \<open>auto simp: rlp_items_def is_list_def is_null_def\<close>)
qed

lemma length_rlp_items_le: "length (rlp_items bs) \<le> length bs"
  using length_rlp_items [of bs] by (cases "is_list bs") (auto simp: rlp_items_def)

lemma rlp_items_shorter: "x \<in> set (rlp_items bs) \<Longrightarrow> length x < length bs"
proof -
  assume "x \<in> set (rlp_items bs)"
  then have "is_list bs \<and> (\<exists>p. consume_list_payload bs = Ok p \<and> x \<in> set (payload_items p))"
    by (cases "is_list bs"; cases "consume_list_payload bs") (simp_all add: rlp_items_def)
  then obtain p where l: "is_list bs" and p: "consume_list_payload bs = Ok p"
    and x: "x \<in> set (payload_items p)"
    by blast
  obtain k where "p = drop k bs" "0 < k" "k \<le> length bs"
    using consume_list_payload_suffix [OF p l] by blast
  with payload_items_shorter [OF x] show ?thesis by simp
qed

section \<open>The caches\<close>

definition offset_ok :: "untrusted_rlp \<Rightarrow> bool" where
  "offset_ok r \<longleftrightarrow>
     cache_index r = 2 ^ 64 - 1 \<and> cache_offset r = 0 \<or>
     map_option (\<lambda>b. length (rlp_bytes r) - length b)
       (result_ok (obind (consume_list_payload (rlp_bytes r)) (\<lambda>b. consume_items b (cache_index r))))
     = Some (cache_offset r)"

definition cache_ok :: "untrusted_rlp \<Rightarrow> bool" where
  "cache_ok r \<longleftrightarrow>
     offset_ok r \<and> (count_cache r = None \<or> count_cache r = Some (length (rlp_items (rlp_bytes r))))"

lemma cache_ok_new [simp]: "cache_ok (untrusted_new bs)"
  by (simp add: cache_ok_def offset_ok_def untrusted_new_def)

lemma rlp_bytes_new [simp]: "rlp_bytes (untrusted_new bs) = bs"
  by (simp add: untrusted_new_def)

lemma found_start_eq:
  assumes "offset_ok r" and "is_list (rlp_bytes r)" and "index < 2 ^ 64 - 1"
  shows "(if cache_index r \<le> index
      then obind (consume (rlp_bytes r) (cache_offset r)) (\<lambda>b. consume_items b (index - cache_index r))
      else obind (consume_list_payload (rlp_bytes r)) (\<lambda>b. consume_items b index))
    = obind (consume_list_payload (rlp_bytes r)) (\<lambda>b. consume_items b index)"
proof (cases "cache_index r \<le> index")
  case True
  then have "cache_index r \<noteq> 2 ^ 64 - 1" using assms(3) by simp
  with assms(1) obtain b b' where b: "consume_list_payload (rlp_bytes r) = Ok b"
    and b': "consume_items b (cache_index r) = Ok b'"
    and off: "cache_offset r = length (rlp_bytes r) - length b'"
    by (auto simp: offset_ok_def)
  obtain j where "b = drop j (rlp_bytes r)" "j \<le> length (rlp_bytes r)"
    using consume_list_payload_suffix [OF b assms(2)] by blast
  moreover obtain k where "b' = drop k b" "k \<le> length b"
    using consume_items_suffix [OF b'] by blast
  ultimately have "consume (rlp_bytes r) (cache_offset r) = Ok b'"
    using suffix_consume [of "k + j" "rlp_bytes r"] off by simp
  moreover have "consume_items b index = consume_items b' (index - cache_index r)"
    using consume_items_add [of b "cache_index r" "index - cache_index r"] b' True by simp
  ultimately show ?thesis using b True by simp
qed simp

lemma rlp_at_cached:
  assumes "cache_ok r" and "index < 2 ^ 64 - 1"
  shows "fst (rlp_at r index) = omap untrusted_new (at_pure (rlp_bytes r) index)"
    and "cache_ok (snd (rlp_at r index))"
    and "rlp_bytes (snd (rlp_at r index)) = rlp_bytes r"
    and "count_cache (snd (rlp_at r index)) = count_cache r"
proof -
  let ?s = "obind (consume_list_payload (rlp_bytes r)) (\<lambda>b. consume_items b index)"
  have off: "offset_ok r" using assms(1) by (simp add: cache_ok_def)
  have *: "fst (rlp_at r index) = omap untrusted_new (at_pure (rlp_bytes r) index) \<and>
    cache_ok (snd (rlp_at r index)) \<and> rlp_bytes (snd (rlp_at r index)) = rlp_bytes r \<and>
    count_cache (snd (rlp_at r index)) = count_cache r"
  proof (cases "is_list (rlp_bytes r)")
    case False
    then show ?thesis using assms(1) by (simp add: rlp_at_def at_pure_def)
  next
    case True
    note eq = found_start_eq [OF off True assms(2)]
    show ?thesis
    proof (cases ?s)
      case (Ok b)
      then have "offset_ok (r\<lparr>cache_index := index, cache_offset := length (rlp_bytes r) - length b\<rparr>)"
        by (simp add: offset_ok_def del: obind_Ok_iff)
      moreover have "obind (basic_payload_info b)
          (\<lambda>found. outcome.Ok (untrusted_new (slice b 0 (header_len found + value_len found))))
        = omap untrusted_new (item_at_head b)"
        by (cases "basic_payload_info b") (simp_all add: item_at_head_def slice_0)
      ultimately show ?thesis
        using assms(1) True Ok unfolding rlp_at_def Let_def eq
        by (simp add: cache_ok_def at_pure_def del: obind_Ok_iff)
    qed (use assms(1) True in \<open>unfold rlp_at_def Let_def eq, simp_all add: at_pure_def\<close>)
  qed
  then show "fst (rlp_at r index) = omap untrusted_new (at_pure (rlp_bytes r) index)"
    and "cache_ok (snd (rlp_at r index))"
    and "rlp_bytes (snd (rlp_at r index)) = rlp_bytes r"
    and "count_cache (snd (rlp_at r index)) = count_cache r"
    by blast+
qed

lemma iter_next_cached:
  assumes "cache_ok (iter_rlp it)" and "iter_index it < 2 ^ 64 - 1"
  shows "\<exists>r. iter_next it =
      ((if iter_index it < length (rlp_items (rlp_bytes (iter_rlp it)))
        then Some (untrusted_new (rlp_items (rlp_bytes (iter_rlp it)) ! iter_index it)) else None),
       \<lparr>iter_rlp = r, iter_index = iter_index it + 1\<rparr>)
    \<and> cache_ok r \<and> rlp_bytes r = rlp_bytes (iter_rlp it) \<and> count_cache r = count_cache (iter_rlp it)"
  using rlp_at_cached [OF assms] at_pure_items [of "rlp_bytes (iter_rlp it)" "iter_index it"]
  by (auto simp: iter_next_def Let_def split_def)

lemma iter_collect_enough:
  assumes "cache_ok (iter_rlp it)" and "length (rlp_bytes (iter_rlp it)) < 2 ^ 64 - 1"
    and "iter_index it \<le> length (rlp_items (rlp_bytes (iter_rlp it)))"
    and "length (rlp_items (rlp_bytes (iter_rlp it))) < iter_index it + fuel"
  shows "\<exists>it'. iter_collect fuel it =
      Some (map untrusted_new (drop (iter_index it) (rlp_items (rlp_bytes (iter_rlp it)))), it')
    \<and> cache_ok (iter_rlp it') \<and> rlp_bytes (iter_rlp it') = rlp_bytes (iter_rlp it)
    \<and> count_cache (iter_rlp it') = count_cache (iter_rlp it)"
  using assms
proof (induction fuel arbitrary: it)
  case 0
  then show ?case by simp
next
  case (Suc fuel)
  let ?xs = "rlp_items (rlp_bytes (iter_rlp it))"
  have idx: "iter_index it < 2 ^ 64 - 1"
    using Suc.prems(2,3) length_rlp_items_le [of "rlp_bytes (iter_rlp it)"] by linarith
  obtain r where step: "iter_next it =
      ((if iter_index it < length ?xs then Some (untrusted_new (?xs ! iter_index it)) else None),
       \<lparr>iter_rlp = r, iter_index = iter_index it + 1\<rparr>)"
    and r: "cache_ok r" "rlp_bytes r = rlp_bytes (iter_rlp it)"
      "count_cache r = count_cache (iter_rlp it)"
    using iter_next_cached [OF Suc.prems(1) idx] by blast
  show ?case
  proof (cases "iter_index it < length ?xs")
    case True
    then have "\<exists>it'. iter_collect fuel \<lparr>iter_rlp = r, iter_index = iter_index it + 1\<rparr> =
        Some (map untrusted_new (drop (iter_index it + 1) ?xs), it')
      \<and> cache_ok (iter_rlp it') \<and> rlp_bytes (iter_rlp it') = rlp_bytes (iter_rlp it)
      \<and> count_cache (iter_rlp it') = count_cache (iter_rlp it)"
      using Suc.IH [of "\<lparr>iter_rlp = r, iter_index = iter_index it + 1\<rparr>"] Suc.prems r by simp
    then obtain it' where it': "iter_collect fuel \<lparr>iter_rlp = r, iter_index = iter_index it + 1\<rparr> =
        Some (map untrusted_new (drop (iter_index it + 1) ?xs), it')"
      and keep: "cache_ok (iter_rlp it')" "rlp_bytes (iter_rlp it') = rlp_bytes (iter_rlp it)"
        "count_cache (iter_rlp it') = count_cache (iter_rlp it)"
      by blast
    have "drop (iter_index it) ?xs = ?xs ! iter_index it # drop (iter_index it + 1) ?xs"
      using True by (simp add: Cons_nth_drop_Suc)
    with step it' keep True show ?thesis by (simp del: drop_Suc)
  next
    case False
    with step r show ?thesis by simp
  qed
qed

lemma iter_collect_all:
  assumes "cache_ok r" and "length (rlp_bytes r) < 2 ^ 64 - 1"
  shows "\<exists>it. iter_collect (length (rlp_bytes r) + 1) (rlp_iter r) =
      Some (map untrusted_new (rlp_items (rlp_bytes r)), it)
    \<and> cache_ok (iter_rlp it) \<and> rlp_bytes (iter_rlp it) = rlp_bytes r
    \<and> count_cache (iter_rlp it) = count_cache r"
  using iter_collect_enough [of "rlp_iter r" "length (rlp_bytes r) + 1"] assms
    length_rlp_items_le [of "rlp_bytes r"]
  by (simp add: rlp_iter_def)

lemma item_count_cached:
  assumes "cache_ok r" and "length (rlp_bytes r) < 2 ^ 64 - 1"
  shows "fst (item_count r) =
      (if is_list (rlp_bytes r) then Ok (length (rlp_items (rlp_bytes r))) else Err RlpExpectedToBeList)"
    and "cache_ok (snd (item_count r))" and "rlp_bytes (snd (item_count r)) = rlp_bytes r"
proof -
  obtain it where it: "iter_collect (length (rlp_bytes r) + 1) (rlp_iter r) =
      Some (map untrusted_new (rlp_items (rlp_bytes r)), it)"
    and keep: "cache_ok (iter_rlp it)" "rlp_bytes (iter_rlp it) = rlp_bytes r"
    using iter_collect_all [OF assms] by blast
  have upd: "cache_ok ((iter_rlp it)\<lparr>count_cache := Some (length (rlp_items (rlp_bytes r)))\<rparr>)"
    using keep by (simp add: cache_ok_def offset_ok_def)
  have c: "count_cache r = None \<or> count_cache r = Some (length (rlp_items (rlp_bytes r)))"
    using assms(1) by (simp add: cache_ok_def)
  show "fst (item_count r) =
      (if is_list (rlp_bytes r) then Ok (length (rlp_items (rlp_bytes r))) else Err RlpExpectedToBeList)"
    using c it by (auto simp only: item_count_def split: if_split) (simp_all add: it)
  show "cache_ok (snd (item_count r))"
    using c upd assms(1) by (auto simp only: item_count_def it split: if_split) simp_all
  show "rlp_bytes (snd (item_count r)) = rlp_bytes r"
    using c keep by (auto simp only: item_count_def it split: if_split) simp_all
qed

lemma as_list_items:
  assumes "cache_ok r" and "length (rlp_bytes r) < 2 ^ 64 - 1"
  shows "as_list decode r = collect_results (map (decode \<circ> untrusted_new) (rlp_items (rlp_bytes r)))"
  using iter_collect_all [OF assms] by (auto simp: as_list_def)

end
