(* ===== verification/Rlp_Roundtrip.thy ===== *)
theory Rlp_Roundtrip
  imports Rlp_Views
begin

text \<open>
  Decoding what the encoder wrote.  \<open>rlp_enc\<close> (the specification the stream meets, theory
  \<open>Rlp_Stream\<close>) is read back by the header parser, by the item walk and by \<open>decode_value\<close>.
  A whole tree is read back by the view's own operations: \<open>view_at\<close> follows a path of \<open>at\<close>
  calls, and \<open>shows_item\<close> says what \<open>data\<close>, \<open>decode_value\<close>, \<open>item_count\<close> and the iterator
  answer at the item it leads to.
\<close>

section \<open>Headers\<close>

lemma length_rlp_header: "length (rlp_header off n) = (if n \<le> 55 then 1 else 1 + byte_len n)"
  by (simp add: rlp_header_def)

lemma rlp_header_ne [simp]: "rlp_header off n \<noteq> []"
  by (simp add: rlp_header_def)

lemma byte_len_le_8: "n < 2 ^ 64 \<Longrightarrow> byte_len n \<le> 8"
  using byte_len_le_iff [of n 8] by simp

lemma decode_usize_be_bytes:
  assumes "0 < n" and "n < 2 ^ 64"
  shows "decode_usize (be_bytes (byte_len n) n) = Ok n"
proof -
  have "be_bytes (byte_len n) n \<noteq> []"
    using assms(1) by (metis byte_len_pos length_be_bytes length_greater_0_conv)
  then show ?thesis
    using assms byte_len_le_8 [OF assms(2)] hd_be_bytes_byte_len [OF assms(1)]
      less_256_power_byte_len [of n]
    by (simp add: decode_usize_eq be_nat_be_bytes)
qed

lemma unat_header_long:
  assumes "n < 2 ^ 64" and "off \<in> {0x80, 0xc0}"
  shows "unat (off + 55 + word_of_nat (byte_len n) :: byte) = unat off + 55 + byte_len n"
  using assms byte_len_le_8 [OF assms(1)] by (auto simp: unat_word_ariths)

lemma unat_header_short:
  assumes "n \<le> 55" and "off \<in> {0x80, 0xc0}"
  shows "unat (off + word_of_nat n :: byte) = unat off + n"
  using assms by (auto simp: unat_word_ariths)

lemma calculate_payload_info_long:
  assumes "55 < n" and "n < 2 ^ 64"
  shows "calculate_payload_info (b # be_bytes (byte_len n) n @ rest) (byte_len n) =
    Ok (new_payload_info (1 + byte_len n) n)"
proof -
  have ne: "be_bytes (byte_len n) n \<noteq> []"
    using assms(1) by (metis byte_len_pos length_be_bytes length_greater_0_conv not_less0 gr0I)
  then have "(be_bytes (byte_len n) n @ rest) ! 0 \<noteq> 0"
    using hd_be_bytes_byte_len [of n] assms(1) by (simp add: nth_append hd_conv_nth)
  then show ?thesis
    using assms ne decode_usize_be_bytes [of n]
    by (simp add: calculate_payload_info_def Let_def slice_def)
qed

lemma payload_info_from_header:
  assumes "n < 2 ^ 64" and "off \<in> {0x80, 0xc0}"
  shows "payload_info_from (rlp_header off n @ rest) =
    Ok (new_payload_info (length (rlp_header off n)) n)"
proof (cases "n \<le> 55")
  case True
  then show ?thesis
    using unat_header_short [OF True assms(2)] assms(2)
    by (auto simp: payload_info_from_def rlp_header_def Let_def)
next
  case False
  then have "0 < byte_len n" "byte_len n \<le> 8"
    using byte_len_le_8 [OF assms(1)] by auto
  then show ?thesis
    using False unat_header_long [OF assms] assms calculate_payload_info_long [of n]
    by (auto simp: payload_info_from_def rlp_header_def Let_def)
qed

section \<open>The first item of a byte string\<close>

lemma enc_data_cases:
  obtains (single) b where "bs = [b]" and "b < 0x80" and "rlp_enc (RData bs) = [b]"
  | (string) "rlp_enc (RData bs) = rlp_header 0x80 (length bs) @ bs"
      and "length bs = 1 \<longrightarrow> 0x80 \<le> hd bs"
proof (cases "length bs = 1 \<and> hd bs < 0x80")
  case True
  then obtain b where "bs = [b]" by (cases bs) auto
  with True single show ?thesis by simp
next
  case False
  then show ?thesis by (intro string) (auto simp: not_less)
qed

lemma rlp_enc_ne [simp]: "rlp_enc t \<noteq> []"
  by (cases t) (auto simp: Let_def)

lemma basic_payload_info_enc:
  assumes "length (rlp_enc t @ rest) < 2 ^ 64"
  shows "\<exists>i. basic_payload_info (rlp_enc t @ rest) = Ok i \<and>
    header_len i + value_len i = length (rlp_enc t)"
proof -
  have header: "\<exists>i. basic_payload_info (rlp_header off (length p) @ p @ rest) = Ok i \<and>
      header_len i + value_len i = length (rlp_header off (length p) @ p)"
    if "off \<in> {0x80, 0xc0}" "length (rlp_header off (length p) @ p @ rest) < 2 ^ 64" for off p
    using that payload_info_from_header [OF _ that(1), of "length p" "p @ rest"]
    by (simp add: basic_payload_info_def checked_add_def new_payload_info_def)
  show ?thesis
  proof (cases t)
    case (RData bs)
    show ?thesis
    proof (cases rule: enc_data_cases [of bs])
      case (single b)
      then have "unat b \<le> 0x7f" by (simp add: word_less_nat_alt)
      then show ?thesis
        using single assms RData
        by (simp add: basic_payload_info_def payload_info_from_def checked_add_def new_payload_info_def)
    next
      case string
      with header [of "0x80" bs] assms RData show ?thesis by (simp del: rlp_enc.simps)
    qed
  next
    case (RList ts)
    with header [of "0xc0" "concat (map rlp_enc ts)"] assms show ?thesis by (simp add: Let_def)
  qed
qed

lemma payload_items_enc:
  "length (concat (map rlp_enc ts)) < 2 ^ 64 \<Longrightarrow>
     payload_items (concat (map rlp_enc ts)) = map rlp_enc ts"
proof (induction ts)
  case Nil
  then show ?case
    by (simp add: payload_items_stop basic_payload_info_def payload_info_from_def result_ok_None_iff)
next
  case (Cons t ts)
  then obtain i where "basic_payload_info (rlp_enc t @ concat (map rlp_enc ts)) = Ok i"
    and "header_len i + value_len i = length (rlp_enc t)"
    using basic_payload_info_enc [of t "concat (map rlp_enc ts)"] by auto
  with Cons show ?case by (simp add: payload_items_Ok)
qed

lemma is_list_enc_RList: "length (rlp_enc (RList ts)) < 2 ^ 64 \<Longrightarrow> is_list (rlp_enc (RList ts))"
proof -
  let ?n = "length (concat (map rlp_enc ts))"
  assume "length (rlp_enc (RList ts)) < 2 ^ 64"
  then have n: "?n < 2 ^ 64" by (simp add: Let_def)
  have "0xc0 \<le> unat (hd (rlp_header 0xc0 ?n))"
    using unat_header_short [of ?n "0xc0"] unat_header_long [OF n, of "0xc0"]
    by (cases "?n \<le> 55") (auto simp: rlp_header_def)
  then show ?thesis
    by (simp add: is_list_def is_null_def Let_def word_le_nat_alt nth_append hd_conv_nth)
qed

lemma is_data_enc_RData: "length (rlp_enc (RData bs)) < 2 ^ 64 \<Longrightarrow> is_data (rlp_enc (RData bs))"
proof -
  assume small: "length (rlp_enc (RData bs)) < 2 ^ 64"
  show ?thesis
  proof (cases rule: enc_data_cases [of bs])
    case (single b)
    then show ?thesis by (simp add: is_data_def is_null_def word_less_nat_alt del: rlp_enc.simps)
  next
    case string
    then have n: "length bs < 2 ^ 64" using small by simp
    have "unat (hd (rlp_header 0x80 (length bs))) < 0xc0"
      using unat_header_short [of "length bs" "0x80"] unat_header_long [OF n, of "0x80"] byte_len_le_8 [OF n]
      by (cases "length bs \<le> 55") (auto simp: rlp_header_def)
    then show ?thesis
      using string
      by (simp add: is_data_def is_null_def word_less_nat_alt nth_append hd_conv_nth del: rlp_enc.simps)
  qed
qed

lemma rlp_data_enc:
  assumes "length (rlp_enc (RData bs)) < 2 ^ 64"
  shows "rlp_data (rlp_enc (RData bs)) = Ok bs"
proof (cases rule: enc_data_cases [of bs])
  case (single b)
  then have "unat b \<le> 0x7f" by (simp add: word_less_nat_alt)
  then show ?thesis
    using single by (simp add: rlp_data_def basic_payload_info_def payload_info_from_def checked_add_def
        new_payload_info_def slice_def del: rlp_enc.simps)
next
  case string
  then have n: "length bs < 2 ^ 64" "length (rlp_header 0x80 (length bs)) + length bs < 2 ^ 64"
    using assms by auto
  show ?thesis
    using payload_info_from_header [OF n(1), of "0x80" bs] n(2) string
    by (simp add: rlp_data_def basic_payload_info_def checked_add_def new_payload_info_def slice_def
        del: rlp_enc.simps)
qed

lemma is_empty_enc_RData:
  assumes "length (rlp_enc (RData bs)) < 2 ^ 64"
  shows "is_empty (rlp_enc (RData bs)) \<longleftrightarrow> bs = []"
proof (cases rule: enc_data_cases [of bs])
  case (single b)
  then show ?thesis by (auto simp: is_empty_def is_null_def simp del: rlp_enc.simps)
next
  case string
  then have n: "length bs < 2 ^ 64" using assms by auto
  have "unat (hd (rlp_header 0x80 (length bs))) = (if length bs \<le> 55 then 0x80 + length bs else 0xb7 + byte_len (length bs))"
    using unat_header_short [of "length bs" "0x80"] unat_header_long [OF n, of "0x80"]
    by (auto simp: rlp_header_def)
  moreover have "byte_len (length bs) \<le> 8" using n by (rule byte_len_le_8)
  ultimately show ?thesis
    using string
    by (auto simp: is_empty_def is_null_def byte_eq_iff nth_append hd_conv_nth simp del: rlp_enc.simps split: if_splits)
qed

lemma not_list_if_data: "is_data bs \<Longrightarrow> \<not> is_list bs"
  by (auto simp: is_data_def is_list_def)

lemma rlp_items_enc:
  assumes "length (rlp_enc (RList ts)) < 2 ^ 64"
  shows "rlp_items (rlp_enc (RList ts)) = map rlp_enc ts"
proof -
  let ?p = "concat (map rlp_enc ts)"
  have p: "length ?p < 2 ^ 64" using assms by (simp add: Let_def)
  have "payload_info_from (rlp_enc (RList ts)) =
      Ok (new_payload_info (length (rlp_header 0xc0 (length ?p))) (length ?p))"
    using payload_info_from_header [OF p, of "0xc0" ?p] by (simp add: Let_def)
  moreover have "length (rlp_header 0xc0 (length ?p)) + length ?p < 2 ^ 64"
    using assms by (simp add: Let_def)
  ultimately have "consume_list_payload (rlp_enc (RList ts)) = Ok ?p"
    by (simp add: consume_list_payload_def basic_payload_info_def checked_add_def
        new_payload_info_def consume_def Let_def)
  then show ?thesis
    using payload_items_enc [OF p] is_list_enc_RList [OF assms] by (simp add: rlp_items_def)
qed

section \<open>\<open>decode_value\<close> of an encoded string\<close>

lemma decode_value_enc:
  assumes "length (rlp_enc (RData bs)) < 2 ^ 64"
  shows "decode_value (rlp_enc (RData bs)) f = f bs"
proof (cases rule: enc_data_cases [of bs])
  case (single b)
  then have "unat b \<le> 0x7f" by (simp add: word_less_nat_alt)
  then show ?thesis using single by (simp add: decode_value_def del: rlp_enc.simps)
next
  case string
  then have n: "length bs < 2 ^ 64" using assms by simp
  show ?thesis
  proof (cases "length bs \<le> 55")
    case True
    have "\<not> (length bs = 1 \<and> bs ! 0 < 0x80)"
      using string(2) by (cases bs) (auto simp: not_less)
    then show ?thesis
      using string(1) True unat_header_short [OF True, of "0x80"]
      by (auto simp: decode_value_def rlp_header_def slice_def Let_def simp del: rlp_enc.simps)
  next
    case False
    let ?k = "byte_len (length bs)"
    have k: "0 < ?k" "?k \<le> 8" using False byte_len_le_8 [OF n] by auto
    have "length (rlp_enc (RData bs)) = 1 + ?k + length bs"
      using string(1) False by (simp add: rlp_header_def del: rlp_enc.simps)
    then have "1 + ?k + length bs < 2 ^ 64" using assms by simp
    moreover have "decode_usize (be_bytes ?k (length bs)) = Ok (length bs)"
      using False n by (intro decode_usize_be_bytes) auto
    ultimately show ?thesis
      using string(1) False k unat_header_long [OF n, of "0x80"]
      by (simp add: decode_value_def rlp_header_def slice_def Let_def checked_add_def
          del: rlp_enc.simps)
  qed
qed

section \<open>A whole tree\<close>

lemma collect_results_Ok: "collect_results (map Ok xs) = Ok xs"
  by (induction xs) auto

lemma map_injective_on:
  "map f xs = map f ys \<Longrightarrow> (\<And>x y. x \<in> set xs \<Longrightarrow> f x = f y \<Longrightarrow> x = y) \<Longrightarrow> xs = ys"
  by (induction xs arbitrary: ys) (auto simp: Cons_eq_map_conv map_eq_Cons_conv)

lemma rlp_enc_inject:
  "rlp_enc t = rlp_enc u \<Longrightarrow> length (rlp_enc t) < 2 ^ 64 \<Longrightarrow> t = u"
proof (induction t arbitrary: u)
  case (RData bs)
  then have "is_data (rlp_enc u)" using is_data_enc_RData [of bs] by simp
  moreover have len: "length (rlp_enc u) < 2 ^ 64" using RData by simp
  ultimately obtain cs where u: "u = RData cs"
    using is_list_enc_RList not_list_if_data by (cases u) blast+
  then show ?case
    using rlp_data_enc [OF RData.prems(2)] rlp_data_enc [of cs] len RData.prems(1) by simp
next
  case (RList ts)
  then have len: "length (rlp_enc u) < 2 ^ 64" by simp
  moreover have l: "is_list (rlp_enc u)" using RList.prems is_list_enc_RList [of ts] by simp
  ultimately obtain us where u: "u = RList us"
    using is_data_enc_RData not_list_if_data by (cases u) blast+
  have "rlp_items (rlp_enc (RList us)) = map rlp_enc us" using len u by (intro rlp_items_enc) simp
  then have "map rlp_enc ts = map rlp_enc us"
    using rlp_items_enc [OF RList.prems(2)] RList.prems(1) u by metis
  moreover have "length (rlp_enc t) < 2 ^ 64" if "t \<in> set ts" for t
    using RList.prems(2) length_concat_le [OF that, of rlp_enc] by (simp add: Let_def)
  ultimately have "ts = us"
    using RList.IH by (intro map_injective_on [of rlp_enc]) blast+
  then show ?case using u by simp
qed

text \<open>The item of a tree at a path of indices, and the view that the same path of \<open>at\<close> calls
  leads to.\<close>

fun sub_item :: "rlp_item \<Rightarrow> nat list \<Rightarrow> rlp_item option" where
  "sub_item t [] = Some t"
| "sub_item (RData b) (i # path) = None"
| "sub_item (RList ts) (i # path) = (if i < length ts then sub_item (ts ! i) path else None)"

fun view_at :: "untrusted_rlp \<Rightarrow> nat list \<Rightarrow> untrusted_rlp decoded" where
  "view_at r [] = Ok r"
| "view_at r (i # path) = obind (fst (rlp_at r i)) (\<lambda>v. view_at v path)"

text \<open>What the operations of a view answer when it shows an item.\<close>

fun shows_item :: "untrusted_rlp \<Rightarrow> rlp_item \<Rightarrow> bool" where
  "shows_item r (RData b) \<longleftrightarrow>
     is_data (rlp_bytes r) \<and> \<not> is_list (rlp_bytes r) \<and> (is_empty (rlp_bytes r) \<longleftrightarrow> b = []) \<and>
     rlp_data (rlp_bytes r) = Ok b \<and> decode_value (rlp_bytes r) Ok = Ok b \<and>
     (\<forall>i. fst (rlp_at r i) = Err RlpExpectedToBeList)"
| "shows_item r (RList ts) \<longleftrightarrow>
     is_list (rlp_bytes r) \<and> \<not> is_data (rlp_bytes r) \<and>
     fst (item_count r) = Ok (length ts) \<and>
     map_option fst (iter_collect (length (rlp_bytes r) + 1) (rlp_iter r)) =
       Some (map (\<lambda>t. untrusted_new (rlp_enc t)) ts) \<and>
     (\<forall>i < 2 ^ 64 - 1. result_ok (fst (rlp_at r i)) =
       (if i < length ts then Some (untrusted_new (rlp_enc (ts ! i))) else None))"

lemma shows_item_enc:
  assumes "cache_ok r" and "rlp_bytes r = rlp_enc t" and "length (rlp_enc t) < 2 ^ 64 - 1"
  shows "shows_item r t"
proof (cases t)
  case (RData b)
  then have d: "length (rlp_enc (RData b)) < 2 ^ 64" using assms(3) by simp
  show ?thesis
    using assms(2) RData is_data_enc_RData [OF d] is_empty_enc_RData [OF d] rlp_data_enc [OF d]
      decode_value_enc [OF d, of Ok]
    by (simp add: not_list_if_data rlp_at_def del: rlp_enc.simps)
next
  case (RList ts)
  then have d: "length (rlp_enc (RList ts)) < 2 ^ 64" and bytes: "rlp_bytes r = rlp_enc (RList ts)"
    using assms by simp_all
  have small: "length (rlp_bytes r) < 2 ^ 64 - 1" using assms by simp
  have items: "rlp_items (rlp_bytes r) = map rlp_enc ts" using rlp_items_enc [OF d] bytes by simp
  have l: "is_list (rlp_bytes r)" using is_list_enc_RList [OF d] bytes by simp
  have "result_ok (fst (rlp_at r i)) =
      (if i < length ts then Some (untrusted_new (rlp_enc (ts ! i))) else None)" if "i < 2 ^ 64 - 1" for i
    using rlp_at_cached(1) [OF assms(1) that] at_pure_items [of "rlp_bytes r" i] items
    by (cases "at_pure (rlp_bytes r) i") (auto split: if_splits)
  moreover have "map_option fst (iter_collect (length (rlp_bytes r) + 1) (rlp_iter r)) =
      Some (map (\<lambda>t. untrusted_new (rlp_enc t)) ts)"
    using iter_collect_all [OF assms(1) small] items by (auto simp: comp_def)
  ultimately show ?thesis
    using RList l not_list_if_data [of "rlp_bytes r"] item_count_cached(1) [OF assms(1) small] items
    by auto
qed

lemma view_at_enc:
  assumes "cache_ok r" and "rlp_bytes r = rlp_enc t" and "length (rlp_enc t) < 2 ^ 64 - 1"
    and "\<forall>i\<in>set path. i < 2 ^ 64 - 1"
  shows "case sub_item t path of
      None \<Rightarrow> result_ok (view_at r path) = None
    | Some u \<Rightarrow> (\<exists>v. view_at r path = Ok v \<and> shows_item v u)"
  using assms
proof (induction t path arbitrary: r rule: sub_item.induct)
  case (1 t)
  then show ?case using shows_item_enc by simp
next
  case (2 b i path)
  then have "shows_item r (RData b)" by (intro shows_item_enc) auto
  then show ?case by simp
next
  case (3 ts i path)
  have l: "shows_item r (RList ts)" by (rule shows_item_enc [OF "3.prems"(1,2,3)])
  have i: "i < 2 ^ 64 - 1" using "3.prems"(4) by simp
  show ?case
  proof (cases "i < length ts")
    case True
    then have "ts ! i \<in> set ts" by simp
    then have "length (rlp_enc (ts ! i)) < 2 ^ 64 - 1"
      using "3.prems"(3) length_concat_le [of "ts ! i" ts rlp_enc] by (simp add: Let_def)
    moreover have "result_ok (fst (rlp_at r i)) = Some (untrusted_new (rlp_enc (ts ! i)))"
      using l i True unfolding shows_item.simps by metis
    then have "fst (rlp_at r i) = Ok (untrusted_new (rlp_enc (ts ! i)))" by (cases "fst (rlp_at r i)") auto
    ultimately show ?thesis
      using "3.IH" [OF True, of "untrusted_new (rlp_enc (ts ! i))"] "3.prems"(4) True
      by (auto simp del: shows_item.simps split: option.splits)
  next
    case False
    then have "result_ok (fst (rlp_at r i)) = None" using l i unfolding shows_item.simps by metis
    then show ?thesis using False by (cases "fst (rlp_at r i)") auto
  qed
qed

section \<open>Properties\<close>

text \<open>C8. Round trip through the whole codec: what the stream writes for a tree is read back by
  the operations of a view as the same tree.  From any view of the written bytes with consistent
  caches (a fresh one, or one that was read before), a path of \<open>at\<close> calls with indices below
  \<open>usize::MAX\<close> succeeds exactly when the tree has an item at that path, and leads to a view of
  that item: of a string, \<open>is_data\<close>, \<open>is_empty\<close>, \<open>data\<close> and \<open>decode_value\<close> give its bytes back;
  of a list, \<open>is_list\<close> holds, \<open>item_count\<close> is its length, and the iterator and \<open>at\<close> yield the
  encodings of its items, in order, and nothing else.\<close>

theorem codec_roundtrip:
  "length (rlp_enc t) < 2 ^ 32 \<Longrightarrow>
     \<exists>bs. encode_with (rlp_append_item t) = Some bs \<and>
       (\<forall>r path. cache_ok r \<and> rlp_bytes r = bs \<and> (\<forall>i\<in>set path. i < 2 ^ 64 - 1) \<longrightarrow>
          (case sub_item t path of
             None \<Rightarrow> result_ok (view_at r path) = None
           | Some u \<Rightarrow> (\<exists>v. view_at r path = Ok v \<and> shows_item v u)))"
  using encode_with_item [OF appends_item_tree, of t] code_enc_eq [of t] view_at_enc [of _ t] by simp

theorem codec_roundtrip_witness:
  "\<exists>bs v. encode_with (rlp_append_item (RList [RData [7], RList [RData [1, 2], RData []]])) = Some bs \<and>
     view_at (untrusted_new bs) [1, 0] = Ok v \<and> rlp_data (rlp_bytes v) = Ok [1, 2] \<and>
     (\<exists>w. view_at (untrusted_new bs) [1] = Ok w \<and> fst (item_count w) = Ok 2) \<and>
     result_ok (view_at (untrusted_new bs) [1, 2]) = None"
proof -
  let ?t = "RList [RData [7], RList [RData [1, 2], RData []]]"
  have "length (rlp_enc ?t) < 2 ^ 32" by (simp add: rlp_header_def)
  from codec_roundtrip [OF this] obtain bs where bs: "encode_with (rlp_append_item ?t) = Some bs"
    and views: "\<forall>r path. cache_ok r \<and> rlp_bytes r = bs \<and> (\<forall>i\<in>set path. i < 2 ^ 64 - 1) \<longrightarrow>
          (case sub_item ?t path of
             None \<Rightarrow> result_ok (view_at r path) = None
           | Some u \<Rightarrow> (\<exists>v. view_at r path = Ok v \<and> shows_item v u))"
    by blast
  have view: "case sub_item ?t path of
             None \<Rightarrow> result_ok (view_at (untrusted_new bs) path) = None
           | Some u \<Rightarrow> (\<exists>v. view_at (untrusted_new bs) path = Ok v \<and> shows_item v u)"
    if "\<forall>i\<in>set path. i < 2 ^ 64 - 1" for path
    by (rule views [rule_format]) (use that in simp)
  obtain v where "view_at (untrusted_new bs) [1, 0] = Ok v" "shows_item v (RData [1, 2])"
    using view [of "[1, 0]"] by (auto simp del: view_at.simps shows_item.simps)
  moreover obtain w where "view_at (untrusted_new bs) [1] = Ok w" "shows_item w (RList [RData [1, 2], RData []])"
    using view [of "[1]"] by (auto simp del: view_at.simps shows_item.simps)
  moreover have "result_ok (view_at (untrusted_new bs) [1, 2]) = None"
    using view [of "[1, 2]"] by (simp del: view_at.simps)
  ultimately show ?thesis
    using bs unfolding shows_item.simps by (simp del: view_at.simps)
qed

text \<open>C9. The interior caches of a view are transparent for every index below \<open>usize::MAX\<close>: from
  any view whose caches are consistent, \<open>at\<close> returns (errors included) what a search from the
  start of the list returns, whatever items were visited before, and leaves consistent caches on
  the same bytes.  The bound is needed: \<open>usize::MAX\<close> is the sentinel index of an empty offset
  cache, and \<open>at_usize_max\<close> below shows that \<open>at(usize::MAX)\<close> of a fresh view takes the cached
  branch and returns the list itself.\<close>

theorem at_cache_transparent:
  "cache_ok r \<Longrightarrow> index < 2 ^ 64 - 1 \<Longrightarrow>
     fst (rlp_at r index) = omap untrusted_new (at_pure (rlp_bytes r) index) \<and>
     cache_ok (snd (rlp_at r index)) \<and> rlp_bytes (snd (rlp_at r index)) = rlp_bytes r"
  by (simp add: rlp_at_cached)

theorem at_cache_transparent_witness:
  "fst (rlp_at (snd (rlp_at (untrusted_new [0xc2, 5, 6]) 0)) 1) = Ok (untrusted_new [6])"
proof -
  let ?r = "untrusted_new [0xc2, 5, 6]"
  have "cache_ok (snd (rlp_at ?r 0)) \<and> rlp_bytes (snd (rlp_at ?r 0)) = [0xc2, 5, 6]"
    using at_cache_transparent [of ?r 0] by simp
  then have "fst (rlp_at (snd (rlp_at ?r 0)) 1) = omap untrusted_new (at_pure [0xc2, 5, 6] 1)"
    using at_cache_transparent [of "snd (rlp_at ?r 0)" 1] by simp
  also have "at_pure [0xc2, 5, 6] 1 = Ok [6]"
    by (simp add: at_pure_def is_list_def is_null_def consume_list_payload_def basic_payload_info_def
        payload_info_from_def new_payload_info_def checked_add_def consume_def item_at_head_def)
  finally show ?thesis by simp
qed

text \<open>C36. Iterating a view terminates on every input and counts its items: with as many
  steps as the view has bytes, plus one, the iterator is exhausted, and \<open>item_count\<close> (which
  runs it and caches the number) returns the number of items of a list of any bytes, well
  formed or not, and \<open>RlpExpectedToBeList\<close> otherwise.\<close>

theorem iteration_terminates_and_counts:
  "cache_ok r \<Longrightarrow> length (rlp_bytes r) < 2 ^ 64 - 1 \<Longrightarrow>
     (\<exists>it. iter_collect (length (rlp_bytes r) + 1) (rlp_iter r) =
        Some (map untrusted_new (rlp_items (rlp_bytes r)), it)) \<and>
     fst (item_count r) =
       (if is_list (rlp_bytes r) then Ok (length (rlp_items (rlp_bytes r))) else Err RlpExpectedToBeList)"
  using iter_collect_all [of r] item_count_cached(1) [of r] by blast

theorem iteration_terminates_and_counts_witness:
  "fst (item_count (untrusted_new [0xc3, 5, 0x81, 0x90])) = Ok 2"
proof -
  have "rlp_items [0xc3, 5, 0x81, 0x90] = [[5], [0x81, 0x90]]"
    using rlp_items_enc [of "[RData [5], RData [0x90]]"] by (simp add: rlp_header_def)
  then show ?thesis
    using iteration_terminates_and_counts [of "untrusted_new [0xc3, 5, 0x81, 0x90]"]
    by (simp add: is_list_def is_null_def)
qed

text \<open>C35. Header parsing is total and stays in bounds: on every byte string it returns a
  header or an error, never a panic, and a header it returns describes a non-empty item that
  lies inside the bytes, so the slices taken with it are in range.\<close>

theorem header_parse_safe:
  "basic_payload_info bs \<noteq> Panic \<and>
   (case basic_payload_info bs of
      Ok i \<Rightarrow> 0 < header_len i + value_len i \<and> header_len i + value_len i \<le> length bs
    | _ \<Rightarrow> True)"
  using basic_payload_info_OkD [of bs] by (auto split: outcome.split)

text \<open>The sentinel of an empty offset cache is the index \<open>usize::MAX\<close> itself: asking a fresh
  view for the item at that index takes the cached branch and returns the list itself as its
  own element.\<close>

theorem at_usize_max: "fst (rlp_at (untrusted_new [0xc0]) (2 ^ 64 - 1)) = Ok (untrusted_new [0xc0])"
  by (simp add: rlp_at_def untrusted_new_def is_list_def is_null_def consume_def Let_def
      basic_payload_info_def payload_info_from_def new_payload_info_def checked_add_def slice_def)

text \<open>The item walk runs to the end of the view's bytes, not to the end of the list's payload:
  an empty list followed by a stray byte has one item.\<close>

theorem item_count_trailing: "fst (item_count (untrusted_new [0xc0, 5])) = Ok 1"
proof -
  have "rlp_items [0xc0, 5] = [[5]]"
    by (simp add: rlp_items_def is_list_def is_null_def consume_list_payload_def consume_def
        basic_payload_info_def payload_info_from_def new_payload_info_def checked_add_def
        payload_items_Ok payload_items_stop)
  then show ?thesis
    using item_count_cached(1) [of "untrusted_new [0xc0, 5]"] by (simp add: is_list_def is_null_def)
qed

end
