(* ===== verification/Rlp_Impls.thy ===== *)
theory Rlp_Impls
  imports Rlp_Roundtrip
begin

text \<open>
  The \<open>Encodable\<close> and \<open>Decodable\<close> instances: \<open>rlp/src/impls.rs\<close>, and the entry points
  \<open>encode\<close>, \<open>decode\<close>, \<open>encode_list\<close>, \<open>decode_list\<close> of \<open>rlp/src/lib.rs\<close> with the trusted view
  \<open>Rlp\<close> of \<open>rlp/src/rlpin.rs\<close> (an \<open>UntrustedRlp\<close> whose errors panic).

  The contract of a pair of instances is the locale \<open>rlp_codec\<close>: what \<open>rlp_append\<close> appends is
  the encoding of an item, and \<open>decode\<close> reads the value back.  Round trips of options and
  lists are proved once inside it; the instances interpret it.

  Unsigned integers are numbers below \<open>256 ^ k\<close> for a \<open>k\<close>-byte type.  A \<open>String\<close> is its UTF-8
  bytes.  \<open>U256\<close> and \<open>U128\<close> come from a macro of another crate: their \<open>bits\<close>,
  \<open>to_big_endian\<close> and \<open>from\<close> are parameters.
\<close>

section \<open>The instances\<close>

definition rlp_append_bool :: "bool \<Rightarrow> rlp_stream \<Rightarrow> rlp_stream option" where
  "rlp_append_bool b = (if b then rlp_append_bytes [1] else rlp_append_bytes [0])"

definition decode_bool :: "untrusted_rlp \<Rightarrow> bool decoded" where
  "decode_bool rlp = decode_value (rlp_bytes rlp)
     (\<lambda>bytes. if length bytes = 0 then Ok False
              else if length bytes = 1 then Ok (bytes ! 0 \<noteq> 0)
              else Err RlpIsTooBig)"

definition decode_bytes :: "untrusted_rlp \<Rightarrow> bytes decoded" where
  "decode_bytes rlp = decode_value (rlp_bytes rlp) (\<lambda>bytes. Ok bytes)"

definition rlp_append_option ::
  "('a \<Rightarrow> rlp_stream \<Rightarrow> rlp_stream option) \<Rightarrow> 'a option \<Rightarrow> rlp_stream \<Rightarrow> rlp_stream option" where
  "rlp_append_option rlp_append v s =
     (case v of
        None \<Rightarrow> begin_list s 0
      | Some value \<Rightarrow> do { s \<leftarrow> begin_list s 1; append_with (rlp_append value) s })"

definition decode_option ::
  "(untrusted_rlp \<Rightarrow> 'a decoded) \<Rightarrow> untrusted_rlp \<Rightarrow> 'a option decoded" where
  "decode_option decode rlp =
     (case item_count rlp of
        (items, rlp) \<Rightarrow>
          obind items (\<lambda>items.
            if items = 1 then omap Some (fst (val_at decode rlp 0))
            else if items = 0 then Ok None
            else Err RlpIncorrectListLen))"

definition rlp_append_u8 :: "byte \<Rightarrow> rlp_stream \<Rightarrow> rlp_stream option" where
  "rlp_append_u8 n = (if n \<noteq> 0 then rlp_append_bytes [n] else rlp_append_bytes [])"

definition decode_u8 :: "untrusted_rlp \<Rightarrow> byte decoded" where
  "decode_u8 rlp = decode_value (rlp_bytes rlp)
     (\<lambda>bytes. if length bytes = 1 \<and> bytes ! 0 \<noteq> 0 then Ok (bytes ! 0)
              else if length bytes = 0 then Ok 0
              else if length bytes = 1 then Err RlpInvalidIndirection
              else Err RlpIsTooBig)"

text \<open>The macros \<open>impl_encodable_for_u\<close> and \<open>impl_decodable_for_u\<close>, for a type of \<open>k\<close> bytes.\<close>

definition rlp_append_uint :: "nat \<Rightarrow> nat \<Rightarrow> rlp_stream \<Rightarrow> rlp_stream option" where
  "rlp_append_uint k n =
     (let leading_empty_bytes = leading_zeros (8 * k) n div 8
      in rlp_append_bytes (drop leading_empty_bytes (be_bytes k n)))"

definition decode_uint :: "nat \<Rightarrow> untrusted_rlp \<Rightarrow> nat decoded" where
  "decode_uint k rlp = decode_value (rlp_bytes rlp)
     (\<lambda>bytes. let l = length bytes in
        if l \<le> 1 then omap unat (decode_u8 rlp)
        else if l \<le> k then
          (if bytes ! 0 = 0 then Err RlpInvalidIndirection
           else Ok (foldl (\<lambda>res i. res + unat (bytes ! i) * 2 ^ ((l - 1 - i) * 8)) 0 [0..<l]))
        else Err RlpIsTooBig)"

abbreviation rlp_append_u16 :: "nat \<Rightarrow> rlp_stream \<Rightarrow> rlp_stream option" where
  "rlp_append_u16 \<equiv> rlp_append_uint 2"
abbreviation rlp_append_u32 :: "nat \<Rightarrow> rlp_stream \<Rightarrow> rlp_stream option" where
  "rlp_append_u32 \<equiv> rlp_append_uint 4"
abbreviation rlp_append_u64 :: "nat \<Rightarrow> rlp_stream \<Rightarrow> rlp_stream option" where
  "rlp_append_u64 \<equiv> rlp_append_uint 8"

definition rlp_append_usize :: "nat \<Rightarrow> rlp_stream \<Rightarrow> rlp_stream option" where
  "rlp_append_usize n = rlp_append_u64 n"

definition decode_usize_val :: "untrusted_rlp \<Rightarrow> nat decoded" where
  "decode_usize_val rlp = decode_uint 8 rlp"

text \<open>Fixed hashes (\<open>H64\<close> to \<open>H768\<close>, \<open>Bloom\<close>): byte strings of the type's size.\<close>

definition rlp_append_hash :: "bytes \<Rightarrow> rlp_stream \<Rightarrow> rlp_stream option" where
  "rlp_append_hash h = rlp_append_bytes h"

definition decode_hash :: "nat \<Rightarrow> untrusted_rlp \<Rightarrow> bytes decoded" where
  "decode_hash sz rlp = decode_value (rlp_bytes rlp)
     (\<lambda>bytes. if length bytes < sz then Err RlpIsTooShort
              else if sz < length bytes then Err RlpIsTooBig
              else Ok bytes)"

definition rlp_append_big ::
  "nat \<Rightarrow> ('u \<Rightarrow> nat) \<Rightarrow> ('u \<Rightarrow> bytes) \<Rightarrow> 'u \<Rightarrow> rlp_stream \<Rightarrow> rlp_stream option" where
  "rlp_append_big sz bits to_big_endian x =
     (let leading_empty_bytes = sz - (bits x + 7) div 8
      in rlp_append_bytes (drop leading_empty_bytes (to_big_endian x)))"

definition decode_big :: "nat \<Rightarrow> (bytes \<Rightarrow> 'u) \<Rightarrow> untrusted_rlp \<Rightarrow> 'u decoded" where
  "decode_big sz from_bytes rlp = decode_value (rlp_bytes rlp)
     (\<lambda>bytes. if length bytes \<noteq> 0 \<and> bytes ! 0 = 0 then Err RlpInvalidIndirection
              else if length bytes \<le> sz then Ok (from_bytes bytes)
              else Err RlpIsTooBig)"

text \<open>\<open>str::from_utf8\<close>: well-formed UTF-8, without surrogates and overlong forms.\<close>

definition utf8_cont :: "byte \<Rightarrow> bool" where
  "utf8_cont b \<longleftrightarrow> 0x80 \<le> b \<and> b \<le> 0xbf"

fun utf8_valid :: "bytes \<Rightarrow> bool" where
  "utf8_valid [] = True"
| "utf8_valid (b # bs) =
     (if b < 0x80 then utf8_valid bs
      else if 0xc2 \<le> b \<and> b \<le> 0xdf then
        (case bs of c1 # bs \<Rightarrow> utf8_cont c1 \<and> utf8_valid bs | _ \<Rightarrow> False)
      else if 0xe0 \<le> b \<and> b \<le> 0xef then
        (case bs of
           c1 # c2 # bs \<Rightarrow>
             utf8_cont c1 \<and> (b = 0xe0 \<longrightarrow> 0xa0 \<le> c1) \<and> (b = 0xed \<longrightarrow> c1 \<le> 0x9f) \<and>
             utf8_cont c2 \<and> utf8_valid bs
         | _ \<Rightarrow> False)
      else if 0xf0 \<le> b \<and> b \<le> 0xf4 then
        (case bs of
           c1 # c2 # c3 # bs \<Rightarrow>
             utf8_cont c1 \<and> (b = 0xf0 \<longrightarrow> 0x90 \<le> c1) \<and> (b = 0xf4 \<longrightarrow> c1 \<le> 0x8f) \<and>
             utf8_cont c2 \<and> utf8_cont c3 \<and> utf8_valid bs
         | _ \<Rightarrow> False)
      else False)"

definition rlp_append_string :: "bytes \<Rightarrow> rlp_stream \<Rightarrow> rlp_stream option" where
  "rlp_append_string s = rlp_append_bytes s"

definition decode_string :: "untrusted_rlp \<Rightarrow> bytes decoded" where
  "decode_string rlp = decode_value (rlp_bytes rlp)
     (\<lambda>bytes. if utf8_valid bytes then Ok bytes else Err RlpExpectedToBeData)"

section \<open>The trusted view and the entry points\<close>

text \<open>\<open>Rlp\<close> unwraps the results of its \<open>UntrustedRlp\<close>; \<open>None\<close> is the panic.\<close>

definition trusted_prototype :: "untrusted_rlp \<Rightarrow> prototype option \<times> untrusted_rlp" where
  "trusted_prototype r = (case rlp_prototype r of (p, r) \<Rightarrow> (result_ok p, r))"

definition trusted_data :: "untrusted_rlp \<Rightarrow> bytes option" where
  "trusted_data r = result_ok (rlp_data (rlp_bytes r))"

definition trusted_item_count :: "untrusted_rlp \<Rightarrow> nat \<times> untrusted_rlp" where
  "trusted_item_count r =
     (case item_count r of (c, r) \<Rightarrow> ((case c of Ok c \<Rightarrow> c | _ \<Rightarrow> 0), r))"

definition trusted_at :: "untrusted_rlp \<Rightarrow> nat \<Rightarrow> untrusted_rlp option \<times> untrusted_rlp" where
  "trusted_at r index = (case rlp_at r index of (x, r) \<Rightarrow> (result_ok x, r))"

definition trusted_as_val :: "(untrusted_rlp \<Rightarrow> 'a decoded) \<Rightarrow> untrusted_rlp \<Rightarrow> 'a option" where
  "trusted_as_val decode r = result_ok (decode r)"

definition trusted_as_list :: "(untrusted_rlp \<Rightarrow> 'a decoded) \<Rightarrow> untrusted_rlp \<Rightarrow> 'a list option" where
  "trusted_as_list decode r =
     (case iter_collect (length (rlp_bytes r) + 1) (rlp_iter r) of
        Some (items, _) \<Rightarrow> result_ok (collect_results (map decode items))
      | None \<Rightarrow> None)"

definition trusted_val_at :: "(untrusted_rlp \<Rightarrow> 'a decoded) \<Rightarrow> untrusted_rlp \<Rightarrow> nat \<Rightarrow> 'a option \<times> untrusted_rlp" where
  "trusted_val_at decode r index =
     (case trusted_at r index of (x, r) \<Rightarrow> (Option.bind x (trusted_as_val decode), r))"

definition trusted_list_at ::
  "(untrusted_rlp \<Rightarrow> 'a decoded) \<Rightarrow> untrusted_rlp \<Rightarrow> nat \<Rightarrow> 'a list option \<times> untrusted_rlp" where
  "trusted_list_at decode r index =
     (case trusted_at r index of (x, r) \<Rightarrow> (Option.bind x (trusted_as_list decode), r))"

definition rlp_decode :: "(untrusted_rlp \<Rightarrow> 'a decoded) \<Rightarrow> bytes \<Rightarrow> 'a option" where
  "rlp_decode decode bytes = trusted_as_val decode (untrusted_new bytes)"

definition rlp_decode_list :: "(untrusted_rlp \<Rightarrow> 'a decoded) \<Rightarrow> bytes \<Rightarrow> 'a list option" where
  "rlp_decode_list decode bytes = trusted_as_list decode (untrusted_new bytes)"

section \<open>Reading a list item\<close>

lemma trusted_at_cached:
  assumes "cache_ok r" and "length (rlp_bytes r) < 2 ^ 64 - 1" and "is_list (rlp_bytes r)"
    and "index < length (rlp_items (rlp_bytes r))"
  shows "\<exists>r'. trusted_at r index = (Some (untrusted_new (rlp_items (rlp_bytes r) ! index)), r') \<and>
     cache_ok r' \<and> rlp_bytes r' = rlp_bytes r"
proof -
  have i: "index < 2 ^ 64 - 1" using assms(2,4) length_rlp_items_le [of "rlp_bytes r"] by linarith
  have "result_ok (at_pure (rlp_bytes r) index) = Some (rlp_items (rlp_bytes r) ! index)"
    using assms(4) unfolding at_pure_items by simp
  then show ?thesis
    using rlp_at_cached [OF assms(1) i] assms(3)
    by (cases "rlp_at r index") (auto simp: trusted_at_def)
qed

lemma trusted_at_enc:
  assumes "cache_ok r" and "rlp_bytes r = rlp_enc (RList ts)" and "length (rlp_enc (RList ts)) < 2 ^ 64 - 1"
    and "index < length ts"
  shows "\<exists>r'. trusted_at r index = (Some (untrusted_new (rlp_enc (ts ! index))), r') \<and>
     cache_ok r' \<and> rlp_bytes r' = rlp_enc (RList ts)"
proof -
  have l: "length (rlp_enc (RList ts)) < 2 ^ 64" using assms(3) by linarith
  have "is_list (rlp_bytes r)" unfolding assms(2) by (rule is_list_enc_RList [OF l])
  moreover have "rlp_items (rlp_bytes r) = map rlp_enc ts" unfolding assms(2) by (rule rlp_items_enc [OF l])
  ultimately show ?thesis
    using trusted_at_cached [OF assms(1), of index] assms(2,3,4) by (simp del: rlp_enc.simps)
qed

lemma length_item_le: "t \<in> set ts \<Longrightarrow> length (rlp_enc t) < length (rlp_enc (RList ts))"
proof -
  assume "t \<in> set ts"
  then have "length (rlp_enc t) \<le> length (concat (map rlp_enc ts))" by (rule length_concat_le)
  moreover have "length (rlp_enc (RList ts)) =
      length (rlp_header 0xc0 (length (concat (map rlp_enc ts)))) + length (concat (map rlp_enc ts))"
    by (simp add: Let_def)
  ultimately show ?thesis by (simp add: length_rlp_header del: rlp_enc.simps split: if_splits)
qed

section \<open>The contract of a codec\<close>

lemma rlp_decode_list_eq: "rlp_decode_list decode bs = result_ok (as_list decode (untrusted_new bs))"
  by (auto simp: rlp_decode_list_def trusted_as_list_def as_list_def split: option.split)

locale rlp_codec =
  fixes rlp_append :: "'a \<Rightarrow> rlp_stream \<Rightarrow> rlp_stream option"
    and decode :: "untrusted_rlp \<Rightarrow> 'a decoded"
    and item :: "'a \<Rightarrow> rlp_item"
    and valid :: "'a \<Rightarrow> bool"
  assumes appends: "valid x \<Longrightarrow> appends_item (rlp_append x) (item x)"
    and decodes: "valid x \<Longrightarrow> length (rlp_enc (item x)) < 2 ^ 64 - 1 \<Longrightarrow>
      decode (untrusted_new (rlp_enc (item x))) = Ok x"
begin

lemma encode_value_of:
  "valid x \<Longrightarrow> length (rlp_enc (item x)) < 2 ^ 32 \<Longrightarrow>
     encode_with (rlp_append x) = Some (rlp_enc (item x))"
  using encode_with_item [OF appends] code_enc_eq by simp

lemma roundtrip:
  "valid x \<Longrightarrow> length (rlp_enc (item x)) < 2 ^ 32 \<Longrightarrow>
     Option.bind (encode_with (rlp_append x)) (rlp_decode decode) = Some x"
  by (simp add: encode_value_of rlp_decode_def trusted_as_val_def decodes)

lemma decodes_list:
  assumes "list_all valid xs" and "length (rlp_enc (RList (map item xs))) < 2 ^ 64 - 1"
  shows "as_list decode (untrusted_new (rlp_enc (RList (map item xs)))) = Ok xs"
proof -
  have "decode (untrusted_new (rlp_enc (item x))) = Ok x" if "x \<in> set xs" for x
  proof (rule decodes)
    show "valid x" using assms(1) that by (simp add: list_all_iff)
    have "length (rlp_enc (item x)) \<le> length (concat (map rlp_enc (map item xs)))"
      using length_concat_le [of "item x" "map item xs" rlp_enc] that by simp
    then show "length (rlp_enc (item x)) < 2 ^ 64 - 1" using assms(2) by (simp add: Let_def)
  qed
  then have "map (decode \<circ> untrusted_new) (map rlp_enc (map item xs)) = map Ok xs" by simp
  then show ?thesis
    using assms(2) rlp_items_enc [of "map item xs"]
    by (simp add: as_list_items collect_results_Ok del: rlp_enc.simps map_map)
qed

lemma encodes_list:
  "list_all valid xs \<Longrightarrow> list_all2 appends_item (map rlp_append xs) (map item xs)"
  by (auto simp: list_all2_conv_all_nth list_all_length intro: appends)

lemma list_roundtrip:
  assumes "list_all valid xs" and "length (rlp_enc (RList (map item xs))) < 2 ^ 32"
  shows "Option.bind (encode_list_with (map rlp_append xs)) (rlp_decode_list decode) = Some xs"
  using encode_list_with_items [OF encodes_list [OF assms(1)]] code_enc_eq [OF assms(2)]
    decodes_list [OF assms(1)] assms(2)
  by (simp add: rlp_decode_list_eq del: rlp_enc.simps)

lemma option_codec:
  "rlp_codec (rlp_append_option rlp_append) (decode_option decode)
     (\<lambda>v. RList (case v of None \<Rightarrow> [] | Some x \<Rightarrow> [item x]))
     (\<lambda>v. case v of None \<Rightarrow> True | Some x \<Rightarrow> valid x)"
proof
  fix v :: "'a option"
  assume v: "case v of None \<Rightarrow> True | Some x \<Rightarrow> valid x"
  have "rlp_append_option rlp_append v =
      append_list (case v of None \<Rightarrow> [] | Some x \<Rightarrow> [rlp_append x])"
    by (rule ext) (simp add: rlp_append_option_def append_list_def append_each_Nil Option.bind_runit
      split: option.split)
  with v show "appends_item (rlp_append_option rlp_append v) (RList (case v of None \<Rightarrow> [] | Some x \<Rightarrow> [item x]))"
    by (auto split: option.splits intro!: appends_item_list appends)
next
  fix v :: "'a option"
  let ?ts = "case v of None \<Rightarrow> [] | Some x \<Rightarrow> [item x]"
  let ?r = "untrusted_new (rlp_enc (RList ?ts))"
  assume v: "case v of None \<Rightarrow> True | Some x \<Rightarrow> valid x"
    and len: "length (rlp_enc (RList ?ts)) < 2 ^ 64 - 1"
  have items: "rlp_items (rlp_enc (RList ?ts)) = map rlp_enc ?ts"
    using len by (intro rlp_items_enc) simp
  have lst: "is_list (rlp_enc (RList ?ts))"
    using len by (intro is_list_enc_RList) simp
  obtain r' where r': "item_count ?r = (Ok (length ?ts), r')" "cache_ok r'"
    "rlp_bytes r' = rlp_enc (RList ?ts)"
    using item_count_cached [of ?r] len items lst
    by (cases "item_count ?r") (simp del: rlp_enc.simps)
  show "decode_option decode ?r = Ok v"
  proof (cases v)
    case None
    then show ?thesis using r' by (simp add: decode_option_def)
  next
    case (Some x)
    have "result_ok (at_pure (rlp_enc (RList ?ts)) 0) = Some (rlp_enc (item x))"
      unfolding at_pure_items items using Some by simp
    then have "at_pure (rlp_enc (RList ?ts)) 0 = Ok (rlp_enc (item x))" by simp
    then have "fst (rlp_at r' 0) = Ok (untrusted_new (rlp_enc (item x)))"
      using rlp_at_cached(1) [OF r'(2), of 0] r'(3) by (simp del: rlp_enc.simps)
    moreover have "length (rlp_enc (item x)) < 2 ^ 64 - 1"
      using len Some by (simp add: Let_def)
    ultimately show ?thesis
      using r'(1) v Some decodes [of x]
      by (simp add: decode_option_def val_at_def split_def del: rlp_enc.simps)
  qed
qed

end

section \<open>Every instance is a codec\<close>

lemma data_codec:
  assumes "\<And>x. valid x \<Longrightarrow> rlp_append x = rlp_append_bytes (payload x)"
    and "\<And>x. valid x \<Longrightarrow> decode (untrusted_new (rlp_enc (RData (payload x)))) =
      decode_value (rlp_enc (RData (payload x))) (f (payload x))"
    and "\<And>x. valid x \<Longrightarrow> f (payload x) (payload x) = Ok x"
  shows "rlp_codec rlp_append decode (\<lambda>x. RData (payload x)) valid"
  using assms appends_item_bytes by unfold_locales (simp_all add: decode_value_enc del: rlp_enc.simps)

interpretation bool_codec: rlp_codec rlp_append_bool decode_bool
  "\<lambda>b. RData (if b then [1] else [0])" "\<lambda>_. True"
  by (rule data_codec [where f = "\<lambda>_ bytes. if length bytes = 0 then Ok False
        else if length bytes = 1 then Ok (bytes ! 0 \<noteq> 0) else Err RlpIsTooBig"])
    (auto simp: rlp_append_bool_def decode_bool_def simp del: rlp_enc.simps)

interpretation bytes_codec: rlp_codec rlp_append_bytes decode_bytes RData "\<lambda>_. True"
  by (rule data_codec [where payload = "\<lambda>b. b" and f = "\<lambda>_. Ok"])
    (auto simp: decode_bytes_def simp del: rlp_enc.simps)

interpretation string_codec: rlp_codec rlp_append_string decode_string RData utf8_valid
  by (rule data_codec [where payload = "\<lambda>b. b" and
        f = "\<lambda>_ bytes. if utf8_valid bytes then Ok bytes else Err RlpExpectedToBeData"])
    (auto simp: rlp_append_string_def decode_string_def simp del: rlp_enc.simps)

lemma appends_item_hash [simp]: "appends_item (rlp_append_hash h) (RData h)"
  unfolding rlp_append_hash_def by (rule appends_item_bytes)

lemma hash_codec: "rlp_codec rlp_append_hash (decode_hash sz) RData (\<lambda>h. length h = sz)"
  by (rule data_codec [where payload = "\<lambda>b. b" and
        f = "\<lambda>_ bytes. if length bytes < sz then Err RlpIsTooShort
              else if sz < length bytes then Err RlpIsTooBig else Ok bytes"])
    (auto simp: rlp_append_hash_def decode_hash_def simp del: rlp_enc.simps)

interpretation h256_codec: rlp_codec rlp_append_hash "decode_hash 32" RData "\<lambda>h. length h = 32"
  by (rule hash_codec)

interpretation bloom_codec: rlp_codec rlp_append_hash "decode_hash 256" RData "\<lambda>h. length h = 256"
  by (rule hash_codec)

interpretation u8_codec: rlp_codec rlp_append_u8 decode_u8
  "\<lambda>n. RData (if n \<noteq> 0 then [n] else [])" "\<lambda>_. True"
  by (rule data_codec [where f = "\<lambda>_ bytes. if length bytes = 1 \<and> bytes ! 0 \<noteq> 0 then Ok (bytes ! 0)
        else if length bytes = 0 then Ok 0
        else if length bytes = 1 then Err RlpInvalidIndirection else Err RlpIsTooBig"])
    (auto simp: rlp_append_u8_def decode_u8_def simp del: rlp_enc.simps)

text \<open>The minimal big-endian bytes of a number, and how \<open>decode_uint\<close> reads them.\<close>

definition min_be :: "nat \<Rightarrow> bytes" where
  "min_be n = be_bytes (byte_len n) n"

lemma be_nat_min_be [simp]: "be_nat (min_be n) = n"
  using less_256_power_byte_len [of n] by (simp add: min_be_def be_nat_be_bytes)

lemma length_min_be [simp]: "length (min_be n) = byte_len n"
  by (simp add: min_be_def)

lemma min_be_first: "0 < n \<Longrightarrow> min_be n ! 0 \<noteq> 0"
  using hd_be_bytes_byte_len [of n]
  by (metis byte_len_pos hd_conv_nth length_greater_0_conv length_min_be min_be_def)

lemma min_be_0 [simp]: "min_be 0 = []"
  by (simp add: min_be_def)

lemma min_be_Nil_iff [simp]: "min_be n = [] \<longleftrightarrow> n = 0"
  by (metis byte_len_eq_0_iff length_0_conv length_min_be)

lemma byte_len_be_nat:
  assumes "bs \<noteq> []" and "bs ! 0 \<noteq> 0"
  shows "byte_len (be_nat bs) = length bs"
proof -
  obtain b cs where bs: "bs = b # cs" using assms(1) by (cases bs) auto
  then have "0 < unat b" using assms(2) by (simp add: unat_gt_0)
  then have "256 ^ length cs \<le> be_nat bs" by (simp add: bs be_nat_Cons trans_le_add1)
  then have "\<not> byte_len (be_nat bs) \<le> length cs" by (simp add: byte_len_le_iff not_less)
  moreover have "byte_len (be_nat bs) \<le> length bs" by (simp add: byte_len_le_iff)
  ultimately show ?thesis by (simp add: bs)
qed

lemma min_be_be_nat:
  assumes "bs = [] \<or> bs ! 0 \<noteq> 0"
  shows "min_be (be_nat bs) = bs"
  using assms byte_len_be_nat [of bs] be_bytes_be_nat [of bs] by (cases "bs = []") (auto simp: min_be_def)

lemma min_be_small:
  assumes "byte_len n \<le> 1" and "0 < n"
  obtains b where "min_be n = [b]" and "unat b = n"
proof -
  have "length (min_be n) = 1" using assms byte_len_pos [of n] by (auto simp: le_Suc_eq)
  then obtain b where b: "min_be n = [b]" by (cases "min_be n") auto
  moreover have "unat b = n" using be_nat_min_be [of n] b by simp
  ultimately show ?thesis using that by blast
qed

lemma uint_codec:
  "rlp_codec (rlp_append_uint k) (decode_uint k) (\<lambda>n. RData (min_be n)) (\<lambda>n. n < 256 ^ k)"
proof
  fix n :: nat assume "n < 256 ^ k"
  then have "rlp_append_uint k n = rlp_append_bytes (min_be n)"
    by (simp add: rlp_append_uint_def min_be_def drop_leading_be_bytes)
  then show "appends_item (rlp_append_uint k n) (RData (min_be n))"
    by (simp add: appends_item_bytes)
next
  fix n :: nat assume n: "n < 256 ^ k" and len: "length (rlp_enc (RData (min_be n))) < 2 ^ 64 - 1"
  have "length (rlp_enc (RData (min_be n))) < 2 ^ 64" using len by simp
  note dec = decode_value_enc [OF this]
  have k: "byte_len n \<le> k" using n by (simp add: byte_len_le_iff)
  have sum: "foldl (\<lambda>res i. res + unat (min_be n ! i) * 2 ^ ((byte_len n - 1 - i) * 8)) 0 [0..<byte_len n] = n"
    using foldl_shift_sum [of "min_be n"] by simp
  show "decode_uint k (untrusted_new (rlp_enc (RData (min_be n)))) = Ok n"
  proof (cases "byte_len n \<le> 1")
    case True
    show ?thesis
    proof (cases "n = 0")
      case True
      with len show ?thesis
        by (simp add: decode_uint_def decode_u8_def decode_value_enc del: rlp_enc.simps)
    next
      case False
      then obtain b where b: "min_be n = [b]" "unat b = n"
        using min_be_small [OF True] by blast
      then have "b \<noteq> 0" using False by auto
      with b True len show ?thesis
        by (simp add: decode_uint_def decode_u8_def decode_value_enc del: rlp_enc.simps)
    qed
  next
    case False
    then have "min_be n ! 0 \<noteq> 0" by (intro min_be_first) (cases n; simp)
    with False k sum show ?thesis by (simp add: decode_uint_def dec Let_def del: rlp_enc.simps)
  qed
qed

interpretation u16_codec: rlp_codec "rlp_append_uint 2" "decode_uint 2" "\<lambda>n. RData (min_be n)" "\<lambda>n. n < 256 ^ 2"
  by (rule uint_codec)

interpretation u32_codec: rlp_codec "rlp_append_uint 4" "decode_uint 4" "\<lambda>n. RData (min_be n)" "\<lambda>n. n < 256 ^ 4"
  by (rule uint_codec)

interpretation u64_codec: rlp_codec "rlp_append_uint 8" "decode_uint 8" "\<lambda>n. RData (min_be n)" "\<lambda>n. n < 256 ^ 8"
  by (rule uint_codec)

interpretation option_u64_codec: rlp_codec "rlp_append_option (rlp_append_uint 8)" "decode_option (decode_uint 8)"
  "\<lambda>v. RList (case v of None \<Rightarrow> [] | Some n \<Rightarrow> [RData (min_be n)])"
  "\<lambda>v. case v of None \<Rightarrow> True | Some n \<Rightarrow> n < 256 ^ 8"
  by (rule u64_codec.option_codec)


section \<open>Properties\<close>

lemma result_ok_uint: "n < 256 ^ k \<Longrightarrow> length (rlp_enc (RData (min_be n))) < 2 ^ 32 \<Longrightarrow>
    Option.bind (encode_with (rlp_append_uint k n)) (rlp_decode (decode_uint k)) = Some n"
  by (rule rlp_codec.roundtrip [OF uint_codec])

lemma length_rlp_enc_min_be: "byte_len n \<le> 55 \<Longrightarrow> length (rlp_enc (RData (min_be n))) \<le> 56"
  by (auto simp: length_rlp_header split: if_splits)

lemma u64_encoded:
  assumes "n < 2 ^ 64"
  shows "\<exists>bs. encode_with (rlp_append_u64 n) = Some bs \<and> rlp_decode (decode_uint 8) bs = Some n"
proof -
  have "byte_len n \<le> 8" using assms by (simp add: byte_len_le_iff)
  then have "Option.bind (encode_with (rlp_append_u64 n)) (rlp_decode (decode_uint 8)) = Some n"
    using length_rlp_enc_min_be [of n] assms by (intro result_ok_uint) (simp_all del: rlp_enc.simps)
  then show ?thesis by (simp add: bind_eq_Some_conv)
qed

text \<open>Every \<open>u64\<close> survives its RLP round trip: what \<open>encode\<close> writes, \<open>decode\<close> reads back
  without panicking, whatever the number of its significant bytes.\<close>

theorem u64_roundtrip:
  assumes "n < 2 ^ 64"
  shows "Option.bind (encode_with (rlp_append_u64 n)) (rlp_decode (decode_uint 8)) = Some n"
  using u64_encoded [OF assms] by auto

theorem u64_roundtrip_witness:
  "Option.bind (encode_with (rlp_append_u64 1024)) (rlp_decode (decode_uint 8)) = Some 1024"
  by (rule u64_roundtrip) simp

text \<open>C39. Integer decoding is canonical: a data item decodes to \<open>n\<close> as a \<open>k\<close>-byte integer
  exactly when its payload is the shortest big-endian form of \<open>n\<close> and \<open>n\<close> fits in \<open>k\<close> bytes;
  leading zero bytes, the byte 0 for zero and longer payloads are errors.\<close>

theorem uint_decoding_canonical:
  assumes "0 < k" and "length (rlp_enc (RData bs)) < 2 ^ 64"
  shows "decode_uint k (untrusted_new (rlp_enc (RData bs))) = Ok n \<longleftrightarrow> bs = min_be n \<and> n < 256 ^ k"
proof -
  have dec: "decode_uint k (untrusted_new (rlp_enc (RData bs))) =
      (if length bs \<le> 1 then omap unat (decode_u8 (untrusted_new (rlp_enc (RData bs))))
       else if length bs \<le> k then
         (if bs ! 0 = 0 then Err RlpInvalidIndirection else Ok (be_nat bs))
       else Err RlpIsTooBig)"
    using foldl_shift_sum [of bs]
    by (simp add: decode_uint_def Let_def decode_value_enc [OF assms(2)] del: rlp_enc.simps)
  have u8: "decode_u8 (untrusted_new (rlp_enc (RData bs))) =
      (if length bs = 1 \<and> bs ! 0 \<noteq> 0 then Ok (bs ! 0)
       else if length bs = 0 then Ok 0
       else if length bs = 1 then Err RlpInvalidIndirection else Err RlpIsTooBig)"
    by (simp add: decode_u8_def decode_value_enc [OF assms(2)] del: rlp_enc.simps)
  have minimal: "min_be (be_nat bs) = bs" if "bs = [] \<or> bs ! 0 \<noteq> 0"
    using that by (rule min_be_be_nat)
  have reads: "decode_uint k (untrusted_new (rlp_enc (RData bs))) =
      (if bs = [] then Ok 0
       else if bs ! 0 = 0 then Err (if length bs \<le> max k 1 then RlpInvalidIndirection else RlpIsTooBig)
       else if length bs \<le> max k 1 then Ok (be_nat bs) else Err RlpIsTooBig)"
    unfolding dec u8 by (cases bs; cases "tl bs") auto
  have fits: "n < 256 ^ k \<longleftrightarrow> length (min_be n) \<le> k" by (simp add: byte_len_le_iff)
  have "bs = min_be n \<longleftrightarrow> be_nat bs = n \<and> (bs = [] \<or> bs ! 0 \<noteq> 0)"
    using minimal min_be_first [of n] min_be_Nil_iff [of n] by (metis be_nat_min_be gr0I)
  then show ?thesis
    unfolding reads fits using assms(1) by auto
qed

theorem uint_decoding_canonical_witness:
  "decode_uint 2 (untrusted_new (rlp_enc (RData [4, 0]))) = Ok 1024 \<longleftrightarrow> [4, 0] = min_be 1024 \<and> (1024 :: nat) < 256 ^ 2"
  by (rule uint_decoding_canonical) (simp_all add: rlp_header_def)

text \<open>A vector of \<open>u64\<close> survives \<open>encode_list\<close> followed by \<open>decode_list\<close>: the same
  integers, in the same order.\<close>

theorem u64_list_roundtrip:
  assumes "\<forall>n \<in> set ns. n < 2 ^ 64" and "length ns < 2 ^ 26"
  shows "Option.bind (encode_list_with (map rlp_append_u64 ns)) (rlp_decode_list (decode_uint 8)) = Some ns"
proof -
  let ?ts = "map (\<lambda>n. RData (min_be n)) ns"
  have "length (concat (map rlp_enc ?ts)) \<le> length ns * 56"
    using assms(1)
  proof (induction ns)
    case (Cons n ns)
    then have "byte_len n \<le> 8" by (simp add: byte_len_le_iff)
    with Cons length_rlp_enc_min_be [of n] show ?case by (simp del: rlp_enc.simps)
  qed simp
  moreover have "length (rlp_enc (RList ?ts)) \<le> 9 + length (concat (map rlp_enc ?ts))" if "length (concat (map rlp_enc ?ts)) < 2 ^ 64"
    using byte_len_le_8 [OF that] by (simp add: length_rlp_header Let_def)
  ultimately have "length (rlp_enc (RList ?ts)) < 2 ^ 32" using assms(2) by simp
  moreover have "list_all (\<lambda>n. n < 256 ^ 8) ns" using assms(1) by (simp add: list_all_iff)
  ultimately show ?thesis
    by (intro u64_codec.list_roundtrip) (simp_all add: o_def)
qed

theorem u64_list_roundtrip_witness:
  "Option.bind (encode_list_with (map rlp_append_u64 [15, 0, 65536])) (rlp_decode_list (decode_uint 8)) = Some [15, 0, 65536]"
  by (rule u64_list_roundtrip) simp_all

text \<open>C40. Every \<open>U256\<close> survives its RLP round trip, given that the \<open>bits\<close>, \<open>to_big_endian\<close> and
  \<open>from\<close> of its crate compute the bit length, the 32 big-endian bytes and the number of at
  most 32 big-endian bytes: the bytes stripped by \<open>encode\<close> are exactly the leading zeros.\<close>

theorem u256_roundtrip:
  assumes bits: "\<And>u. bits u = bit_len (val u)"
    and to_big_endian: "\<And>u. to_big_endian u = be_bytes 32 (val u)"
    and from_bytes: "\<And>bs u. length bs \<le> 32 \<Longrightarrow> be_nat bs = val u \<Longrightarrow> from_bytes bs = u"
    and range: "val x < 2 ^ 256"
  shows "Option.bind (encode_with (rlp_append_big 32 bits to_big_endian x)) (rlp_decode (decode_big 32 from_bytes)) = Some x"
proof -
  have len: "byte_len (val x) \<le> 32" using range by (simp add: byte_len_le_iff)
  have "drop (32 - (bits x + 7) div 8) (to_big_endian x) = min_be (val x)"
    using drop_be_bytes [of "32 - byte_len (val x)" "byte_len (val x)" "val x"] len
    by (simp add: bits to_big_endian min_be_def byte_len_def)
  then have append: "rlp_append_big 32 bits to_big_endian x = rlp_append_bytes (min_be (val x))"
    by (simp add: rlp_append_big_def)
  have short: "length (rlp_enc (RData (min_be (val x)))) \<le> 56"
    using len by (intro length_rlp_enc_min_be) simp
  then have enc: "encode_with (rlp_append_big 32 bits to_big_endian x) = Some (rlp_enc (RData (min_be (val x))))"
    unfolding append by (intro bytes_codec.encode_value_of) (simp_all del: rlp_enc.simps)
  have "from_bytes (min_be (val x)) = x" using len by (intro from_bytes) simp_all
  then have "decode_big 32 from_bytes (untrusted_new (rlp_enc (RData (min_be (val x))))) = Ok x"
    using short len min_be_first [of "val x"]
    by (auto simp: decode_big_def decode_value_enc simp del: rlp_enc.simps)
  then show ?thesis
    by (simp add: enc rlp_decode_def trusted_as_val_def del: rlp_enc.simps)
qed

theorem u256_roundtrip_witness:
  "Option.bind (encode_with (rlp_append_big 32 (\<lambda>u :: nat. bit_len u) (\<lambda>u. be_bytes 32 u) 70000))
     (rlp_decode (decode_big 32 be_nat)) = Some 70000"
  by (rule u256_roundtrip [where val = "\<lambda>u. u"]) simp_all

end
