(* ===== verification/Nibbles.thy ===== *)
theory Nibbles
  imports Prelude "HOL-Library.Monad_Syntax"
begin

text \<open>
  Nibble views of byte strings: \<open>patricia_trie/src/nibbleslice.rs\<close> and
  \<open>patricia_trie/src/nibblevec.rs\<close>.

  A \<open>nibble_slice\<close> is the code's four fields.  An index or a subtraction that panics is
  \<open>None\<close>; \<open>ns_ok\<close> (both offsets inside their data) is the condition under which nothing
  panics, and then every operation is a function of the list \<open>ns_nibs\<close> of the nibbles seen
  through the view: \<open>common_prefix\<close> is the length of the longest common prefix, \<open>encoded\<close> is
  the hex-prefix encoding \<open>hex_prefix\<close>, \<open>from_encoded\<close> inverts it, the comparison is the
  lexicographic one.  A \<open>nibble_vec\<close> is a stack of nibbles (locale \<open>nibble_stack\<close>).
\<close>

unbundle bit_operations_syntax

section \<open>Nibbles of bytes\<close>

fun nibbles :: "bytes \<Rightarrow> byte list" where
  "nibbles [] = []"
| "nibbles (b # bs) = drop_bit 4 b # (b AND 15) # nibbles bs"

fun pack :: "byte list \<Rightarrow> bytes" where
  "pack (x # y # r) = (x * 16 + y) # pack r"
| "pack _ = []"

definition hex_prefix :: "byte list \<Rightarrow> bool \<Rightarrow> bytes" where
  "hex_prefix ns is_leaf =
     (let flag = (if is_leaf then 0x20 else 0) in
      if odd (length ns) then (0x10 + hd ns + flag) # pack (tl ns) else flag # pack ns)"

fun lcp :: "'a list \<Rightarrow> 'a list \<Rightarrow> nat" where
  "lcp (x # xs) (y # ys) = (if x = y then Suc (lcp xs ys) else 0)"
| "lcp _ _ = 0"

datatype ordering = Less | Equal | Greater

fun list_compare :: "('a :: linorder) list \<Rightarrow> 'a list \<Rightarrow> ordering" where
  "list_compare [] [] = Equal"
| "list_compare [] (y # ys) = Less"
| "list_compare (x # xs) [] = Greater"
| "list_compare (x # xs) (y # ys) =
     (if x < y then Less else if y < x then Greater else list_compare xs ys)"

section \<open>\<open>NibbleSlice\<close>\<close>

record nibble_slice =
  ns_data :: bytes
  ns_offset :: nat
  ns_suffix :: bytes
  ns_suffix_offset :: nat

definition ns_new_offset :: "bytes \<Rightarrow> nat \<Rightarrow> nibble_slice" where
  "ns_new_offset data offset =
     \<lparr>ns_data = data, ns_offset = offset, ns_suffix = [], ns_suffix_offset = 0\<rparr>"

definition ns_new :: "bytes \<Rightarrow> nibble_slice" where
  "ns_new data = ns_new_offset data 0"

definition ns_new_composed :: "nibble_slice \<Rightarrow> nibble_slice \<Rightarrow> nibble_slice" where
  "ns_new_composed a b =
     \<lparr>ns_data = ns_data a, ns_offset = ns_offset a, ns_suffix = ns_data b,
      ns_suffix_offset = ns_offset b\<rparr>"

definition ns_from_encoded :: "bytes \<Rightarrow> (nibble_slice \<times> bool) option" where
  "ns_from_encoded data =
     do { d \<leftarrow> nth_checked data 0;
          Some (ns_new_offset data (if d AND 16 = 16 then 1 else 2), d AND 32 = 32) }"

definition ns_len :: "nibble_slice \<Rightarrow> nat option" where
  "ns_len s =
     do { l \<leftarrow> checked_sub ((length (ns_data s) + length (ns_suffix s)) * 2) (ns_offset s);
          checked_sub l (ns_suffix_offset s) }"

definition ns_is_empty :: "nibble_slice \<Rightarrow> bool option" where
  "ns_is_empty s = do { l \<leftarrow> ns_len s; Some (l = 0) }"

definition ns_at :: "nibble_slice \<Rightarrow> nat \<Rightarrow> byte option" where
  "ns_at s i =
     do { l \<leftarrow> checked_sub (length (ns_data s) * 2) (ns_offset s);
          if i < l then
            do { b \<leftarrow> nth_checked (ns_data s) ((ns_offset s + i) div 2);
                 Some (if odd (ns_offset s + i) then b AND 15 else drop_bit 4 b) }
          else let i = i - l in
            do { b \<leftarrow> nth_checked (ns_suffix s) ((ns_suffix_offset s + i) div 2);
                 Some (if odd (ns_suffix_offset s + i) then b AND 15 else drop_bit 4 b) } }"

text \<open>The iterator: its state is the index of the next nibble.\<close>

definition ns_iter_next :: "nibble_slice \<Rightarrow> nat \<Rightarrow> (byte option \<times> nat) option" where
  "ns_iter_next p i =
     do { l \<leftarrow> ns_len p;
          if i + 1 \<le> l then do { x \<leftarrow> ns_at p i; Some (Some x, i + 1) } else Some (None, i + 1) }"

definition ns_mid :: "nibble_slice \<Rightarrow> nat \<Rightarrow> nibble_slice" where
  "ns_mid s i =
     \<lparr>ns_data = ns_data s, ns_offset = ns_offset s + i, ns_suffix = [], ns_suffix_offset = 0\<rparr>"

fun common_from :: "nibble_slice \<Rightarrow> nibble_slice \<Rightarrow> nat \<Rightarrow> nat \<Rightarrow> nat option" where
  "common_from a b 0 i = Some i"
| "common_from a b (Suc k) i =
     do { x \<leftarrow> ns_at a i; y \<leftarrow> ns_at b i;
          if x \<noteq> y then Some i else common_from a b k (i + 1) }"

definition ns_common_prefix :: "nibble_slice \<Rightarrow> nibble_slice \<Rightarrow> nat option" where
  "ns_common_prefix a b =
     do { la \<leftarrow> ns_len a; lb \<leftarrow> ns_len b; common_from a b (min la lb) 0 }"

definition ns_starts_with :: "nibble_slice \<Rightarrow> nibble_slice \<Rightarrow> bool option" where
  "ns_starts_with a b =
     do { p \<leftarrow> ns_common_prefix a b; l \<leftarrow> ns_len b; Some (p = l) }"

function push_pairs :: "nibble_slice \<Rightarrow> nat \<Rightarrow> nat \<Rightarrow> bytes \<Rightarrow> bytes option" where
  "push_pairs s l i r =
     (if i < l then
        do { x \<leftarrow> ns_at s i; y \<leftarrow> ns_at s (i + 1);
             push_pairs s l (i + 2) (r @ [x * 16 + y]) }
      else Some r)"
  by auto
termination by (relation "measure (\<lambda>(s, l, i, r). l - i)") auto

declare push_pairs.simps [simp del]

definition encode_nibbles :: "nibble_slice \<Rightarrow> nat \<Rightarrow> bool \<Rightarrow> bytes option" where
  "encode_nibbles s l is_leaf =
     (let i = l mod 2 in
      do { first \<leftarrow> (if i = 1 then map_option (\<lambda>x. 0x10 + x) (ns_at s 0) else Some 0);
           push_pairs s l i [first + (if is_leaf then 0x20 else 0)] })"

definition ns_encoded :: "nibble_slice \<Rightarrow> bool \<Rightarrow> bytes option" where
  "ns_encoded s is_leaf = do { l \<leftarrow> ns_len s; encode_nibbles s l is_leaf }"

definition ns_encoded_leftmost :: "nibble_slice \<Rightarrow> nat \<Rightarrow> bool \<Rightarrow> bytes option" where
  "ns_encoded_leftmost s n is_leaf =
     do { l \<leftarrow> ns_len s; encode_nibbles s (min l n) is_leaf }"

definition ns_eq :: "nibble_slice \<Rightarrow> nibble_slice \<Rightarrow> bool option" where
  "ns_eq a b =
     do { la \<leftarrow> ns_len a; lb \<leftarrow> ns_len b; if la = lb then ns_starts_with a b else Some False }"

fun cmp_from :: "nibble_slice \<Rightarrow> nibble_slice \<Rightarrow> nat \<Rightarrow> nat \<Rightarrow> ordering option" where
  "cmp_from a b 0 i =
     do { la \<leftarrow> ns_len a; lb \<leftarrow> ns_len b;
          Some (if la < lb then Less else if lb < la then Greater else Equal) }"
| "cmp_from a b (Suc k) i =
     do { x \<leftarrow> ns_at a i; y \<leftarrow> ns_at b i;
          if x < y then Some Less else if y < x then Some Greater else cmp_from a b k (i + 1) }"

definition ns_partial_cmp :: "nibble_slice \<Rightarrow> nibble_slice \<Rightarrow> ordering option" where
  "ns_partial_cmp a b =
     do { la \<leftarrow> ns_len a; lb \<leftarrow> ns_len b; cmp_from a b (min la lb) 0 }"

text \<open>\<open>derive(Ord)\<close>: the fields in declaration order.\<close>

fun ordering_then :: "ordering \<Rightarrow> ordering \<Rightarrow> ordering" where
  "ordering_then Equal c = c"
| "ordering_then Less c = Less"
| "ordering_then Greater c = Greater"

definition ns_derived_cmp :: "nibble_slice \<Rightarrow> nibble_slice \<Rightarrow> ordering" where
  "ns_derived_cmp a b =
     ordering_then (list_compare (ns_data a) (ns_data b))
       (ordering_then (list_compare [ns_offset a] [ns_offset b])
         (ordering_then (list_compare (ns_suffix a) (ns_suffix b))
           (list_compare [ns_suffix_offset a] [ns_suffix_offset b])))"

section \<open>\<open>NibbleVec\<close>\<close>

record nibble_vec =
  nv_inner :: bytes
  nv_len :: nat

definition nv_new :: nibble_vec where
  "nv_new = \<lparr>nv_inner = [], nv_len = 0\<rparr>"

definition nv_is_empty :: "nibble_vec \<Rightarrow> bool" where
  "nv_is_empty v \<longleftrightarrow> nv_len v = 0"

definition nv_at :: "nibble_vec \<Rightarrow> nat \<Rightarrow> byte option" where
  "nv_at v idx =
     map_option (\<lambda>b. if idx mod 2 = 0 then drop_bit 4 b else b AND 0x0F)
       (nth_checked (nv_inner v) (idx div 2))"

definition nv_push :: "nibble_vec \<Rightarrow> byte \<Rightarrow> nibble_vec option" where
  "nv_push v nibble =
     (let nibble = nibble AND 0x0F in
      if nv_len v mod 2 = 0 then
        Some (v\<lparr>nv_inner := nv_inner v @ [push_bit 4 nibble], nv_len := nv_len v + 1\<rparr>)
      else if nv_inner v = [] then None
      else Some (v\<lparr>nv_inner := butlast (nv_inner v) @ [last (nv_inner v) OR nibble],
                   nv_len := nv_len v + 1\<rparr>))"

definition nv_pop :: "nibble_vec \<Rightarrow> (byte option \<times> nibble_vec) option" where
  "nv_pop v =
     (if nv_is_empty v then Some (None, v)
      else if nv_inner v = [] then None
      else let byte = last (nv_inner v); inner = butlast (nv_inner v) in
        if nv_len v mod 2 = 0 then
          Some (Some (byte AND 0x0F), v\<lparr>nv_inner := inner @ [byte AND 0xF0], nv_len := nv_len v - 1\<rparr>)
        else Some (Some (drop_bit 4 byte), v\<lparr>nv_inner := inner, nv_len := nv_len v - 1\<rparr>))"

definition nv_as_nibbleslice :: "nibble_vec \<Rightarrow> nibble_slice option" where
  "nv_as_nibbleslice v = (if nv_len v mod 2 = 0 then Some (ns_new (nv_inner v)) else None)"

fun nv_push_range :: "nibble_slice \<Rightarrow> nat \<Rightarrow> nat \<Rightarrow> nibble_vec \<Rightarrow> nibble_vec option" where
  "nv_push_range s 0 i v = Some v"
| "nv_push_range s (Suc k) i v =
     do { x \<leftarrow> ns_at s i; v \<leftarrow> nv_push v x; nv_push_range s k (i + 1) v }"

definition nv_from :: "nibble_slice \<Rightarrow> nibble_vec option" where
  "nv_from s = do { l \<leftarrow> ns_len s; nv_push_range s l 0 nv_new }"

section \<open>The nibbles of a view\<close>

definition ns_ok :: "nibble_slice \<Rightarrow> bool" where
  "ns_ok s \<longleftrightarrow>
     ns_offset s \<le> 2 * length (ns_data s) \<and> ns_suffix_offset s \<le> 2 * length (ns_suffix s)"

definition ns_nibs :: "nibble_slice \<Rightarrow> byte list" where
  "ns_nibs s =
     drop (ns_offset s) (nibbles (ns_data s)) @ drop (ns_suffix_offset s) (nibbles (ns_suffix s))"

lemma length_nibbles [simp]: "length (nibbles bs) = 2 * length bs"
  by (induction bs) auto

lemma nibbles_Nil_iff [simp]: "nibbles bs = [] \<longleftrightarrow> bs = []"
  by (cases bs) auto

lemma nibbles_append [simp]: "nibbles (xs @ ys) = nibbles xs @ nibbles ys"
  by (induction xs) auto

lemma nth_nibbles:
  "i < 2 * length bs \<Longrightarrow> nibbles bs ! i = (if odd i then bs ! (i div 2) AND 15 else drop_bit 4 (bs ! (i div 2)))"
proof (induction bs arbitrary: i)
  case Nil
  then show ?case by simp
next
  case (Cons b bs)
  consider "i = 0" | "i = 1" | j where "i = Suc (Suc j)"
    by (metis One_nat_def not0_implies_Suc)
  then show ?case using Cons by cases auto
qed

lemma unat_and_15: "unat ((b :: byte) AND 15) = unat b mod 16"
proof -
  have "b AND 15 = take_bit 4 b" by (simp add: take_bit_eq_mask mask_eq_exp_minus_1)
  then show ?thesis by (simp only: unsigned_take_bit_eq) (simp add: take_bit_eq_mod)
qed

lemma unat_drop_bit_4: "unat (drop_bit 4 (b :: byte)) = unat b div 16"
  by (simp only: unat_drop_bit_eq) (simp add: drop_bit_eq_div)

lemma nibbles_less: "x \<in> set (nibbles bs) \<Longrightarrow> unat x < 16"
proof (induction bs)
  case (Cons b bs)
  have "unat b div 16 < 16" using unat_byte_less [of b] by linarith
  with Cons show ?case by (auto simp: unat_and_15 unat_drop_bit_4)
qed simp

lemma ns_nibs_less: "x \<in> set (ns_nibs s) \<Longrightarrow> unat x < 16"
  by (auto simp: ns_nibs_def dest!: in_set_dropD nibbles_less)

lemma ns_nibs_nth_less: "i < length (ns_nibs s) \<Longrightarrow> unat (ns_nibs s ! i) < 16"
  by (rule ns_nibs_less [of _ s]) simp

lemma length_ns_nibs: "ns_ok s \<Longrightarrow> ns_len s = Some (length (ns_nibs s))"
  unfolding ns_ok_def ns_len_def ns_nibs_def checked_sub_def by simp arith

lemma nth_nibbles_checked:
  assumes "i < 2 * length bs"
  shows "do { b \<leftarrow> nth_checked bs (i div 2); Some (if odd i then b AND 15 else drop_bit 4 b) } =
    Some (nibbles bs ! i)"
  using assms by (simp add: nth_nibbles)

lemma ns_at_nibs:
  assumes ok: "ns_ok s" and i: "i < length (ns_nibs s)"
  shows "ns_at s i = Some (ns_nibs s ! i)"
proof -
  define l where "l = 2 * length (ns_data s) - ns_offset s"
  have l: "checked_sub (length (ns_data s) * 2) (ns_offset s) = Some l"
    using ok by (simp add: ns_ok_def l_def mult.commute)
  have nth: "ns_nibs s ! i = (if i < l then nibbles (ns_data s) ! (ns_offset s + i)
      else nibbles (ns_suffix s) ! (ns_suffix_offset s + (i - l)))"
    using ok by (auto simp: ns_nibs_def nth_append l_def ns_ok_def)
  show ?thesis
  proof (cases "i < l")
    case True
    then have "ns_offset s + i < 2 * length (ns_data s)" by (simp add: l_def)
    from nth_nibbles_checked [OF this] True show ?thesis
      unfolding ns_at_def l nth Option.bind.simps by (simp only: if_True)
  next
    case False
    then have "ns_suffix_offset s + (i - l) < 2 * length (ns_suffix s)"
      using i by (simp add: ns_nibs_def l_def)
    from nth_nibbles_checked [OF this] False show ?thesis
      unfolding ns_at_def l nth Option.bind.simps Let_def by (simp only: if_False)
  qed
qed

lemmas ns_view = length_ns_nibs ns_at_nibs

lemma ns_new_offset_ok [simp]: "ns_ok (ns_new_offset bs n) \<longleftrightarrow> n \<le> 2 * length bs"
  by (simp add: ns_ok_def ns_new_offset_def)

lemma ns_nibs_new_offset [simp]: "ns_nibs (ns_new_offset bs n) = drop n (nibbles bs)"
  by (simp add: ns_nibs_def ns_new_offset_def)

lemma ns_new_ok [simp]: "ns_ok (ns_new bs)" "ns_nibs (ns_new bs) = nibbles bs"
  by (simp_all add: ns_new_def)

lemma ns_new_composed_nibs:
  assumes "ns_suffix a = []" and "ns_suffix b = []" and "ns_ok a" and "ns_ok b"
  shows "ns_ok (ns_new_composed a b)" and "ns_nibs (ns_new_composed a b) = ns_nibs a @ ns_nibs b"
  using assms by (simp_all add: ns_ok_def ns_nibs_def ns_new_composed_def)

lemma ns_mid_nibs:
  assumes "ns_suffix s = []" and "ns_ok s" and "i \<le> length (ns_nibs s)"
  shows "ns_ok (ns_mid s i)" and "ns_nibs (ns_mid s i) = drop i (ns_nibs s)"
proof -
  show "ns_ok (ns_mid s i)"
    using assms unfolding ns_ok_def ns_nibs_def ns_mid_def by simp arith
  show "ns_nibs (ns_mid s i) = drop i (ns_nibs s)"
    using assms by (simp add: ns_nibs_def ns_mid_def add.commute)
qed

section \<open>Comparisons\<close>

lemma lcp_le: "lcp xs ys \<le> length xs" "lcp xs ys \<le> length ys"
  by (induction xs ys rule: lcp.induct) auto

lemma take_lcp: "take (lcp xs ys) xs = take (lcp xs ys) ys"
  by (induction xs ys rule: lcp.induct) auto

lemma lcp_differ: "lcp xs ys < length xs \<Longrightarrow> lcp xs ys < length ys \<Longrightarrow> xs ! lcp xs ys \<noteq> ys ! lcp xs ys"
  by (induction xs ys rule: lcp.induct) (auto split: if_splits)

lemma lcp_greatest: "take k xs = take k ys \<Longrightarrow> k \<le> length xs \<Longrightarrow> k \<le> length ys \<Longrightarrow> k \<le> lcp xs ys"
proof (induction xs ys arbitrary: k rule: lcp.induct)
  case (1 x xs y ys)
  then show ?case by (cases k) auto
qed auto

lemma lcp_full: "lcp xs ys = length ys \<longleftrightarrow> (\<exists>zs. xs = ys @ zs)"
  by (induction xs ys rule: lcp.induct) auto

lemma common_from_nibs:
  assumes "ns_ok a" and "ns_ok b"
    and "i + k = min (length (ns_nibs a)) (length (ns_nibs b))"
  shows "common_from a b k i = Some (i + lcp (drop i (ns_nibs a)) (drop i (ns_nibs b)))"
  using assms(3)
proof (induction k arbitrary: i)
  case 0
  then have "drop i (ns_nibs a) = [] \<or> drop i (ns_nibs b) = []" by auto
  then show ?case by auto
next
  case (Suc k)
  then have i: "i < length (ns_nibs a)" "i < length (ns_nibs b)" by auto
  have "drop i (ns_nibs a) = ns_nibs a ! i # drop (i + 1) (ns_nibs a)"
    "drop i (ns_nibs b) = ns_nibs b ! i # drop (i + 1) (ns_nibs b)"
    using i by (simp_all add: Cons_nth_drop_Suc)
  then show ?case
    using Suc.IH [of "i + 1"] Suc.prems i assms by (simp add: ns_view)
qed

lemma ns_common_prefix_nibs:
  "ns_ok a \<Longrightarrow> ns_ok b \<Longrightarrow> ns_common_prefix a b = Some (lcp (ns_nibs a) (ns_nibs b))"
  by (simp add: ns_common_prefix_def ns_view common_from_nibs)

lemma ns_starts_with_nibs:
  "ns_ok a \<Longrightarrow> ns_ok b \<Longrightarrow> ns_starts_with a b = Some (\<exists>zs. ns_nibs a = ns_nibs b @ zs)"
  by (simp add: ns_starts_with_def ns_view ns_common_prefix_nibs lcp_full)

lemma ns_eq_nibs: "ns_ok a \<Longrightarrow> ns_ok b \<Longrightarrow> ns_eq a b = Some (ns_nibs a = ns_nibs b)"
  by (auto simp: ns_eq_def ns_view ns_starts_with_nibs)

lemma cmp_from_nibs:
  assumes "ns_ok a" and "ns_ok b"
    and "i + k = min (length (ns_nibs a)) (length (ns_nibs b))"
  shows "cmp_from a b k i = Some (list_compare (drop i (ns_nibs a)) (drop i (ns_nibs b)))"
  using assms(3)
proof (induction k arbitrary: i)
  case 0
  then consider "length (ns_nibs a) = i" "length (ns_nibs b) = i" | "length (ns_nibs a) = i" "i < length (ns_nibs b)"
    | "i < length (ns_nibs a)" "length (ns_nibs b) = i" by linarith
  then show ?case
    using assms by cases (simp_all add: ns_view flip: Cons_nth_drop_Suc)
next
  case (Suc k)
  then have i: "i < length (ns_nibs a)" "i < length (ns_nibs b)" by auto
  have "drop i (ns_nibs a) = ns_nibs a ! i # drop (i + 1) (ns_nibs a)"
    "drop i (ns_nibs b) = ns_nibs b ! i # drop (i + 1) (ns_nibs b)"
    using i by (simp_all add: Cons_nth_drop_Suc)
  then show ?case
    using Suc.IH [of "i + 1"] Suc.prems i assms by (simp add: ns_view)
qed

lemma ns_partial_cmp_nibs:
  "ns_ok a \<Longrightarrow> ns_ok b \<Longrightarrow> ns_partial_cmp a b = Some (list_compare (ns_nibs a) (ns_nibs b))"
  by (simp add: ns_partial_cmp_def ns_view cmp_from_nibs)

section \<open>The hex-prefix encoding\<close>

lemma unat_two_nibbles: "unat x < 16 \<Longrightarrow> unat y < 16 \<Longrightarrow> unat (x * 16 + y :: byte) = unat x * 16 + unat y"
  by (simp add: unat_word_ariths)

lemma two_nibbles:
  assumes "unat x < 16" and "unat y < 16"
  shows "drop_bit 4 (x * 16 + y :: byte) = x" and "(x * 16 + y :: byte) AND 15 = y"
  using assms by (simp_all only: byte_eq_iff unat_and_15 unat_drop_bit_4 unat_two_nibbles) simp_all

lemma pack_nibbles [simp]: "pack (nibbles bs) = bs"
proof (induction bs)
  case (Cons b bs)
  have "unat (drop_bit 4 b) < 16" "unat (b AND 15) < 16"
    using nibbles_less [of _ "[b]"] by simp_all
  from unat_two_nibbles [OF this] have "drop_bit 4 b * 16 + (b AND 15) = b"
    by (simp only: byte_eq_iff unat_drop_bit_4 unat_and_15) simp
  then show ?case using Cons by simp
qed simp

lemma nibbles_pack: "even (length ns) \<Longrightarrow> \<forall>x \<in> set ns. unat x < 16 \<Longrightarrow> nibbles (pack ns) = ns"
  by (induction ns rule: pack.induct) (simp_all add: two_nibbles)

lemma push_pairs_nibs:
  "ns_ok s \<Longrightarrow> l \<le> length (ns_nibs s) \<Longrightarrow> i \<le> l \<Longrightarrow> even (l - i) \<Longrightarrow>
     push_pairs s l i r = Some (r @ pack (drop i (take l (ns_nibs s))))"
proof (induction s l i r rule: push_pairs.induct [case_names step])
  case (step s l i r)
  show ?case
  proof (cases "i < l")
    case False
    then show ?thesis using step.prems by (simp add: push_pairs.simps)
  next
    case True
    with step.prems have i: "i + 1 < l" by presburger
    have len: "length (take l (ns_nibs s)) = l" using step.prems by simp
    have "drop i (take l (ns_nibs s)) = take l (ns_nibs s) ! i # drop (Suc i) (take l (ns_nibs s))"
      "drop (Suc i) (take l (ns_nibs s)) = take l (ns_nibs s) ! Suc i # drop (Suc (Suc i)) (take l (ns_nibs s))"
      using i len by (simp_all del: nth_take take_Suc_conv_app_nth add: Cons_nth_drop_Suc)
    then have "drop i (take l (ns_nibs s)) = ns_nibs s ! i # ns_nibs s ! (i + 1) # drop (i + 2) (take l (ns_nibs s))"
      using i by simp
    moreover have "ns_at s i = Some (ns_nibs s ! i)" "ns_at s (i + 1) = Some (ns_nibs s ! (i + 1))"
      using i step.prems by (auto intro: ns_at_nibs)
    ultimately show ?thesis
      using step True i by (subst push_pairs.simps) simp
  qed
qed

lemma encode_nibbles_hex_prefix:
  assumes "ns_ok s" and "l \<le> length (ns_nibs s)"
  shows "encode_nibbles s l is_leaf = Some (hex_prefix (take l (ns_nibs s)) is_leaf)"
proof (cases "odd l")
  case True
  then have l: "0 < l" "even (l - 1)" by (auto intro: Nat.gr0I)
  then have "take l (ns_nibs s) \<noteq> []" using assms(2) by auto
  then have "hd (take l (ns_nibs s)) = ns_nibs s ! 0" "ns_at s 0 = Some (ns_nibs s ! 0)"
    using l assms by (auto simp: hd_conv_nth intro: ns_at_nibs)
  then show ?thesis
    using True l assms push_pairs_nibs [OF assms, of 1]
    by (simp add: encode_nibbles_def hex_prefix_def odd_iff_mod_2_eq_one drop_Suc min_absorb2)
next
  case False
  then show ?thesis
    using assms push_pairs_nibs [OF assms, of 0]
    by (simp add: encode_nibbles_def hex_prefix_def even_iff_mod_2_eq_zero min_absorb2)
qed

lemma ns_encoded_hex_prefix: "ns_ok s \<Longrightarrow> ns_encoded s is_leaf = Some (hex_prefix (ns_nibs s) is_leaf)"
  by (simp add: ns_encoded_def ns_view encode_nibbles_hex_prefix)

lemma ns_encoded_leftmost_hex_prefix:
  "ns_ok s \<Longrightarrow> ns_encoded_leftmost s n is_leaf = Some (hex_prefix (take n (ns_nibs s)) is_leaf)"
  by (simp add: ns_encoded_leftmost_def ns_view encode_nibbles_hex_prefix min_def)

lemma nibble_cases:
  assumes "unat (x :: byte) < 16"
  shows "x \<in> {0, 1, 2, 3, 4, 5, 6, 7, 8, 9, 10, 11, 12, 13, 14, 15}"
proof -
  have "unat x \<in> set [0..<16]" using assms by simp
  then have "unat x \<in> {0, 1, 2, 3, 4, 5, 6, 7, 8, 9, 10, 11, 12, 13, 14, 15}"
    by (simp add: upt_rec numeral_eq_Suc del: set_upt)
  then have "(word_of_nat (unat x) :: byte) \<in> word_of_nat ` {0, 1, 2, 3, 4, 5, 6, 7, 8, 9, 10, 11, 12, 13, 14, 15}"
    by (rule imageI)
  then show ?thesis by simp
qed

lemma hex_prefix_flags:
  assumes "unat (x :: byte) < 16"
  shows "(0x10 + x) AND 16 = 16" and "(0x10 + x) AND 32 = 0" and "(0x30 + x) AND 16 = 16"
    and "(0x30 + x) AND 32 = 32" and "(0x10 + x) AND 15 = x" and "(0x30 + x) AND 15 = x"
  using nibble_cases [OF assms] by auto

lemma from_encoded_hex_prefix:
  assumes "\<forall>x \<in> set ns. unat x < 16"
  shows "\<exists>s. ns_from_encoded (hex_prefix ns is_leaf) = Some (s, is_leaf) \<and> ns_ok s \<and> ns_nibs s = ns \<and> ns_suffix s = []"
proof (cases "odd (length ns)")
  case True
  then obtain n rest where ns: "ns = n # rest" by (cases ns) auto
  then have n: "unat n < 16" and rest: "nibbles (pack rest) = rest"
    using assms True by (simp_all add: nibbles_pack)
  note flags = hex_prefix_flags [OF n]
  have enc: "hex_prefix ns is_leaf = (if is_leaf then 0x30 + n else 0x10 + n) # pack rest"
    using True by (simp add: hex_prefix_def ns)
  show ?thesis
    unfolding enc using flags rest by (cases is_leaf)
      (simp_all add: ns ns_from_encoded_def ns_nibs_def ns_ok_def ns_new_offset_def)
next
  case False
  have enc: "hex_prefix ns is_leaf = (if is_leaf then 0x20 else 0) # pack ns"
    using False by (simp add: hex_prefix_def)
  show ?thesis
    unfolding enc using False assms nibbles_pack [of ns] by (cases is_leaf)
      (simp_all add: ns_from_encoded_def ns_nibs_def ns_ok_def ns_new_offset_def)
qed

section \<open>A stack of nibbles\<close>

text \<open>\<open>nv_ok\<close>: the bytes hold exactly the nibbles, and the unused low half of an odd vector is
  zero, so that \<open>push\<close> may combine with \<open>|=\<close>.\<close>

definition nv_ok :: "nibble_vec \<Rightarrow> bool" where
  "nv_ok v \<longleftrightarrow> length (nv_inner v) = (nv_len v + 1) div 2 \<and>
     (odd (nv_len v) \<longrightarrow> last (nv_inner v) AND 0x0F = 0)"

definition nv_nibs :: "nibble_vec \<Rightarrow> byte list" where
  "nv_nibs v = take (nv_len v) (nibbles (nv_inner v))"

locale nibble_stack =
  fixes abs :: "'v \<Rightarrow> byte list"
    and ok :: "'v \<Rightarrow> bool"
    and push :: "'v \<Rightarrow> byte \<Rightarrow> 'v option"
    and pop :: "'v \<Rightarrow> (byte option \<times> 'v) option"
  assumes push_spec: "ok v \<Longrightarrow> \<exists>v'. push v x = Some v' \<and> ok v' \<and> abs v' = abs v @ [x AND 15]"
    and pop_empty: "ok v \<Longrightarrow> abs v = [] \<Longrightarrow> pop v = Some (None, v)"
    and pop_snoc: "ok v \<Longrightarrow> abs v = xs @ [x] \<Longrightarrow> \<exists>v'. pop v = Some (Some x, v') \<and> ok v' \<and> abs v' = xs"
begin

fun push_all :: "byte list \<Rightarrow> 'v \<Rightarrow> 'v option" where
  "push_all [] v = Some v"
| "push_all (x # xs) v = do { v \<leftarrow> push v x; push_all xs v }"

fun pops :: "nat \<Rightarrow> 'v \<Rightarrow> (byte list \<times> 'v) option" where
  "pops 0 v = Some ([], v)"
| "pops (Suc n) v =
     do { (x, v) \<leftarrow> pop v;
          case x of None \<Rightarrow> Some ([], v)
          | Some x \<Rightarrow> do { (xs, v) \<leftarrow> pops n v; Some (x # xs, v) } }"

lemma push_all_spec:
  "ok v \<Longrightarrow> \<exists>v'. push_all xs v = Some v' \<and> ok v' \<and> abs v' = abs v @ map (\<lambda>x. x AND 15) xs"
proof (induction xs arbitrary: v)
  case (Cons x xs)
  obtain v1 where v1: "push v x = Some v1" "ok v1" "abs v1 = abs v @ [x AND 15]"
    using push_spec [OF Cons.prems] by blast
  with Cons.IH [OF v1(2)] show ?case by auto
qed auto

lemma pops_spec:
  "ok v \<Longrightarrow> abs v = xs @ ys \<Longrightarrow> \<exists>v'. pops (length ys) v = Some (rev ys, v') \<and> ok v' \<and> abs v' = xs"
proof (induction ys arbitrary: v rule: rev_induct)
  case (snoc y ys)
  obtain v1 where v1: "pop v = Some (Some y, v1)" "ok v1" "abs v1 = xs @ ys"
    using pop_snoc [OF snoc.prems(1), of "xs @ ys" y] snoc.prems(2) by auto
  with snoc.IH [OF v1(2,3)] show ?case by auto
qed auto

lemma push_all_pops:
  assumes "ok v" and "\<forall>x \<in> set xs. unat x < 16"
  shows "\<exists>v1 v2. push_all xs v = Some v1 \<and> pops (length xs) v1 = Some (rev xs, v2) \<and> abs v2 = abs v"
proof -
  have "map (\<lambda>x. x AND 15) xs = xs"
    using assms(2) by (auto simp: byte_eq_iff unat_and_15 intro!: map_idI)
  then obtain v1 where "push_all xs v = Some v1" "ok v1" "abs v1 = abs v @ xs"
    using push_all_spec [OF assms(1), of xs] by auto
  with pops_spec [of v1 "abs v" xs] show ?thesis by auto
qed

end

lemma last_nibbles: "xs \<noteq> [] \<Longrightarrow> nibbles xs = nibbles (butlast xs) @ [drop_bit 4 (last xs), last xs AND 15]"
  by (metis append_butlast_last_id nibbles.simps nibbles_append)

lemma nibble_masks:
  "drop_bit 4 (push_bit 4 (x AND 15) :: byte) = x AND 15"
  "push_bit 4 (x AND 15) AND 15 = (0 :: byte)"
  "drop_bit 4 (b AND 0xF0) = drop_bit 4 (b :: byte)"
  "(b AND 0xF0) AND 15 = (0 :: byte)"
proof -
  have masks: "15 = (mask 4 :: byte)" "0xF0 = (push_bit 4 (mask 4) :: byte)"
    by (simp_all add: mask_eq_exp_minus_1)
  show "drop_bit 4 (push_bit 4 (x AND 15) :: byte) = x AND 15"
    "push_bit 4 (x AND 15) AND 15 = (0 :: byte)"
    "drop_bit 4 (b AND 0xF0) = drop_bit 4 (b :: byte)"
    "(b AND 0xF0) AND 15 = (0 :: byte)"
    unfolding masks by (rule bit_word_eqI; auto simp: bit_simps dest: bit_imp_le_length)+
qed

lemma nibble_or:
  assumes "b AND 15 = (0 :: byte)"
  shows "drop_bit 4 (b OR (x AND 15)) = drop_bit 4 b" and "(b OR (x AND 15)) AND 15 = x AND 15"
proof -
  have masks: "15 = (mask 4 :: byte)" by (simp add: mask_eq_exp_minus_1)
  show "drop_bit 4 (b OR (x AND 15)) = drop_bit 4 b"
    unfolding masks by (rule bit_word_eqI) (auto simp: bit_simps)
  have "(b OR (x AND 15)) AND 15 = (b AND 15) OR (x AND 15)"
    unfolding masks by (rule bit_word_eqI) (auto simp: bit_simps)
  then show "(b OR (x AND 15)) AND 15 = x AND 15" using assms by simp
qed

lemma nv_push_spec:
  assumes ok: "nv_ok v"
  shows "\<exists>v'. nv_push v x = Some v' \<and> nv_ok v' \<and> nv_nibs v' = nv_nibs v @ [x AND 15]"
proof (cases "odd (nv_len v)")
  case False
  define c where "c = push_bit 4 (x AND 15)"
  have push: "nv_push v x = Some (v\<lparr>nv_inner := nv_inner v @ [c], nv_len := nv_len v + 1\<rparr>)"
    using False by (simp add: nv_push_def c_def)
  have c: "c AND 15 = 0" "drop_bit 4 c = x AND 15" unfolding c_def by (rule nibble_masks)+
  from False ok have "length (nv_inner v) * 2 = nv_len v" by (auto simp: nv_ok_def)
  then show ?thesis
    unfolding push using False ok by (auto simp: nv_ok_def nv_nibs_def c)
next
  case True
  then have len: "length (nv_inner v) * 2 = nv_len v + 1" and low: "last (nv_inner v) AND 15 = 0"
    using ok by (auto simp: nv_ok_def elim!: oddE)
  define c where "c = last (nv_inner v) OR (x AND 15)"
  from len have ne: "nv_inner v \<noteq> []" by auto
  have push: "nv_push v x = Some (v\<lparr>nv_inner := butlast (nv_inner v) @ [c], nv_len := nv_len v + 1\<rparr>)"
    using True ne by (simp add: nv_push_def c_def odd_iff_mod_2_eq_one)
  have c: "c AND 15 = x AND 15" "drop_bit 4 c = drop_bit 4 (last (nv_inner v))"
    unfolding c_def by (rule nibble_or [OF low])+
  have len': "2 * (length (nv_inner v) - 1) = nv_len v - 1" and pos: "0 < nv_len v"
    using len True by (auto intro: Nat.gr0I)
  have "nv_nibs v = nibbles (butlast (nv_inner v)) @ [drop_bit 4 (last (nv_inner v))]"
    unfolding nv_nibs_def last_nibbles [OF ne] using len len' pos by (simp add: take_Cons')
  then show ?thesis
    unfolding push using True len len' pos by (simp add: nv_ok_def nv_nibs_def c)
qed

lemma nv_pop_spec:
  assumes ok: "nv_ok v" and abs: "nv_nibs v = xs @ [x]"
  shows "\<exists>v'. nv_pop v = Some (Some x, v') \<and> nv_ok v' \<and> nv_nibs v' = xs"
proof -
  have pos: "0 < nv_len v" using abs by (cases "nv_len v") (auto simp: nv_nibs_def)
  then have ne: "nv_inner v \<noteq> []" using ok by (auto simp: nv_ok_def)
  show ?thesis
  proof (cases "odd (nv_len v)")
    case False
    then have len: "length (nv_inner v) * 2 = nv_len v" using ok by (auto simp: nv_ok_def)
    define c where "c = last (nv_inner v) AND 0xF0"
    have pop: "nv_pop v = Some (Some (last (nv_inner v) AND 15),
        v\<lparr>nv_inner := butlast (nv_inner v) @ [c], nv_len := nv_len v - 1\<rparr>)"
      using False ne pos by (simp add: nv_pop_def nv_is_empty_def c_def Let_def)
    have c: "c AND 15 = 0" "drop_bit 4 c = drop_bit 4 (last (nv_inner v))"
      unfolding c_def by (rule nibble_masks)+
    have "nv_nibs v = nibbles (nv_inner v)" using len by (simp add: nv_nibs_def)
    then have "nv_nibs v = (nibbles (butlast (nv_inner v)) @ [drop_bit 4 (last (nv_inner v))]) @ [last (nv_inner v) AND 15]"
      using last_nibbles [OF ne] by simp
    with abs have xs: "xs = nibbles (butlast (nv_inner v)) @ [drop_bit 4 (last (nv_inner v))]"
      and x: "x = last (nv_inner v) AND 15" by auto
    have len': "nv_len v - Suc 0 = Suc (2 * length (butlast (nv_inner v)))"
      using len pos by (cases "nv_inner v") (simp, auto)
    then show ?thesis
      unfolding pop xs x using c by (simp add: nv_ok_def nv_nibs_def)
  next
    case True
    then have len: "length (nv_inner v) * 2 = nv_len v + 1" using ok by (auto simp: nv_ok_def elim!: oddE)
    have pop: "nv_pop v = Some (Some (drop_bit 4 (last (nv_inner v))),
        v\<lparr>nv_inner := butlast (nv_inner v), nv_len := nv_len v - 1\<rparr>)"
      using True ne pos by (simp add: nv_pop_def nv_is_empty_def odd_iff_mod_2_eq_one)
    have len': "nv_len v - Suc 0 = 2 * length (butlast (nv_inner v))"
      using len pos by (cases "nv_inner v") (simp, auto)
    then have "nv_len v = Suc (2 * length (butlast (nv_inner v)))" using pos by simp
    then have "nv_nibs v = nibbles (butlast (nv_inner v)) @ [drop_bit 4 (last (nv_inner v))]"
      unfolding nv_nibs_def last_nibbles [OF ne] by simp
    with abs have xs: "xs = nibbles (butlast (nv_inner v))" and x: "x = drop_bit 4 (last (nv_inner v))" by auto
    from len' show ?thesis
      unfolding pop xs x by (simp add: nv_ok_def nv_nibs_def)
  qed
qed

lemma nv_ok_new [simp]: "nv_ok nv_new" "nv_nibs nv_new = []"
  by (simp_all add: nv_ok_def nv_nibs_def nv_new_def)

lemma nv_nibs_Nil_iff: "nv_ok v \<Longrightarrow> nv_nibs v = [] \<longleftrightarrow> nv_len v = 0"
  by (auto simp: nv_ok_def nv_nibs_def)

interpretation nv: nibble_stack nv_nibs nv_ok nv_push nv_pop
proof
  show "nv_ok v \<Longrightarrow> \<exists>v'. nv_push v x = Some v' \<and> nv_ok v' \<and> nv_nibs v' = nv_nibs v @ [x AND 15]" for v x
    by (rule nv_push_spec)
  show "nv_ok v \<Longrightarrow> nv_nibs v = [] \<Longrightarrow> nv_pop v = Some (None, v)" for v
    by (simp add: nv_pop_def nv_is_empty_def nv_nibs_Nil_iff)
  show "nv_ok v \<Longrightarrow> nv_nibs v = xs @ [x] \<Longrightarrow> \<exists>v'. nv_pop v = Some (Some x, v') \<and> nv_ok v' \<and> nv_nibs v' = xs" for v xs x
    by (rule nv_pop_spec)
qed

lemma nv_at_nibs:
  assumes "nv_ok v" and "i < nv_len v"
  shows "nv_at v i = Some (nv_nibs v ! i)"
proof -
  have "i < 2 * length (nv_inner v)" using assms by (auto simp: nv_ok_def)
  then show ?thesis
    using assms by (auto simp: nv_at_def nv_nibs_def nth_nibbles mod_2_eq_odd)
qed

lemma nv_as_nibbleslice_nibs:
  "nv_ok v \<Longrightarrow> nv_as_nibbleslice v = (if even (nv_len v) then Some (ns_new (nv_inner v)) else None) \<and>
     (even (nv_len v) \<longrightarrow> ns_nibs (ns_new (nv_inner v)) = nv_nibs v)"
  by (auto simp: nv_as_nibbleslice_def nv_nibs_def nv_ok_def)

lemma nv_push_range_nibs:
  assumes "ns_ok s" and "i + k = length (ns_nibs s)"
  shows "nv_push_range s k i v = nv.push_all (drop i (ns_nibs s)) v"
  using assms(2)
proof (induction k arbitrary: i v)
  case (Suc k)
  then have i: "i < length (ns_nibs s)" and
    rest: "nv_push_range s k (i + 1) = nv.push_all (drop (i + 1) (ns_nibs s))" by (auto intro!: ext)
  have "drop i (ns_nibs s) = ns_nibs s ! i # drop (i + 1) (ns_nibs s)"
    using i by (simp add: Cons_nth_drop_Suc)
  then show ?case
    using i assms(1) by (simp only: nv_push_range.simps ns_view rest nv.push_all.simps Option.bind.simps)
qed simp

lemma ns_nibs_masked: "map (\<lambda>x. x AND 15) (ns_nibs s) = ns_nibs s"
  by (rule map_idI) (simp add: byte_eq_iff unat_and_15 ns_nibs_less)

lemma nv_from_nibs:
  assumes "ns_ok s"
  shows "\<exists>v. nv_from s = Some v \<and> nv_ok v \<and> nv_nibs v = ns_nibs s"
  using nv.push_all_spec [of nv_new "ns_nibs s"] assms
  by (simp add: nv_from_def ns_view nv_push_range_nibs ns_nibs_masked)

section \<open>Properties\<close>

text \<open>C29. Hex-prefix round trip: on every view whose offsets are in range, composed ones
  included, \<open>encoded\<close> does not panic, and \<open>from_encoded\<close> of its output gives back the leaf
  flag and a view of exactly the same nibbles.\<close>

theorem hex_prefix_roundtrip:
  assumes "ns_ok s"
  shows "\<exists>bs s'. ns_encoded s is_leaf = Some bs \<and> ns_from_encoded bs = Some (s', is_leaf) \<and>
    ns_eq s s' = Some True"
proof -
  have "\<forall>x \<in> set (ns_nibs s). unat x < 16" by (simp add: ns_nibs_less)
  then obtain s' where "ns_from_encoded (hex_prefix (ns_nibs s) is_leaf) = Some (s', is_leaf)"
    and "ns_ok s'" and "ns_nibs s' = ns_nibs s"
    using from_encoded_hex_prefix [of "ns_nibs s" is_leaf] by blast
  then show ?thesis using assms by (simp add: ns_encoded_hex_prefix ns_eq_nibs)
qed

theorem hex_prefix_roundtrip_witness:
  "\<exists>bs s'. ns_encoded (ns_new_offset [0x01, 0x23, 0x45] 1) True = Some bs \<and>
    ns_from_encoded bs = Some (s', True) \<and> ns_eq (ns_new_offset [0x01, 0x23, 0x45] 1) s' = Some True"
  by (rule hex_prefix_roundtrip) simp

text \<open>\<open>common_prefix\<close> is the length of the longest common prefix: it never panics on views
  in range, the views agree below it, it is no longer than either, and if it is shorter than
  both they differ at that nibble.\<close>

theorem common_prefix_longest:
  assumes "ns_ok a" and "ns_ok b"
  shows "\<exists>k. ns_common_prefix a b = Some k \<and> k \<le> length (ns_nibs a) \<and> k \<le> length (ns_nibs b) \<and>
    (\<forall>i. i < k \<longrightarrow> ns_at a i = ns_at b i) \<and>
    (k < length (ns_nibs a) \<longrightarrow> k < length (ns_nibs b) \<longrightarrow> ns_at a k \<noteq> ns_at b k)"
proof -
  let ?k = "lcp (ns_nibs a) (ns_nibs b)"
  note le = lcp_le [of "ns_nibs a" "ns_nibs b"]
  have "ns_at a i = ns_at b i" if "i < ?k" for i
    using that le assms arg_cong [OF take_lcp, of "\<lambda>xs. xs ! i" "ns_nibs a" "ns_nibs b"]
    by (simp add: ns_view)
  moreover have "ns_at a ?k \<noteq> ns_at b ?k" if "?k < length (ns_nibs a)" "?k < length (ns_nibs b)"
    using that assms lcp_differ [OF that] by (simp add: ns_view)
  ultimately show ?thesis using le assms by (auto simp: ns_common_prefix_nibs)
qed

theorem common_prefix_longest_witness:
  "\<exists>k. ns_common_prefix (ns_new [0x12, 0x34]) (ns_new [0x12, 0x56]) = Some k \<and>
    k \<le> length (ns_nibs (ns_new [0x12, 0x34])) \<and> k \<le> length (ns_nibs (ns_new [0x12, 0x56])) \<and>
    (\<forall>i. i < k \<longrightarrow> ns_at (ns_new [0x12, 0x34]) i = ns_at (ns_new [0x12, 0x56]) i) \<and>
    (k < length (ns_nibs (ns_new [0x12, 0x34])) \<longrightarrow> k < length (ns_nibs (ns_new [0x12, 0x56])) \<longrightarrow>
       ns_at (ns_new [0x12, 0x34]) k \<noteq> ns_at (ns_new [0x12, 0x56]) k)"
  by (rule common_prefix_longest) simp_all

text \<open>\<open>NibbleVec\<close> is a stack: pushing the nibbles of a view onto a well-formed vector with
  \<open>From\<close>, then popping, returns them last first, and neither panics.\<close>

theorem nibble_vec_stack:
  assumes "ns_ok s"
  shows "\<exists>v v'. nv_from s = Some v \<and> nv_ok v \<and>
    nv.pops (length (ns_nibs s)) v = Some (rev (ns_nibs s), v') \<and> nv_pop v' = Some (None, v')"
proof -
  obtain v where v: "nv_from s = Some v" "nv_ok v" "nv_nibs v = [] @ ns_nibs s"
    using nv_from_nibs [OF assms] by auto
  obtain v' where "nv.pops (length (ns_nibs s)) v = Some (rev (ns_nibs s), v')" "nv_ok v'" "nv_nibs v' = []"
    using nv.pops_spec [OF v(2,3)] by blast
  with v nv.pop_empty show ?thesis by auto
qed

theorem nibble_vec_stack_witness:
  "\<exists>v v'. nv_from (ns_new_offset [0xab, 0xcd] 1) = Some v \<and> nv_ok v \<and>
    nv.pops (length (ns_nibs (ns_new_offset [0xab, 0xcd] 1))) v =
      Some (rev (ns_nibs (ns_new_offset [0xab, 0xcd] 1)), v') \<and> nv_pop v' = Some (None, v')"
  by (rule nibble_vec_stack) simp

text \<open>\<open>NibbleSlice\<close> derives \<open>Ord\<close> field by field but compares nibbles in \<open>PartialOrd\<close>: two
  views of the same nibbles are equal for \<open>partial_cmp\<close> and ordered by \<open>cmp\<close>.\<close>

theorem derived_cmp_disagrees:
  "ns_partial_cmp (ns_new [0x12]) (ns_new_offset [0x01, 0x12] 2) = Some Equal \<and>
   ns_derived_cmp (ns_new [0x12]) (ns_new_offset [0x01, 0x12] 2) = Greater"
  by (simp add: ns_partial_cmp_nibs ns_derived_cmp_def ns_new_def) (simp add: ns_new_offset_def)

end
