(* ===== verification/Trie_Node.thy ===== *)
theory Trie_Node
  imports Rlp_Impls Nibbles
begin

text \<open>
  Trie nodes and their RLP: \<open>patricia_trie/src/node.rs\<close>.

  \<open>node\<close> is the code's \<open>Node\<close>, borrowed byte slices as byte strings, \<open>owned_node\<close> the owning
  copy.  \<open>node_decoded\<close> threads the caches of the view it reads, as the \<open>Cell\<close>s of the code do;
  \<open>None\<close> is a panic.  The main lemma is that \<open>decoded\<close> inverts \<open>encoded\<close> on every node
  whose parts are what the trie stores in it (\<open>node_ok\<close>).
\<close>

section \<open>Nodes\<close>

datatype node =
    Empty
  | Leaf nibble_slice bytes
  | Extension nibble_slice bytes
  | Branch "bytes list" "bytes option"

fun raw_children :: "untrusted_rlp \<Rightarrow> nat \<Rightarrow> nat \<Rightarrow> (bytes list \<times> untrusted_rlp) option" where
  "raw_children r i 0 = Some ([], r)"
| "raw_children r i (Suc k) =
     (case trusted_at r i of (x, r) \<Rightarrow>
        do { x \<leftarrow> x; (xs, r) \<leftarrow> raw_children r (i + 1) k; Some (rlp_bytes x # xs, r) })"

definition node_decoded :: "bytes \<Rightarrow> node option" where
  "node_decoded node_rlp =
     (case trusted_prototype (untrusted_new node_rlp) of (proto, r) \<Rightarrow>
        (case proto of
           Some (List n) \<Rightarrow>
             if n = 2 then
               (case trusted_at r 0 of (key, r) \<Rightarrow>
                  do { key \<leftarrow> key; d \<leftarrow> trusted_data key;
                       (k, is_leaf) \<leftarrow> ns_from_encoded d;
                       (case trusted_at r 1 of (item, r) \<Rightarrow>
                          do { item \<leftarrow> item;
                               if is_leaf then map_option (Leaf k) (trusted_data item)
                               else Some (Extension k (rlp_bytes item)) }) })
             else if n = 17 then
               do { (nodes, r) \<leftarrow> raw_children r 0 16;
                    (case trusted_at r 16 of (v, r) \<Rightarrow>
                       do { v \<leftarrow> v;
                            if is_empty (rlp_bytes v) then Some (Branch nodes None)
                            else (case trusted_at r 16 of (v, r) \<Rightarrow>
                                    do { v \<leftarrow> v; d \<leftarrow> trusted_data v;
                                         Some (Branch nodes (Some d)) }) }) }
             else None
         | Some (Data 0) \<Rightarrow> Some Empty
         | _ \<Rightarrow> None))"

fun append_raws :: "bytes list \<Rightarrow> rlp_stream \<Rightarrow> rlp_stream option" where
  "append_raws [] s = Some s"
| "append_raws (x # xs) s = do { s \<leftarrow> append_raw s x 1; append_raws xs s }"

fun node_encoded :: "node \<Rightarrow> bytes option" where
  "node_encoded (Leaf k value) =
     do { stream \<leftarrow> new_list 2;
          key \<leftarrow> ns_encoded k True;
          stream \<leftarrow> append_with (rlp_append_bytes key) stream;
          stream \<leftarrow> append_with (rlp_append_bytes value) stream;
          out stream }"
| "node_encoded (Extension k raw_rlp) =
     do { stream \<leftarrow> new_list 2;
          key \<leftarrow> ns_encoded k False;
          stream \<leftarrow> append_with (rlp_append_bytes key) stream;
          stream \<leftarrow> append_raw stream raw_rlp 1;
          out stream }"
| "node_encoded (Branch nodes value) =
     do { stream \<leftarrow> new_list 17;
          stream \<leftarrow> append_raws nodes stream;
          stream \<leftarrow> (case value of
                        Some n \<Rightarrow> append_with (rlp_append_bytes n) stream
                      | None \<Rightarrow> append_empty_data stream);
          out stream }"
| "node_encoded Empty =
     do { stream \<leftarrow> append_empty_data new_stream; out stream }"

text \<open>The derived equality: slices are compared by their nibbles.\<close>

fun node_eq :: "node \<Rightarrow> node \<Rightarrow> bool" where
  "node_eq Empty Empty = True"
| "node_eq (Leaf a v) (Leaf b w) \<longleftrightarrow> ns_eq a b = Some True \<and> v = w"
| "node_eq (Extension a v) (Extension b w) \<longleftrightarrow> ns_eq a b = Some True \<and> v = w"
| "node_eq (Branch cs v) (Branch ds w) \<longleftrightarrow> cs = ds \<and> v = w"
| "node_eq _ _ = False"

datatype owned_node =
    OwnedEmpty
  | OwnedLeaf nibble_vec bytes
  | OwnedExtension nibble_vec bytes
  | OwnedBranch "bytes list" "bytes option"

fun owned_from :: "node \<Rightarrow> owned_node option" where
  "owned_from Empty = Some OwnedEmpty"
| "owned_from (Leaf k v) = map_option (\<lambda>k. OwnedLeaf k v) (nv_from k)"
| "owned_from (Extension k child) = map_option (\<lambda>k. OwnedExtension k child) (nv_from k)"
| "owned_from (Branch c val) = Some (OwnedBranch c val)"

fun node_ok :: "node \<Rightarrow> bool" where
  "node_ok Empty \<longleftrightarrow> True"
| "node_ok (Leaf s v) \<longleftrightarrow> ns_ok s"
| "node_ok (Extension s raw) \<longleftrightarrow> ns_ok s \<and> raw \<in> range rlp_enc"
| "node_ok (Branch nodes v) \<longleftrightarrow> length nodes = 16 \<and> set nodes \<subseteq> range rlp_enc \<and> v \<noteq> Some []"

section \<open>Encoding\<close>

lemma append_raws_run: "append_raws xs s = run_each (map (\<lambda>x s. append_raw s x 1) xs) s"
  by (induction xs arbitrary: s) (simp_all cong: Option.bind_cong)

lemma encoded_list:
  assumes "list_all2 pushes fs es" and "es \<noteq> []" and "length es = n"
  shows "do { s \<leftarrow> new_list n; s \<leftarrow> run_each fs s; out s } =
     Some (code_header 0xc0 (length (concat es)) @ concat es)"
  using new_list_run_each [OF assms(1,2)] assms(3) by simp

lemma pushes_bytes [simp]: "pushes (append_with (rlp_append_bytes b)) (code_enc (RData b))"
  by (intro pushes_item appends_item_bytes)

lemma raws_push: "list_all2 pushes (map (\<lambda>x s. append_raw s x 1) xs) xs"
  by (auto simp: list_all2_conv_all_nth)

definition enc_parts :: "bytes list \<Rightarrow> bytes" where
  "enc_parts es = code_header 0xc0 (length (concat es)) @ concat es"

lemma node_encoded_Leaf:
  assumes "ns_ok k"
  shows "node_encoded (Leaf k v) =
    Some (enc_parts [code_enc (RData (hex_prefix (ns_nibs k) True)), code_enc (RData v)])"
proof -
  have "list_all2 pushes [append_with (rlp_append_bytes (hex_prefix (ns_nibs k) True)), append_with (rlp_append_bytes v)]
      [code_enc (RData (hex_prefix (ns_nibs k) True)), code_enc (RData v)]"
    by (simp del: code_enc.simps)
  from encoded_list [OF this, of 2] show ?thesis
    using assms unfolding enc_parts_def by (simp add: ns_encoded_hex_prefix del: code_enc.simps)
qed

lemma node_encoded_Extension:
  assumes "ns_ok k"
  shows "node_encoded (Extension k raw) =
    Some (enc_parts [code_enc (RData (hex_prefix (ns_nibs k) False)), raw])"
proof -
  have "list_all2 pushes [append_with (rlp_append_bytes (hex_prefix (ns_nibs k) False)), \<lambda>s. append_raw s raw 1]
      [code_enc (RData (hex_prefix (ns_nibs k) False)), raw]"
    by (simp del: code_enc.simps)
  from encoded_list [OF this, of 2] show ?thesis
    using assms unfolding enc_parts_def by (simp add: ns_encoded_hex_prefix del: code_enc.simps)
qed

lemma node_encoded_Branch:
  assumes "length nodes = 16"
  shows "node_encoded (Branch nodes v) =
    Some (enc_parts (nodes @ [case v of Some n \<Rightarrow> code_enc (RData n) | None \<Rightarrow> [0x80]]))"
proof -
  let ?f = "case v of Some n \<Rightarrow> append_with (rlp_append_bytes n) | None \<Rightarrow> append_empty_data"
  have "pushes ?f (case v of Some n \<Rightarrow> code_enc (RData n) | None \<Rightarrow> [0x80])"
    by (simp split: option.split del: code_enc.simps)
  then have "list_all2 pushes (map (\<lambda>x s. append_raw s x 1) nodes @ [?f])
      (nodes @ [case v of Some n \<Rightarrow> code_enc (RData n) | None \<Rightarrow> [0x80]])"
    by (intro list_all2_appendI raws_push) simp
  from encoded_list [OF this, of 17] show ?thesis
    using assms unfolding enc_parts_def
    by (cases v) (simp_all add: append_raws_run run_each_append Option.bind_assoc del: code_enc.simps
        cong: Option.bind_cong)
qed

lemma node_encoded_Empty: "node_encoded Empty = Some [0x80]"
  by (simp add: append_empty_data_def new_stream_def note_appended.simps out_def is_finished_def)

section \<open>Decoding\<close>

text \<open>What the parts of an encoded node are once the whole is short enough for its header.\<close>

lemma enc_parts_items:
  assumes "length (enc_parts (map rlp_enc ts)) < 2 ^ 32"
  shows "enc_parts (map rlp_enc ts) = rlp_enc (RList ts)" and "is_list (enc_parts (map rlp_enc ts))"
    and "rlp_items (enc_parts (map rlp_enc ts)) = map rlp_enc ts"
proof -
  have "length (concat (map rlp_enc ts)) < 2 ^ 32" using assms by (simp add: enc_parts_def)
  then show eq: "enc_parts (map rlp_enc ts) = rlp_enc (RList ts)"
    by (simp add: enc_parts_def code_header_eq Let_def)
  have "length (rlp_enc (RList ts)) < 2 ^ 64" using assms eq by simp
  then show "is_list (enc_parts (map rlp_enc ts))" "rlp_items (enc_parts (map rlp_enc ts)) = map rlp_enc ts"
    unfolding eq by (rule is_list_enc_RList, rule rlp_items_enc)
qed

lemma code_enc_RData_short:
  assumes "length (enc_parts es) < 2 ^ 32" and "code_enc (RData b) \<in> set es"
  shows "code_enc (RData b) = rlp_enc (RData b)"
proof -
  have "length (code_enc (RData b)) \<le> length (concat es)"
    using assms(2) length_concat_le [of "code_enc (RData b)" es "\<lambda>x. x"] by (simp del: code_enc.simps)
  then have "length b < 2 ^ 32" using assms(1) by (auto simp: enc_parts_def split: if_splits)
  then show ?thesis by (simp add: code_header_eq)
qed

lemma trusted_data_enc:
  assumes "length (rlp_enc (RData b)) < 2 ^ 64"
  shows "trusted_data (untrusted_new (rlp_enc (RData b))) = Some b"
  using rlp_data_enc [OF assms] by (simp add: trusted_data_def del: rlp_enc.simps)

lemma trusted_prototype_list:
  assumes "cache_ok r" and "length (rlp_bytes r) < 2 ^ 64 - 1" and "is_list (rlp_bytes r)"
  shows "\<exists>r'. trusted_prototype r = (Some (List (length (rlp_items (rlp_bytes r)))), r') \<and>
     cache_ok r' \<and> rlp_bytes r' = rlp_bytes r"
  using item_count_cached [OF assms(1,2)] assms(3) not_list_if_data
  by (cases "item_count r") (auto simp: trusted_prototype_def rlp_prototype_def)

lemma raw_children_items:
  assumes "cache_ok r" and "length (rlp_bytes r) < 2 ^ 64 - 1" and "is_list (rlp_bytes r)"
    and "i + k \<le> length (rlp_items (rlp_bytes r))"
  shows "\<exists>r'. raw_children r i k = Some (take k (drop i (rlp_items (rlp_bytes r))), r') \<and>
     cache_ok r' \<and> rlp_bytes r' = rlp_bytes r"
  using assms
proof (induction k arbitrary: i r)
  case (Suc k)
  let ?xs = "rlp_items (rlp_bytes r)"
  obtain r1 where r1: "trusted_at r i = (Some (untrusted_new (?xs ! i)), r1)" "cache_ok r1"
    "rlp_bytes r1 = rlp_bytes r"
    using trusted_at_cached [of r i] Suc.prems by auto
  obtain r2 where "raw_children r1 (i + 1) k = Some (take k (drop (i + 1) ?xs), r2)" "cache_ok r2"
    "rlp_bytes r2 = rlp_bytes r"
    using Suc.IH [of r1 "i + 1"] r1 Suc.prems by auto
  moreover have "take (Suc k) (drop i ?xs) = ?xs ! i # take k (drop (i + 1) ?xs)"
    using Suc.prems(4) by (simp flip: Cons_nth_drop_Suc)
  ultimately show ?case using r1 by simp
qed simp

section \<open>Decoding an encoded node\<close>

text \<open>A view of an encoded list of \<open>ts\<close>: what the reads of \<open>node_decoded\<close> return.\<close>

lemma enc_parts_view:
  assumes "length (enc_parts (map rlp_enc ts)) < 2 ^ 32"
  shows "\<exists>r. trusted_prototype (untrusted_new (enc_parts (map rlp_enc ts))) = (Some (List (length ts)), r) \<and>
    cache_ok r \<and> rlp_bytes r = enc_parts (map rlp_enc ts)"
  using trusted_prototype_list [of "untrusted_new (enc_parts (map rlp_enc ts))"] assms
    enc_parts_items [OF assms] by simp

lemma enc_parts_at:
  assumes "length (enc_parts (map rlp_enc ts)) < 2 ^ 32" and "cache_ok r"
    and "rlp_bytes r = enc_parts (map rlp_enc ts)" and "i < length ts"
  shows "\<exists>r'. trusted_at r i = (Some (untrusted_new (rlp_enc (ts ! i))), r') \<and> cache_ok r' \<and>
    rlp_bytes r' = enc_parts (map rlp_enc ts)"
  using trusted_at_cached [OF assms(2), of i] assms enc_parts_items [OF assms(1)] by simp

lemma enc_parts_data:
  assumes "length (enc_parts (map rlp_enc ts)) < 2 ^ 32" and "RData b \<in> set ts"
  shows "trusted_data (untrusted_new (rlp_enc (RData b))) = Some b"
    and "is_empty (rlp_enc (RData b)) \<longleftrightarrow> b = []"
proof -
  have "length (rlp_enc (RData b)) \<le> length (concat (map rlp_enc ts))"
    using assms(2) by (rule length_concat_le)
  then have len: "length (rlp_enc (RData b)) < 2 ^ 64"
    using assms(1) by (simp add: enc_parts_def del: rlp_enc.simps)
  show "trusted_data (untrusted_new (rlp_enc (RData b))) = Some b"
    using len by (rule trusted_data_enc)
  show "is_empty (rlp_enc (RData b)) \<longleftrightarrow> b = []"
    using len by (rule is_empty_enc_RData)
qed

lemma node_decoded_pair:
  assumes "length (enc_parts (map rlp_enc [RData d, t])) < 2 ^ 32"
    and "ns_from_encoded d = Some (k, is_leaf)"
  shows "node_decoded (enc_parts (map rlp_enc [RData d, t])) =
    (if is_leaf then map_option (Leaf k) (trusted_data (untrusted_new (rlp_enc t)))
     else Some (Extension k (rlp_enc t)))"
proof -
  let ?ts = "[RData d, t]"
  obtain r where r: "trusted_prototype (untrusted_new (enc_parts (map rlp_enc ?ts))) = (Some (List 2), r)"
    "cache_ok r" "rlp_bytes r = enc_parts (map rlp_enc ?ts)"
    using enc_parts_view [OF assms(1)] by auto
  obtain r1 where r1: "trusted_at r 0 = (Some (untrusted_new (rlp_enc (RData d))), r1)"
    "cache_ok r1" "rlp_bytes r1 = enc_parts (map rlp_enc ?ts)"
    using enc_parts_at [OF assms(1) r(2,3), of 0] by auto
  obtain r2 where r2: "trusted_at r1 1 = (Some (untrusted_new (rlp_enc t)), r2)"
    using enc_parts_at [OF assms(1) r1(2,3), of 1] by auto
  have d: "trusted_data (untrusted_new (rlp_enc (RData d))) = Some d"
    using assms(1) by (rule enc_parts_data) simp
  show ?thesis
    unfolding node_decoded_def r(1) using r1(1) r2 d assms(2) by (simp del: rlp_enc.simps)
qed

lemma node_decoded_branch:
  assumes "length (enc_parts (map rlp_enc (ts @ [RData d]))) < 2 ^ 32" and "length ts = 16"
  shows "node_decoded (enc_parts (map rlp_enc (ts @ [RData d]))) =
    Some (Branch (map rlp_enc ts) (if d = [] then None else Some d))"
proof -
  let ?ts = "ts @ [RData d]"
  obtain r where r: "trusted_prototype (untrusted_new (enc_parts (map rlp_enc ?ts))) = (Some (List 17), r)"
    "cache_ok r" "rlp_bytes r = enc_parts (map rlp_enc ?ts)"
    using enc_parts_view [OF assms(1)] assms(2) by auto
  obtain r1 where r1: "raw_children r 0 16 = Some (map rlp_enc ts, r1)"
    "cache_ok r1" "rlp_bytes r1 = enc_parts (map rlp_enc ?ts)"
    using raw_children_items [OF r(2), of 0 16] r(3) enc_parts_items [OF assms(1)] assms by auto
  obtain r2 where r2: "trusted_at r1 16 = (Some (untrusted_new (rlp_enc (RData d))), r2)"
    "cache_ok r2" "rlp_bytes r2 = enc_parts (map rlp_enc ?ts)"
    using enc_parts_at [OF assms(1) r1(2,3), of 16] assms(2) by (auto simp: nth_append)
  obtain r3 where r3: "trusted_at r2 16 = (Some (untrusted_new (rlp_enc (RData d))), r3)"
    using enc_parts_at [OF assms(1) r2(2,3), of 16] assms(2) by (auto simp: nth_append)
  have "RData d \<in> set ?ts" by simp
  note d = enc_parts_data [OF assms(1) this]
  show ?thesis
    unfolding node_decoded_def r(1) using r1(1) r2(1) r3 d by (simp del: rlp_enc.simps)
qed

lemma node_decoded_Empty: "node_decoded [0x80] = Some Empty"
  by (simp add: node_decoded_def trusted_prototype_def rlp_prototype_def is_data_def is_null_def
      rlp_size_def basic_payload_info_def payload_info_from_def checked_add_def new_payload_info_def)

lemma node_roundtrip:
  assumes "node_ok n" and "node_encoded n = Some bs" and "length bs < 2 ^ 32"
  shows "\<exists>n'. node_decoded bs = Some n' \<and> node_eq n n'"
proof (cases n)
  case Empty
  then show ?thesis using assms by (auto simp: node_encoded_Empty node_decoded_Empty simp del: node_encoded.simps)
next
  case (Leaf k v)
  let ?d = "hex_prefix (ns_nibs k) True"
  have k: "ns_ok k" using assms(1) Leaf by simp
  have bs: "bs = enc_parts [code_enc (RData ?d), code_enc (RData v)]"
    using assms(2) Leaf node_encoded_Leaf [OF k] by (simp del: code_enc.simps)
  then have bs': "bs = enc_parts (map rlp_enc [RData ?d, RData v])"
    using code_enc_RData_short [OF assms(3) [unfolded bs]] by (simp del: code_enc.simps rlp_enc.simps)
  obtain k' where k': "ns_from_encoded ?d = Some (k', True)" "ns_ok k'" "ns_nibs k' = ns_nibs k"
    using from_encoded_hex_prefix [of "ns_nibs k" True] ns_nibs_less [of _ k] by blast
  have "trusted_data (untrusted_new (rlp_enc (RData v))) = Some v"
    using assms(3) unfolding bs' by (rule enc_parts_data) simp
  then show ?thesis
    using node_decoded_pair [OF assms(3) [unfolded bs'] k'(1)] k k' Leaf bs'
    by (simp add: ns_eq_nibs del: rlp_enc.simps)
next
  case (Extension k raw)
  let ?d = "hex_prefix (ns_nibs k) False"
  obtain t where k: "ns_ok k" and t: "raw = rlp_enc t" using assms(1) Extension by auto
  have bs: "bs = enc_parts [code_enc (RData ?d), raw]"
    using assms(2) Extension node_encoded_Extension [OF k] by (simp del: code_enc.simps)
  then have bs': "bs = enc_parts (map rlp_enc [RData ?d, t])"
    using code_enc_RData_short [OF assms(3) [unfolded bs]] t by (simp del: code_enc.simps rlp_enc.simps)
  obtain k' where k': "ns_from_encoded ?d = Some (k', False)" "ns_ok k'" "ns_nibs k' = ns_nibs k"
    using from_encoded_hex_prefix [of "ns_nibs k" False] ns_nibs_less [of _ k] by blast
  show ?thesis
    using node_decoded_pair [OF assms(3) [unfolded bs'] k'(1)] k k' Extension bs' t
    by (simp add: ns_eq_nibs del: rlp_enc.simps)
next
  case (Branch nodes v)
  then have len: "length nodes = 16" and v: "v \<noteq> Some []" and sub: "set nodes \<subseteq> range rlp_enc"
    using assms(1) by auto
  have "\<exists>ts. nodes = map rlp_enc ts" unfolding ex_map_conv using sub by blast
  then obtain ts where ts: "nodes = map rlp_enc ts" by blast
  let ?d = "case v of Some d \<Rightarrow> d | None \<Rightarrow> []"
  have empty: "[0x80] = code_enc (RData [])" by (simp add: code_header_def)
  have bs: "bs = enc_parts (nodes @ [code_enc (RData ?d)])"
    using assms(2) Branch node_encoded_Branch [OF len, of v] unfolding empty
    by (cases v) (simp_all del: code_enc.simps node_encoded.simps)
  then have bs': "bs = enc_parts (map rlp_enc (ts @ [RData ?d]))"
    using code_enc_RData_short [OF assms(3) [unfolded bs]] ts by (simp del: code_enc.simps rlp_enc.simps)
  have "(if ?d = [] then None else Some ?d) = v" using v by (cases v) auto
  then show ?thesis
    using node_decoded_branch [OF assms(3) [unfolded bs']] Branch bs' ts len by (simp del: rlp_enc.simps)
qed

section \<open>Properties\<close>

text \<open>C28. Node round trip: a trie node whose slices are in range, whose children are stored RLP
  items and whose branch value is not the empty string is encoded without a panic, and
  \<open>decoded\<close> reads the same node back from the bytes: same kind, same partial key nibble by
  nibble, same value and children.\<close>

theorem node_codec:
  assumes "node_ok n"
  shows "\<exists>bs. node_encoded n = Some bs \<and>
    (length bs < 2 ^ 32 \<longrightarrow> (\<exists>n'. node_decoded bs = Some n' \<and> node_eq n n'))"
proof -
  have "node_encoded n \<noteq> None"
  proof (cases n)
    case Empty
    then show ?thesis by (simp add: node_encoded_Empty del: node_encoded.simps)
  next
    case (Leaf k v)
    then show ?thesis using node_encoded_Leaf assms by (simp del: node_encoded.simps code_enc.simps)
  next
    case (Extension k raw)
    then show ?thesis using node_encoded_Extension assms by (simp del: node_encoded.simps code_enc.simps)
  next
    case (Branch nodes v)
    then show ?thesis using node_encoded_Branch assms by (simp del: node_encoded.simps code_enc.simps)
  qed
  with node_roundtrip [OF assms] show ?thesis by blast
qed

theorem node_codec_witness:
  "\<exists>bs. node_encoded (Extension (ns_new [0x12]) (rlp_enc (RData [7, 7]))) = Some bs \<and>
    (length bs < 2 ^ 32 \<longrightarrow> (\<exists>n'. node_decoded bs = Some n' \<and>
      node_eq (Extension (ns_new [0x12]) (rlp_enc (RData [7, 7]))) n'))"
  by (rule node_codec) (simp del: rlp_enc.simps)

end
