(* ===== verification/Blake2b.thy ===== *)
theory Blake2b
  imports Prelude "HOL-Library.Monad_Syntax"
begin

text \<open>
  The Blake2b hash: \<open>blake2b/src/blake2b_impl.rs\<close> and \<open>blake2b/src/lib.rs\<close>.

  \<open>blake_state\<close> is the struct \<open>Blake2b\<close>: chaining value, byte counter, flags and the double
  block buffer.  Arrays are lists of the array's length, updated by index; \<open>u64\<close> is
  \<open>64 word\<close> (the counter wraps, as in a release build).  The specification is \<open>absorb\<close>, the
  one-shot hash of a byte string block by block; the theory shows that buffering does not
  matter: any sequence of \<open>update\<close> calls followed by \<open>finalize\<close> is \<open>absorb\<close> of the
  concatenation.
\<close>

unbundle bit_operations_syntax

type_synonym u64 = "64 word"

section \<open>Constants\<close>

definition BLOCK_BYTES :: nat where "BLOCK_BYTES = 128"
definition KEY_BYTES :: nat where "KEY_BYTES = 64"
definition OUT_BYTES :: nat where "OUT_BYTES = 64"

definition IV :: "u64 list" where
  "IV = [0x6a09e667f3bcc908, 0xbb67ae8584caa73b, 0x3c6ef372fe94f82b, 0xa54ff53a5f1d36f1,
         0x510e527fade682d1, 0x9b05688c2b3e6c1f, 0x1f83d9abfb41bd6b, 0x5be0cd19137e2179]"

definition SIGMA_table :: "nat list list" where
  "SIGMA_table =
    [[0, 1, 2, 3, 4, 5, 6, 7, 8, 9, 10, 11, 12, 13, 14, 15],
     [14, 10, 4, 8, 9, 15, 13, 6, 1, 12, 0, 2, 11, 7, 5, 3],
     [11, 8, 12, 0, 5, 2, 15, 13, 10, 14, 3, 6, 7, 1, 9, 4],
     [7, 9, 3, 1, 13, 12, 11, 14, 2, 6, 5, 10, 4, 0, 15, 8],
     [9, 0, 5, 7, 2, 4, 10, 15, 14, 1, 11, 12, 6, 8, 3, 13],
     [2, 12, 6, 10, 0, 11, 8, 3, 4, 13, 7, 5, 15, 14, 1, 9],
     [12, 5, 1, 15, 14, 13, 4, 10, 0, 7, 6, 3, 9, 2, 8, 11],
     [13, 11, 7, 14, 12, 1, 3, 9, 5, 0, 15, 4, 8, 6, 2, 10],
     [6, 15, 14, 9, 11, 3, 0, 8, 12, 2, 13, 7, 1, 4, 10, 5],
     [10, 2, 8, 4, 7, 6, 1, 5, 15, 11, 9, 14, 3, 12, 13, 0],
     [0, 1, 2, 3, 4, 5, 6, 7, 8, 9, 10, 11, 12, 13, 14, 15],
     [14, 10, 4, 8, 9, 15, 13, 6, 1, 12, 0, 2, 11, 7, 5, 3]]"

section \<open>Words and bytes\<close>

definition load64 :: "bytes \<Rightarrow> u64" where
  "load64 b = foldl (\<lambda>v i. v OR push_bit (8 * i) (ucast (b ! i))) 0 [0..<8]"

fun store_bytes :: "nat \<Rightarrow> u64 \<Rightarrow> bytes" where
  "store_bytes 0 w = []"
| "store_bytes (Suc k) w = ucast w # store_bytes k (drop_bit 8 w)"

definition store64 :: "u64 \<Rightarrow> bytes" where
  "store64 v = store_bytes 8 v"

definition encode_params :: "byte \<Rightarrow> byte \<Rightarrow> bytes" where
  "encode_params sz keylen = [sz, keylen, 1, 1] @ replicate 60 0"

section \<open>The state\<close>

record blake_state =
  bl_h :: "u64 list"
  bl_t :: "u64 \<times> u64"
  bl_f :: "u64 \<times> u64"
  bl_buf :: bytes
  bl_buf_len :: nat

definition blake_init :: "bytes \<Rightarrow> blake_state" where
  "blake_init param =
     \<lparr>bl_h = map (\<lambda>i. IV ! i XOR load64 (drop (i * 8) param)) [0..<8],
      bl_t = (0, 0), bl_f = (0, 0), bl_buf = replicate (2 * BLOCK_BYTES) 0, bl_buf_len = 0\<rparr>"

definition blake_new :: "nat \<Rightarrow> blake_state option" where
  "blake_new sz =
     (if 0 < sz \<and> sz \<le> OUT_BYTES then Some (blake_init (encode_params (word_of_nat sz) 0)) else None)"

definition blake_with_params :: "bytes \<Rightarrow> blake_state option" where
  "blake_with_params param =
     (if 0 < unat (param ! 0) \<and> unat (param ! 0) \<le> OUT_BYTES then Some (blake_init param) else None)"

definition increment_counter :: "u64 \<Rightarrow> blake_state \<Rightarrow> blake_state" where
  "increment_counter inc s =
     (let t0 = fst (bl_t s) + inc; t1 = snd (bl_t s) + (if t0 < inc then 1 else 0)
      in s\<lparr>bl_t := (t0, t1)\<rparr>)"

definition mix ::
  "u64 list \<Rightarrow> nat \<Rightarrow> nat \<Rightarrow> nat \<Rightarrow> nat \<Rightarrow> nat \<Rightarrow> nat \<Rightarrow> u64 list \<Rightarrow> u64 list" where
  "mix m r i a b c d v =
     (let v = v[a := v ! a + v ! b + m ! (SIGMA_table ! r ! (2 * i + 0))];
          v = v[d := word_rotr 32 (v ! d XOR v ! a)];
          v = v[c := v ! c + v ! d];
          v = v[b := word_rotr 24 (v ! b XOR v ! c)];
          v = v[a := v ! a + v ! b + m ! (SIGMA_table ! r ! (2 * i + 1))];
          v = v[d := word_rotr 16 (v ! d XOR v ! a)];
          v = v[c := v ! c + v ! d];
          v = v[b := word_rotr 63 (v ! b XOR v ! c)]
      in v)"

definition blake_round :: "u64 list \<Rightarrow> nat \<Rightarrow> u64 list \<Rightarrow> u64 list" where
  "blake_round m r v =
     (let v = mix m r 0 0 4 8 12 v;
          v = mix m r 1 1 5 9 13 v;
          v = mix m r 2 2 6 10 14 v;
          v = mix m r 3 3 7 11 15 v;
          v = mix m r 4 0 5 10 15 v;
          v = mix m r 5 1 6 11 12 v;
          v = mix m r 6 2 7 8 13 v;
          v = mix m r 7 3 4 9 14 v
      in v)"

text \<open>The compression function of a chaining value, a block, the counter and the flags.\<close>

definition compress_words :: "u64 list \<Rightarrow> bytes \<Rightarrow> u64 \<times> u64 \<Rightarrow> u64 \<times> u64 \<Rightarrow> u64 list" where
  "compress_words h block t f =
     (let m = map (\<lambda>i. load64 (drop (i * 8) block)) [0..<16];
          v = take 8 h @ [IV ! 0, IV ! 1, IV ! 2, IV ! 3, fst t XOR IV ! 4, snd t XOR IV ! 5,
                fst f XOR IV ! 6, snd f XOR IV ! 7];
          v = fold (blake_round m) [0..<12] v
      in map (\<lambda>i. h ! i XOR v ! i XOR v ! (i + 8)) [0..<8])"

definition compress :: "blake_state \<Rightarrow> blake_state" where
  "compress s = s\<lparr>bl_h := compress_words (bl_h s) (bl_buf s) (bl_t s) (bl_f s)\<rparr>"

text \<open>\<open>for i in 0..xs.len() { buf[pos + i] = xs[i] }\<close>\<close>

definition copy_into :: "bytes \<Rightarrow> nat \<Rightarrow> bytes \<Rightarrow> bytes" where
  "copy_into buf pos xs = take pos buf @ xs @ drop (pos + length xs) buf"

text \<open>The first block is compressed and the second moves down.\<close>

definition flush_block :: "blake_state \<Rightarrow> blake_state" where
  "flush_block s =
     (let s = compress (increment_counter (word_of_nat BLOCK_BYTES) s)
      in s\<lparr>bl_buf := copy_into (bl_buf s) 0 (take BLOCK_BYTES (drop BLOCK_BYTES (bl_buf s))),
           bl_buf_len := bl_buf_len s - BLOCK_BYTES\<rparr>)"

definition buffer_all :: "bytes \<Rightarrow> blake_state \<Rightarrow> blake_state" where
  "buffer_all xs s =
     s\<lparr>bl_buf := copy_into (bl_buf s) (bl_buf_len s) xs, bl_buf_len := bl_buf_len s + length xs\<rparr>"

function update :: "blake_state \<Rightarrow> bytes \<Rightarrow> blake_state" where
  "update s m =
     (if m = [] then s
      else let left = bl_buf_len s; fill = 2 * BLOCK_BYTES - left in
        if fill < length m then
          update (flush_block (buffer_all (take fill m) s)) (drop fill m)
        else buffer_all m s)"
  by auto
termination
  by (relation "measure (\<lambda>(s, m). 2 * length m + bl_buf_len s)")
    (auto simp: flush_block_def buffer_all_def compress_def increment_counter_def BLOCK_BYTES_def Let_def)

declare update.simps [simp del]

text \<open>\<open>finalize\<close> writes \<open>min (out.len(), OUT_BYTES)\<close> bytes of the chaining value.\<close>

definition last_block :: "blake_state \<Rightarrow> blake_state" where
  "last_block s =
     (let s = (if BLOCK_BYTES < bl_buf_len s then flush_block s else s);
          s = increment_counter (word_of_nat (bl_buf_len s)) s;
          s = s\<lparr>bl_f := (NOT 0, snd (bl_f s)),
                bl_buf := take (bl_buf_len s) (bl_buf s) @ replicate (length (bl_buf s) - bl_buf_len s) 0\<rparr>
      in compress s)"

definition finalize :: "blake_state \<Rightarrow> nat \<Rightarrow> bytes \<times> blake_state" where
  "finalize s out_len =
     (let s = last_block s; buf = concat (map store64 (bl_h s))
      in (take (min out_len OUT_BYTES) buf, s))"

definition blake_new_with_key :: "nat \<Rightarrow> bytes \<Rightarrow> blake_state option" where
  "blake_new_with_key sz key =
     (if 0 < sz \<and> sz \<le> OUT_BYTES \<and> 0 < length key \<and> length key \<le> KEY_BYTES then
        (let b = blake_init (encode_params (word_of_nat sz) (word_of_nat (length key)));
             block = copy_into (replicate BLOCK_BYTES 0) 0 key
         in Some (update b block))
      else None)"

definition hash_256 :: "bytes \<Rightarrow> bytes option" where
  "hash_256 input_bytes = do { h \<leftarrow> blake_new 32; Some (fst (finalize (update h input_bytes) 32)) }"

section \<open>Entry points\<close>

definition blake2b :: "bytes \<Rightarrow> bytes option" where
  "blake2b s = do { b \<leftarrow> blake_new 32; Some (fst (finalize (update b s) 32)) }"

text \<open>\<open>blake2b_buffer\<close> reads chunks of at most 1024 bytes until the reader returns none; the
  reader is the list of what its successive \<open>read\<close> calls return, \<open>Inl\<close> an I/O error.\<close>

fun update_from :: "blake_state \<Rightarrow> ('e + bytes) list \<Rightarrow> 'e + blake_state" where
  "update_from b [] = Inr b"
| "update_from b (Inl e # rs) = Inl e"
| "update_from b (Inr chunk # rs) = (if chunk = [] then Inr b else update_from (update b chunk) rs)"

definition blake2b_buffer :: "('e + bytes) list \<Rightarrow> ('e + bytes) option" where
  "blake2b_buffer r =
     do { b \<leftarrow> blake_new 32;
          Some (case update_from b r of Inl e \<Rightarrow> Inl e | Inr b \<Rightarrow> Inr (fst (finalize b 32))) }"

definition BLAKE2B_EMPTY :: bytes where
  "BLAKE2B_EMPTY =
    [0x0e, 0x57, 0x51, 0xc0, 0x26, 0xe5, 0x43, 0xb2, 0xe8, 0xab, 0x2e, 0xb0, 0x60, 0x99, 0xda, 0xa1,
     0xd1, 0xe5, 0xdf, 0x47, 0x77, 0x8f, 0x77, 0x87, 0xfa, 0xab, 0x45, 0xcd, 0xf1, 0x2f, 0xe3, 0xa8]"

definition BLAKE2B_NULL_RLP :: bytes where
  "BLAKE2B_NULL_RLP =
    [0x45, 0xb0, 0xcf, 0xc2, 0x20, 0xce, 0xec, 0x5b, 0x7c, 0x1c, 0x62, 0xc4, 0xd4, 0x19, 0x3d, 0x38,
     0xe4, 0xeb, 0xa4, 0x8e, 0x88, 0x15, 0x72, 0x9c, 0xe7, 0x5f, 0x9c, 0x0a, 0xb0, 0xe4, 0xc1, 0xc0]"

definition BLAKE2B_EMPTY_LIST_RLP :: bytes where
  "BLAKE2B_EMPTY_LIST_RLP =
    [0xda, 0x22, 0x3b, 0x09, 0x96, 0x7c, 0x5b, 0xd2, 0x11, 0x07, 0x43, 0x30, 0x7e, 0x0a, 0xf6, 0xd3,
     0x9f, 0x61, 0x72, 0x0a, 0xa7, 0x21, 0x8a, 0x64, 0x0a, 0x08, 0xee, 0xd1, 0x2d, 0xd5, 0x75, 0xc7]"

section \<open>The hash of a byte string, block by block\<close>

definition counter_add :: "u64 \<times> u64 \<Rightarrow> u64 \<Rightarrow> u64 \<times> u64" where
  "counter_add t inc = (fst t + inc, snd t + (if fst t + inc < inc then 1 else 0))"

definition pad_block :: "bytes \<Rightarrow> bytes" where
  "pad_block xs = xs @ replicate (BLOCK_BYTES - length xs) 0"

text \<open>Every block but the last is compressed with the flags \<open>(f0, f1)\<close>; the last one, of 1 to
  128 bytes (or none), zero padded, with the finalization flag set.\<close>

function absorb :: "u64 list \<Rightarrow> u64 \<times> u64 \<Rightarrow> u64 \<times> u64 \<Rightarrow> bytes \<Rightarrow> u64 list" where
  "absorb h t f xs =
     (if BLOCK_BYTES < length xs then
        let t = counter_add t (word_of_nat BLOCK_BYTES) in
          absorb (compress_words h (take BLOCK_BYTES xs) t f) t f (drop BLOCK_BYTES xs)
      else compress_words h (pad_block xs) (counter_add t (word_of_nat (length xs))) (NOT 0, snd f))"
  by auto
termination by (relation "measure (\<lambda>(h, t, f, xs). length xs)") (auto simp: BLOCK_BYTES_def)

declare absorb.simps [simp del]

lemma load64_take: "load64 b = load64 (take 8 b)"
  by (auto simp: load64_def intro!: foldl_cong)

lemma compress_words_block: "compress_words h block t f = compress_words h (take BLOCK_BYTES block) t f"
proof -
  have "load64 (drop (i * 8) block) = load64 (drop (i * 8) (take BLOCK_BYTES block))" if "i < 16" for i
  proof -
    have "take 8 (drop (i * 8) block) = take 8 (drop (i * 8) (take BLOCK_BYTES block))"
      using that by (simp add: BLOCK_BYTES_def drop_take)
    then show ?thesis by (metis load64_take)
  qed
  then have "map (\<lambda>i. load64 (drop (i * 8) block)) [0..<16] =
      map (\<lambda>i. load64 (drop (i * 8) (take BLOCK_BYTES block))) [0..<16]"
    by (intro map_cong) auto
  then show ?thesis unfolding compress_words_def by (simp only:)
qed

section \<open>The buffered state\<close>

text \<open>\<open>pending s\<close>: the bytes read but not compressed.  \<open>blake_ok\<close>: the buffer has its size and
  the length is in range.  \<open>digest s xs\<close>: the chaining value of hashing \<open>xs\<close> from here on.\<close>

definition pending :: "blake_state \<Rightarrow> bytes" where
  "pending s = take (bl_buf_len s) (bl_buf s)"

definition blake_ok :: "blake_state \<Rightarrow> bool" where
  "blake_ok s \<longleftrightarrow> length (bl_buf s) = 2 * BLOCK_BYTES \<and> bl_buf_len s \<le> 2 * BLOCK_BYTES"

definition digest :: "blake_state \<Rightarrow> bytes \<Rightarrow> u64 list" where
  "digest s xs = absorb (bl_h s) (bl_t s) (bl_f s) (pending s @ xs)"

lemma bl_t_increment: "bl_t (increment_counter inc s) = counter_add (bl_t s) inc"
  by (simp add: increment_counter_def counter_add_def Let_def)

lemma increment_counter_keeps [simp]:
  "bl_h (increment_counter inc s) = bl_h s" "bl_f (increment_counter inc s) = bl_f s"
  "bl_buf (increment_counter inc s) = bl_buf s" "bl_buf_len (increment_counter inc s) = bl_buf_len s"
  by (simp_all add: increment_counter_def Let_def)

lemma compress_keeps [simp]:
  "bl_t (compress s) = bl_t s" "bl_f (compress s) = bl_f s"
  "bl_buf (compress s) = bl_buf s" "bl_buf_len (compress s) = bl_buf_len s"
  by (simp_all add: compress_def)

lemma buffer_all_ok:
  assumes "blake_ok s" and "bl_buf_len s + length xs \<le> 2 * BLOCK_BYTES"
  shows "blake_ok (buffer_all xs s)" and "pending (buffer_all xs s) = pending s @ xs"
    and "digest (buffer_all xs s) ys = digest s (xs @ ys)"
proof -
  show "blake_ok (buffer_all xs s)"
    using assms by (simp add: blake_ok_def buffer_all_def copy_into_def)
  show p: "pending (buffer_all xs s) = pending s @ xs"
    using assms by (simp add: pending_def blake_ok_def buffer_all_def copy_into_def)
  show "digest (buffer_all xs s) ys = digest s (xs @ ys)"
    unfolding digest_def p by (simp add: buffer_all_def)
qed

lemma flush_block_ok:
  assumes ok: "blake_ok s" and len: "BLOCK_BYTES < length (pending s @ xs)" "BLOCK_BYTES \<le> bl_buf_len s"
  shows "blake_ok (flush_block s)" and "digest (flush_block s) xs = digest s xs"
proof -
  have buf: "length (bl_buf s) = 2 * BLOCK_BYTES" "bl_buf_len s \<le> 2 * BLOCK_BYTES"
    using ok by (simp_all add: blake_ok_def)
  show "blake_ok (flush_block s)"
    using buf by (simp add: blake_ok_def flush_block_def copy_into_def Let_def)
  have split: "pending s = take BLOCK_BYTES (bl_buf s) @ pending (flush_block s)"
    using buf len(2) append_take_drop_id [of BLOCK_BYTES "take (bl_buf_len s) (bl_buf s)"]
    by (simp add: pending_def flush_block_def copy_into_def Let_def min_absorb1 flip: drop_take)
  have "length (take BLOCK_BYTES (bl_buf s)) = BLOCK_BYTES" using buf by simp
  then have "take BLOCK_BYTES (pending s @ xs) = take BLOCK_BYTES (bl_buf s)"
    "drop BLOCK_BYTES (pending s @ xs) = pending (flush_block s) @ xs"
    unfolding split by simp_all
  then have "digest s xs = absorb (compress_words (bl_h s) (bl_buf s) (counter_add (bl_t s) (word_of_nat BLOCK_BYTES)) (bl_f s))
      (counter_add (bl_t s) (word_of_nat BLOCK_BYTES)) (bl_f s) (pending (flush_block s) @ xs)"
    using len(1) compress_words_block [of _ "bl_buf s"] unfolding digest_def
    by (subst absorb.simps) (simp add: Let_def)
  then show "digest (flush_block s) xs = digest s xs"
    by (simp add: digest_def flush_block_def Let_def compress_def bl_t_increment)
qed

lemma update_ok: "blake_ok s \<Longrightarrow> blake_ok (update s m) \<and> digest (update s m) xs = digest s (m @ xs)"
proof (induction s m rule: update.induct)
  case (1 s m)
  let ?fill = "2 * BLOCK_BYTES - bl_buf_len s"
  have len: "bl_buf_len s \<le> 2 * BLOCK_BYTES" using 1(2) by (simp add: blake_ok_def)
  show ?case
  proof (cases "m = [] \<or> \<not> ?fill < length m")
    case True
    then show ?thesis
      using 1(2) buffer_all_ok [OF 1(2), of m] len by (subst (1 2) update.simps) (auto simp: Let_def)
  next
    case False
    let ?b = "buffer_all (take ?fill m) s"
    have fits: "bl_buf_len s + length (take ?fill m) \<le> 2 * BLOCK_BYTES" using len False by simp
    note b = buffer_all_ok [OF 1(2) fits]
    have full: "bl_buf_len ?b = 2 * BLOCK_BYTES" using len False by (simp add: buffer_all_def)
    have "length (pending ?b) = 2 * BLOCK_BYTES" using full b(1) by (simp add: pending_def blake_ok_def)
    then have more: "BLOCK_BYTES < length (pending ?b @ drop ?fill m @ xs)" "BLOCK_BYTES \<le> bl_buf_len ?b"
      using full by (simp_all add: BLOCK_BYTES_def)
    note f = flush_block_ok [OF b(1) more]
    have "update s m = update (flush_block ?b) (drop ?fill m)"
      using False by (subst update.simps) (simp add: Let_def)
    moreover have "digest (flush_block ?b) (drop ?fill m @ xs) = digest s (m @ xs)"
      unfolding f(2) b(3) by (metis append_assoc append_take_drop_id)
    ultimately show ?thesis
      using 1(1) [OF _ refl refl] False f(1) by simp
  qed
qed

lemma final_compress:
  assumes "blake_ok s" and "bl_buf_len s \<le> BLOCK_BYTES"
  shows "bl_h (compress ((increment_counter (word_of_nat (bl_buf_len s)) s)\<lparr>bl_f := (NOT 0, snd (bl_f s)),
      bl_buf := take (bl_buf_len s) (bl_buf s) @ replicate (length (bl_buf s) - bl_buf_len s) 0\<rparr>)) = digest s []"
proof -
  let ?buf = "take (bl_buf_len s) (bl_buf s) @ replicate (length (bl_buf s) - bl_buf_len s) (0 :: byte)"
  have len: "length (bl_buf s) = 2 * BLOCK_BYTES" using assms(1) by (simp add: blake_ok_def)
  have p: "length (pending s) = bl_buf_len s" using assms len by (simp add: pending_def)
  have "take BLOCK_BYTES ?buf = pad_block (pending s)"
    using assms(2) len by (simp add: pad_block_def pending_def min_absorb1 take_replicate)
  then have "compress_words (bl_h s) ?buf (counter_add (bl_t s) (word_of_nat (bl_buf_len s))) (NOT 0, snd (bl_f s)) = digest s []"
    using assms(2) p compress_words_block [of _ ?buf] unfolding digest_def
    by (subst absorb.simps) simp
  then show ?thesis by (simp add: compress_def bl_t_increment)
qed

lemma last_block_digest:
  assumes "blake_ok s"
  shows "bl_h (last_block s) = digest s []"
proof (cases "BLOCK_BYTES < bl_buf_len s")
  case False
  then show ?thesis
    using final_compress [OF assms] by (simp add: last_block_def Let_def)
next
  case True
  then have "BLOCK_BYTES < length (pending s @ [])" "BLOCK_BYTES \<le> bl_buf_len s"
    using assms by (auto simp: pending_def blake_ok_def)
  note f = flush_block_ok [OF assms this]
  have "bl_buf_len (flush_block s) \<le> BLOCK_BYTES"
    using assms by (auto simp: blake_ok_def flush_block_def Let_def BLOCK_BYTES_def)
  from final_compress [OF f(1) this] f(2) True show ?thesis
    by (simp add: last_block_def Let_def)
qed

lemma blake_init_ok [simp]: "blake_ok (blake_init param)" "pending (blake_init param) = []"
  by (simp_all add: blake_ok_def blake_init_def pending_def)

text \<open>The output of the hash: the bytes of the chaining value, cut to the requested length.\<close>

definition out_bytes :: "nat \<Rightarrow> u64 list \<Rightarrow> bytes" where
  "out_bytes n h = take (min n OUT_BYTES) (concat (map store64 h))"

lemma digest_init: "digest (blake_init param) xs = absorb (bl_h (blake_init param)) (0, 0) (0, 0) xs"
  by (simp add: digest_def) (simp add: blake_init_def)

lemma finalize_digest: "blake_ok s \<Longrightarrow> fst (finalize s n) = out_bytes n (digest s [])"
  by (simp add: finalize_def out_bytes_def Let_def last_block_digest)

definition one_shot :: "bytes \<Rightarrow> nat \<Rightarrow> bytes \<Rightarrow> bytes" where
  "one_shot param n xs =
     out_bytes n (absorb (bl_h (blake_init param)) (0, 0) (0, 0) xs)"

lemma updates_digest: "blake_ok s \<Longrightarrow> blake_ok (foldl update s ms) \<and> digest (foldl update s ms) xs = digest s (concat ms @ xs)"
proof (induction ms arbitrary: s)
  case (Cons m ms)
  then show ?case using update_ok [OF Cons.prems] by simp
qed simp

lemma length_store_bytes [simp]: "length (store_bytes k w) = k"
  by (induction k arbitrary: w) auto

lemma length_compress_words [simp]: "length (compress_words h b t f) = 8"
  by (simp add: compress_words_def Let_def)

lemma length_absorb [simp]: "length (absorb h t f xs) = 8"
proof (induction h t f xs rule: absorb.induct)
  case (1 h t f xs)
  then show ?case by (subst absorb.simps) (simp add: Let_def)
qed

lemma length_out_bytes [simp]: "length h = 8 \<Longrightarrow> length (out_bytes n h) = min n OUT_BYTES"
  by (simp add: out_bytes_def store64_def length_concat o_def sum_list_triv OUT_BYTES_def)

text \<open>\<open>blake2b\<close> never panics; \<open>blake2b_key\<close> is its value.\<close>

lemma blake2b_total: "blake2b s \<noteq> None"
  by (simp add: blake2b_def blake_new_def OUT_BYTES_def)

definition blake2b_key :: "bytes \<Rightarrow> bytes" where
  "blake2b_key s = (case blake2b s of Some h \<Rightarrow> h | None \<Rightarrow> [])"

lemma length_blake2b_key [simp]: "length (blake2b_key s) = 32"
  using update_ok [of "blake_init (encode_params 32 0)" s]
  by (simp add: blake2b_key_def blake2b_def blake_new_def OUT_BYTES_def finalize_digest digest_def)

section \<open>Properties\<close>

text \<open>C30. Buffering is transparent: however the input is cut into \<open>update\<close> calls, empty ones and
  ones crossing block boundaries included, \<open>finalize\<close> returns the one-shot Blake2b hash of the
  concatenated input, of the requested length.\<close>

theorem streaming_hash:
  assumes "0 < n" and "n \<le> 64"
  shows "\<exists>s. blake_new n = Some s \<and>
    fst (finalize (foldl update s ms) n) = one_shot (encode_params (word_of_nat n) 0) n (concat ms) \<and>
    length (fst (finalize (foldl update s ms) n)) = n"
proof -
  let ?s = "blake_init (encode_params (word_of_nat n) 0)"
  have "fst (finalize (foldl update ?s ms) n) = one_shot (encode_params (word_of_nat n) 0) n (concat ms)"
    using updates_digest [of ?s ms "[]"] finalize_digest [of "foldl update ?s ms" n]
    by (simp add: one_shot_def digest_init)
  then show ?thesis
    using assms by (simp add: blake_new_def OUT_BYTES_def one_shot_def)
qed

theorem streaming_hash_witness:
  "\<exists>s. blake_new 32 = Some s \<and>
    fst (finalize (foldl update s [[1, 2], [], replicate 300 7]) 32) =
      one_shot (encode_params (word_of_nat 32) 0) 32 (concat [[1, 2], [], replicate 300 7]) \<and>
    length (fst (finalize (foldl update s [[1, 2], [], replicate 300 7]) 32)) = 32"
  by (rule streaming_hash) simp_all

text \<open>\<open>blake2b_buffer\<close> agrees with \<open>blake2b\<close>: reading an input through a reader in non-empty
  chunks up to the end of file gives the hash of the whole input, and an I/O error before the
  end is returned as such, so a partial input is never hashed.\<close>

theorem buffer_hash:
  assumes "[] \<notin> set cs"
  shows "blake2b_buffer (map Inr cs @ [Inr []]) = map_option (Inr :: bytes \<Rightarrow> 'e + bytes) (blake2b (concat cs)) \<and>
    blake2b_buffer (map Inr cs @ [Inl e]) = Some (Inl e)"
proof -
  let ?s = "blake_init (encode_params (word_of_nat 32) 0)"
  have new: "blake_new 32 = Some ?s" by (simp add: blake_new_def OUT_BYTES_def)
  have whole: "update_from s (map Inr cs @ [Inr [] :: 'f + bytes]) = Inr (foldl update s cs)"
    "update_from s (map Inr cs @ [Inl x :: 'f + bytes]) = Inl x" for s and x :: 'f
    using assms by (induction cs arbitrary: s) auto
  have "fst (finalize (foldl update ?s cs) 32) = fst (finalize (update ?s (concat cs)) 32)"
    using updates_digest [of ?s cs "[]"] update_ok [of ?s "concat cs" "[]"]
    by (simp add: finalize_digest)
  then show ?thesis by (simp add: blake2b_buffer_def blake2b_def new whole)
qed

theorem buffer_hash_witness:
  "blake2b_buffer (map Inr [[1], [2, 3]] @ [Inr []]) = map_option (Inr :: bytes \<Rightarrow> unit + bytes) (blake2b (concat [[1], [2, 3]])) \<and>
    blake2b_buffer (map Inr [[1], [2, 3]] @ [Inl ()]) = Some (Inl ())"
  by (rule buffer_hash) simp

end
