(* ===== verification/Memory_DB.thy ===== *)
theory Memory_DB
  imports Rlp_Impls Blake2b
begin

text \<open>
  The reference-counted in-memory store: \<open>db/core/src/memorydb.rs\<close>, and the trait
  \<open>HashStore\<close> of \<open>db/core/src/traits/hashstore.rs\<close> as the locale \<open>hash_store\<close>.

  The map \<open>H256FastMap<(DBValue, i32)>\<close> is a partial map from keys to a value and a count.
  Counts are \<open>i32\<close>: integers with the wrap-around of \<open>+=\<close> written out (\<open>add_i32\<close>).
  The hash function is an argument of \<open>insert\<close>; the code passes \<open>blake2b\<close>.

  The promise of the store is arithmetic: the count of a key is the number of inserts minus
  the number of removals, whatever their order, and a value is found exactly when the count
  is positive, under the key that is its hash.
\<close>

section \<open>Counts and keys\<close>

definition add_i32 :: "int \<Rightarrow> int \<Rightarrow> int" where
  "add_i32 a b = (a + b + 2 ^ 31) mod 2 ^ 32 - 2 ^ 31"

definition NULL_RLP :: bytes where
  "NULL_RLP = [0x80]"

section \<open>\<open>MemoryDB\<close>\<close>

type_synonym memory_db = "bytes \<rightharpoonup> bytes \<times> int"

definition mdb_new :: memory_db where
  "mdb_new = Map.empty"

text \<open>The inherent \<open>get\<close>, which ignores the count.  It takes a slice; \<open>from_slice\<close> is the conversion
  \<open>H256::from\<close> of slices, which comes from a macro of another crate.\<close>

definition mdb_get_any :: "(bytes \<Rightarrow> bytes) \<Rightarrow> memory_db \<Rightarrow> bytes \<Rightarrow> bytes option" where
  "mdb_get_any from_slice m key = map_option fst (m (from_slice key))"

definition mdb_clear :: "memory_db \<Rightarrow> memory_db" where
  "mdb_clear m = Map.empty"

definition mdb_purge :: "memory_db \<Rightarrow> memory_db" where
  "mdb_purge m = (\<lambda>k. case m k of Some (v, rc) \<Rightarrow> if rc \<noteq> 0 then Some (v, rc) else None | None \<Rightarrow> None)"

definition mdb_drain :: "memory_db \<Rightarrow> memory_db \<times> memory_db" where
  "mdb_drain m = (m, Map.empty)"

definition mdb_raw :: "memory_db \<Rightarrow> bytes \<Rightarrow> (bytes \<times> int) option" where
  "mdb_raw m key = (if key = BLAKE2B_NULL_RLP then Some (NULL_RLP, 1) else m key)"

definition mdb_remove_and_purge :: "memory_db \<Rightarrow> bytes \<Rightarrow> bytes option \<times> memory_db" where
  "mdb_remove_and_purge m key =
     (if key = BLAKE2B_NULL_RLP then (None, m)
      else case m key of
        Some (v, rc) \<Rightarrow> if rc = 1 then (Some v, m(key := None)) else (None, m(key \<mapsto> (v, add_i32 rc (-1))))
      | None \<Rightarrow> (None, m(key \<mapsto> ([], -1))))"

text \<open>One turn of the loop of \<open>consolidate\<close>; the loop visits the entries of \<open>other\<close> in the
  order of the hash map, which is not specified: the list is any enumeration of them.\<close>

definition consolidate_entry :: "bytes \<times> bytes \<times> int \<Rightarrow> memory_db \<Rightarrow> memory_db" where
  "consolidate_entry e m =
     (case e of (key, value, rc) \<Rightarrow>
        (case m key of
           Some (old, old_rc) \<Rightarrow> m(key \<mapsto> (if old_rc < 0 then value else old, add_i32 old_rc rc))
         | None \<Rightarrow> m(key \<mapsto> (value, rc))))"

definition mdb_consolidate :: "memory_db \<Rightarrow> (bytes \<times> bytes \<times> int) list \<Rightarrow> memory_db" where
  "mdb_consolidate m entries = fold consolidate_entry entries m"

text \<open>The methods of the \<open>HashStore\<close> implementation.\<close>

definition mdb_get :: "memory_db \<Rightarrow> bytes \<Rightarrow> bytes option" where
  "mdb_get m key =
     (if key = BLAKE2B_NULL_RLP then Some NULL_RLP
      else case m key of Some (d, rc) \<Rightarrow> if rc > 0 then Some d else None | None \<Rightarrow> None)"

definition mdb_keys :: "memory_db \<Rightarrow> bytes \<rightharpoonup> int" where
  "mdb_keys m = (\<lambda>k. case m k of Some (v, rc) \<Rightarrow> if rc \<noteq> 0 then Some rc else None | None \<Rightarrow> None)"

definition mdb_contains :: "memory_db \<Rightarrow> bytes \<Rightarrow> bool" where
  "mdb_contains m key =
     (if key = BLAKE2B_NULL_RLP then True
      else case m key of Some (_, x) \<Rightarrow> x > 0 | None \<Rightarrow> False)"

definition bump_entry :: "memory_db \<Rightarrow> bytes \<Rightarrow> bytes \<Rightarrow> memory_db" where
  "bump_entry m key value =
     (case m key of
        Some (old_value, rc) \<Rightarrow>
          m(key \<mapsto> (if -0x80000000 \<le> rc \<and> rc \<le> 0 then value else old_value, add_i32 rc 1))
      | None \<Rightarrow> m(key \<mapsto> (value, 1)))"

definition mdb_insert :: "(bytes \<Rightarrow> bytes) \<Rightarrow> memory_db \<Rightarrow> bytes \<Rightarrow> bytes \<times> memory_db" where
  "mdb_insert hash m value =
     (if value = NULL_RLP then (BLAKE2B_NULL_RLP, m)
      else let key = hash value in (key, bump_entry m key value))"

definition mdb_emplace :: "memory_db \<Rightarrow> bytes \<Rightarrow> bytes \<Rightarrow> memory_db" where
  "mdb_emplace m key value = (if value = NULL_RLP then m else bump_entry m key value)"

definition mdb_remove :: "memory_db \<Rightarrow> bytes \<Rightarrow> memory_db" where
  "mdb_remove m key =
     (if key = BLAKE2B_NULL_RLP then m
      else case m key of
        Some (v, rc) \<Rightarrow> m(key \<mapsto> (v, add_i32 rc (-1)))
      | None \<Rightarrow> m(key \<mapsto> ([], -1)))"

section \<open>The contract of a hash store\<close>

text \<open>
  \<open>count\<close> is the abstract state.  The laws hold while counts stay in the \<open>i32\<close> range.  The
  null key is special: it is always present, and inserting or removing it does nothing.
\<close>

definition i32_room :: "int \<Rightarrow> bool" where
  "i32_room c \<longleftrightarrow> - (2 ^ 31) < c \<and> c < 2 ^ 31 - 1"

datatype store_op = Insert_Value bytes | Remove_Key bytes

fun store_step ::
  "('s \<Rightarrow> bytes \<Rightarrow> bytes \<times> 's) \<Rightarrow> ('s \<Rightarrow> bytes \<Rightarrow> 's) \<Rightarrow> store_op \<Rightarrow> 's \<Rightarrow> 's" where
  "store_step ins rem (Insert_Value v) s = snd (ins s v)"
| "store_step ins rem (Remove_Key k) s = rem s k"

text \<open>Inserts minus removals of a key.\<close>

fun tally :: "(bytes \<Rightarrow> bytes) \<Rightarrow> store_op list \<Rightarrow> bytes \<Rightarrow> int" where
  "tally hash [] k = 0"
| "tally hash (Insert_Value v # ops) k = (if v \<noteq> NULL_RLP \<and> hash v = k then 1 else 0) + tally hash ops k"
| "tally hash (Remove_Key r # ops) k = (if r \<noteq> BLAKE2B_NULL_RLP \<and> r = k then -1 else 0) + tally hash ops k"

locale hash_store =
  fixes hash :: "bytes \<Rightarrow> bytes"
    and ok :: "'s \<Rightarrow> bool"
    and count :: "'s \<Rightarrow> bytes \<Rightarrow> int"
    and get :: "'s \<Rightarrow> bytes \<Rightarrow> bytes option"
    and contains :: "'s \<Rightarrow> bytes \<Rightarrow> bool"
    and insert_value :: "'s \<Rightarrow> bytes \<Rightarrow> bytes \<times> 's"
    and remove_key :: "'s \<Rightarrow> bytes \<Rightarrow> 's"
  assumes insert_null: "insert_value s NULL_RLP = (BLAKE2B_NULL_RLP, s)"
    and insert_spec: "ok s \<Longrightarrow> v \<noteq> NULL_RLP \<Longrightarrow> i32_room (count s (hash v)) \<Longrightarrow>
      \<exists>s'. insert_value s v = (hash v, s') \<and> ok s' \<and>
        count s' = (count s)(hash v := count s (hash v) + 1)"
    and remove_null: "remove_key s BLAKE2B_NULL_RLP = s"
    and remove_spec: "ok s \<Longrightarrow> k \<noteq> BLAKE2B_NULL_RLP \<Longrightarrow> i32_room (count s k) \<Longrightarrow>
      ok (remove_key s k) \<and> count (remove_key s k) = (count s)(k := count s k - 1)"
    and get_null: "get s BLAKE2B_NULL_RLP = Some NULL_RLP"
    and get_iff: "ok s \<Longrightarrow> k \<noteq> BLAKE2B_NULL_RLP \<Longrightarrow> get s k \<noteq> None \<longleftrightarrow> 0 < count s k"
    and get_hash: "ok s \<Longrightarrow> k \<noteq> BLAKE2B_NULL_RLP \<Longrightarrow> get s k = Some v \<Longrightarrow> hash v = k"
    and contains_get: "contains s k \<longleftrightarrow> get s k \<noteq> None"
begin

lemma step_count:
  assumes "ok s" and "\<And>k. i32_room (count s k)"
  shows "ok (store_step insert_value remove_key op s) \<and>
    count (store_step insert_value remove_key op s) k = count s k + tally hash [op] k"
proof (cases op)
  case (Insert_Value v)
  then show ?thesis
    using assms insert_null [of s] insert_spec [of s v] by (cases "v = NULL_RLP") force+
next
  case (Remove_Key r)
  then show ?thesis
    using assms remove_null [of s] remove_spec [of s r] by (cases "r = BLAKE2B_NULL_RLP") auto
qed

lemma tally_Cons: "tally hash (op # ops) k = tally hash [op] k + tally hash ops k"
  by (cases op) auto

lemma tally_one: "\<bar>tally hash [op] k\<bar> \<le> 1"
  by (cases op) auto

lemma run_count:
  assumes "ok s" and "\<And>k. \<bar>count s k\<bar> + int (length ops) < 2 ^ 31 - 1"
  shows "ok (fold (store_step insert_value remove_key) ops s) \<and>
    count (fold (store_step insert_value remove_key) ops s) k = count s k + tally hash ops k"
  using assms
proof (induction ops arbitrary: s)
  case (Cons op ops)
  have "i32_room (count s k)" for k
    using Cons.prems(2) [of k] by (auto simp: i32_room_def)
  note step = step_count [OF Cons.prems(1) this, of op]
  have "\<bar>count (store_step insert_value remove_key op s) k\<bar> + int (length ops) < 2 ^ 31 - 1" for k
    using Cons.prems(2) [of k] step [of k] tally_one [of op k] by auto
  with Cons.IH step show ?case by (simp add: tally_Cons [of op ops])
qed simp

lemma run_lookup:
  assumes "ok s" and "\<And>k. count s k = 0" and "int (length ops) < 2 ^ 31 - 1"
    and "k \<noteq> BLAKE2B_NULL_RLP"
  shows "get (fold (store_step insert_value remove_key) ops s) k \<noteq> None \<longleftrightarrow> 0 < tally hash ops k"
    and "get (fold (store_step insert_value remove_key) ops s) k = Some v \<Longrightarrow> hash v = k"
  using run_count [of s ops k] assms get_iff get_hash by auto

end

section \<open>\<open>MemoryDB\<close> is a hash store\<close>

definition mdb_count :: "memory_db \<Rightarrow> bytes \<Rightarrow> int" where
  "mdb_count m k = (case m k of Some (_, rc) \<Rightarrow> rc | None \<Rightarrow> 0)"

text \<open>The invariant: an entry that is not in debt holds the value its key is the hash of.\<close>

definition mdb_ok :: "(bytes \<Rightarrow> bytes) \<Rightarrow> memory_db \<Rightarrow> bool" where
  "mdb_ok hash m \<longleftrightarrow> (\<forall>k v rc. m k = Some (v, rc) \<longrightarrow> 0 \<le> rc \<longrightarrow> hash v = k)"

lemma add_i32_in_range: "- (2 ^ 31) \<le> a + b \<Longrightarrow> a + b < 2 ^ 31 \<Longrightarrow> add_i32 a b = a + b"
  by (simp add: add_i32_def)

lemma i32_room_step: "i32_room c \<Longrightarrow> add_i32 c 1 = c + 1 \<and> add_i32 c (-1) = c - 1"
  by (simp add: i32_room_def add_i32_in_range)

lemma mdb_count_upd [simp]: "mdb_count (m(k \<mapsto> (v, rc))) = (mdb_count m)(k := rc)"
  by (auto simp: mdb_count_def)

lemma mdb_count_SomeD: "m k = Some (v, rc) \<Longrightarrow> mdb_count m k = rc"
  by (simp add: mdb_count_def)

lemma bump_entry_ok:
  assumes "mdb_ok hash m" and "hash v = k" and "i32_room (mdb_count m k)"
  shows "mdb_ok hash (bump_entry m k v)" and "mdb_count (bump_entry m k v) = (mdb_count m)(k := mdb_count m k + 1)"
proof -
  show "mdb_ok hash (bump_entry m k v)"
    using assms i32_room_step [OF assms(3)]
    by (auto simp: mdb_ok_def bump_entry_def i32_room_def mdb_count_def split: option.splits if_splits)
  show "mdb_count (bump_entry m k v) = (mdb_count m)(k := mdb_count m k + 1)"
    using i32_room_step [OF assms(3)]
    by (auto simp: bump_entry_def mdb_count_SomeD split: option.split) (simp add: mdb_count_def)
qed

lemma mdb_remove_ok:
  assumes "mdb_ok hash m" and "k \<noteq> BLAKE2B_NULL_RLP" and "i32_room (mdb_count m k)"
  shows "mdb_ok hash (mdb_remove m k)" and "mdb_count (mdb_remove m k) = (mdb_count m)(k := mdb_count m k - 1)"
proof -
  show "mdb_ok hash (mdb_remove m k)"
    using assms i32_room_step [OF assms(3)]
    by (auto simp: mdb_ok_def mdb_remove_def mdb_count_def split: option.splits if_splits)
  show "mdb_count (mdb_remove m k) = (mdb_count m)(k := mdb_count m k - 1)"
    using assms(2) i32_room_step [OF assms(3)]
    by (auto simp: mdb_remove_def mdb_count_SomeD split: option.split) (simp add: mdb_count_def)
qed

lemma memory_db_store:
  "hash_store hash (mdb_ok hash) mdb_count mdb_get mdb_contains (mdb_insert hash) mdb_remove"
proof
  show "mdb_insert hash m NULL_RLP = (BLAKE2B_NULL_RLP, m)" for m
    by (simp add: mdb_insert_def)
  show "\<exists>m'. mdb_insert hash m v = (hash v, m') \<and> mdb_ok hash m' \<and>
      mdb_count m' = (mdb_count m)(hash v := mdb_count m (hash v) + 1)"
    if "mdb_ok hash m" "v \<noteq> NULL_RLP" "i32_room (mdb_count m (hash v))" for m v
    using bump_entry_ok [OF that(1) refl that(3)] that(2) by (simp add: mdb_insert_def Let_def)
  show "mdb_remove m BLAKE2B_NULL_RLP = m" for m
    by (simp add: mdb_remove_def)
  show "mdb_ok hash (mdb_remove m k) \<and> mdb_count (mdb_remove m k) = (mdb_count m)(k := mdb_count m k - 1)"
    if "mdb_ok hash m" "k \<noteq> BLAKE2B_NULL_RLP" "i32_room (mdb_count m k)" for m k
    using mdb_remove_ok [OF that] by blast
  show "mdb_get m BLAKE2B_NULL_RLP = Some NULL_RLP" for m
    by (simp add: mdb_get_def)
  show "mdb_get m k \<noteq> None \<longleftrightarrow> 0 < mdb_count m k" if "mdb_ok hash m" "k \<noteq> BLAKE2B_NULL_RLP" for m k
    using that by (auto simp: mdb_get_def mdb_count_def split: option.split)
  show "hash v = k" if "mdb_ok hash m" "k \<noteq> BLAKE2B_NULL_RLP" "mdb_get m k = Some v" for m k v
    using that by (auto simp: mdb_get_def mdb_ok_def split: option.splits if_splits)
  show "mdb_contains m k \<longleftrightarrow> mdb_get m k \<noteq> None" for m k
    by (auto simp: mdb_contains_def mdb_get_def split: option.split)
qed

text \<open>The store of the code is keyed by \<open>blake2b\<close>.\<close>

interpretation memory_db: hash_store blake2b_key "mdb_ok blake2b_key" mdb_count mdb_get mdb_contains
  "mdb_insert blake2b_key" mdb_remove
  by (rule memory_db_store)

section \<open>Consolidation and purging\<close>

lemma consolidate_entry_ok:
  assumes "mdb_ok hash m" and "0 \<le> rc \<longrightarrow> hash v = k"
    and "- (2 ^ 31) \<le> mdb_count m k + rc" and "mdb_count m k + rc < 2 ^ 31"
  shows "mdb_ok hash (consolidate_entry (k, v, rc) m)"
    and "mdb_count (consolidate_entry (k, v, rc) m) = (mdb_count m)(k := mdb_count m k + rc)"
proof -
  show "mdb_ok hash (consolidate_entry (k, v, rc) m)"
    using assms
    by (auto simp: mdb_ok_def consolidate_entry_def mdb_count_def add_i32_in_range split: option.splits if_splits)
  show "mdb_count (consolidate_entry (k, v, rc) m) = (mdb_count m)(k := mdb_count m k + rc)"
    using assms(3,4)
    by (auto simp: consolidate_entry_def mdb_count_SomeD add_i32_in_range split: option.split)
      (simp_all add: mdb_count_def)
qed

lemma consolidate_counts:
  assumes "distinct (map fst xs)" and "mdb_ok hash m"
    and "\<And>k v rc. (k, v, rc) \<in> set xs \<Longrightarrow> 0 \<le> rc \<Longrightarrow> hash v = k"
    and "\<And>k. - (2 ^ 31) \<le> mdb_count m k + mdb_count (map_of xs) k \<and> mdb_count m k + mdb_count (map_of xs) k < 2 ^ 31"
  shows "mdb_ok hash (mdb_consolidate m xs) \<and>
    mdb_count (mdb_consolidate m xs) k = mdb_count m k + mdb_count (map_of xs) k"
  using assms
proof (induction xs arbitrary: m)
  case Nil
  then show ?case by (simp add: mdb_consolidate_def mdb_count_def)
next
  case (Cons e xs)
  obtain key v rc where e: "e = (key, v, rc)" by (cases e) auto
  have fresh: "map_of xs key = None" using Cons.prems(1) e by (auto simp: map_of_eq_None_iff)
  then have total: "mdb_count (map_of (e # xs)) j = mdb_count (map_of xs) j + (if j = key then rc else 0)" for j
    by (simp add: e mdb_count_def)
  note room = Cons.prems(4) [unfolded total]
  have "mdb_count (map_of xs) key = 0" using fresh by (simp add: mdb_count_def)
  then have "- (2 ^ 31) \<le> mdb_count m key + rc" "mdb_count m key + rc < 2 ^ 31"
    using room [of key] by simp_all
  moreover have "0 \<le> rc \<longrightarrow> hash v = key" using Cons.prems(3) e by auto
  ultimately have ok: "mdb_ok hash (consolidate_entry e m)"
    and "mdb_count (consolidate_entry e m) = (mdb_count m)(key := mdb_count m key + rc)"
    using consolidate_entry_ok [OF Cons.prems(2), of rc v key] e by simp_all
  then have step: "mdb_count (consolidate_entry e m) j = mdb_count m j + (if j = key then rc else 0)" for j
    by simp
  have "- (2 ^ 31) \<le> mdb_count (consolidate_entry e m) j + mdb_count (map_of xs) j \<and>
      mdb_count (consolidate_entry e m) j + mdb_count (map_of xs) j < 2 ^ 31" for j
    using room [of j] unfolding step by (simp add: algebra_simps)
  then have "mdb_ok hash (mdb_consolidate (consolidate_entry e m) xs) \<and>
      mdb_count (mdb_consolidate (consolidate_entry e m) xs) k =
        mdb_count (consolidate_entry e m) k + mdb_count (map_of xs) k"
    using Cons.IH [of "consolidate_entry e m"] Cons.prems(1,3) ok by auto
  then show ?case
    unfolding total by (simp add: mdb_consolidate_def step)
qed

lemma mdb_remove_and_purge_ok:
  assumes "mdb_ok hash m" and "k \<noteq> BLAKE2B_NULL_RLP" and "i32_room (mdb_count m k)"
  shows "mdb_ok hash (snd (mdb_remove_and_purge m k))"
    and "mdb_count (snd (mdb_remove_and_purge m k)) = (mdb_count m)(k := mdb_count m k - 1)"
    and "fst (mdb_remove_and_purge m k) = (if mdb_count m k = 1 then mdb_get m k else None)"
proof -
  show "mdb_ok hash (snd (mdb_remove_and_purge m k))"
    using assms i32_room_step [OF assms(3)]
    by (auto simp: mdb_ok_def mdb_remove_and_purge_def mdb_count_def split: option.splits if_splits)
  show "mdb_count (snd (mdb_remove_and_purge m k)) = (mdb_count m)(k := mdb_count m k - 1)"
    using assms(2) i32_room_step [OF assms(3)]
    by (cases "m k") (auto simp: mdb_remove_and_purge_def mdb_count_def fun_eq_iff)
  show "fst (mdb_remove_and_purge m k) = (if mdb_count m k = 1 then mdb_get m k else None)"
    using assms(2) by (auto simp: mdb_remove_and_purge_def mdb_get_def mdb_count_def split: option.split)
qed

section \<open>Properties\<close>

text \<open>C27. Reference counting of \<open>MemoryDB\<close>: after any sequence of inserts and removals on a new
  store, in any order and shorter than \<open>2^31 - 1\<close>, a key other than the null key is found
  exactly when it was inserted more often than removed, even if removals came first, and the
  value found under it hashes to the key.\<close>

theorem memory_db_refcount:
  assumes "int (length ops) < 2 ^ 31 - 1" and "k \<noteq> BLAKE2B_NULL_RLP"
  shows "(mdb_get (fold (store_step (mdb_insert blake2b_key) mdb_remove) ops mdb_new) k \<noteq> None
      \<longleftrightarrow> 0 < tally blake2b_key ops k) \<and>
    (\<forall>v. mdb_get (fold (store_step (mdb_insert blake2b_key) mdb_remove) ops mdb_new) k = Some v
      \<longrightarrow> blake2b_key v = k)"
proof -
  have "mdb_ok blake2b_key mdb_new" "\<And>k. mdb_count mdb_new k = 0"
    by (simp_all add: mdb_ok_def mdb_new_def mdb_count_def)
  with memory_db.run_lookup [of mdb_new ops k] assms show ?thesis by blast
qed

theorem memory_db_refcount_witness:
  "mdb_get (fold (store_step (mdb_insert blake2b_key) mdb_remove) [Remove_Key [1], Insert_Value [2]] mdb_new) [1] = None"
proof -
  have "blake2b_key [2] \<noteq> [1]" using length_blake2b_key [of "[2]"] by (metis length_Cons list.size(3) num.simps(3) one_eq_numeral_iff One_nat_def)
  then show ?thesis
    using memory_db_refcount [of "[Remove_Key [1], Insert_Value [2]]" "[1]"]
    by (simp add: BLAKE2B_NULL_RLP_def)
qed

text \<open>\<open>consolidate\<close> adds the counts: whatever the order in which the hash map of \<open>other\<close> is
  visited, every key ends with the sum of its two counts, and the entries that are not in
  debt still hold the value their key is the hash of, although values are replaced only when
  the receiving count is negative.\<close>

theorem consolidate_adds:
  assumes "distinct (map fst xs)" and "mdb_ok hash m" and "mdb_ok hash (map_of xs)"
    and "\<And>k. - (2 ^ 31) \<le> mdb_count m k + mdb_count (map_of xs) k"
    and "\<And>k. mdb_count m k + mdb_count (map_of xs) k < 2 ^ 31"
  shows "mdb_ok hash (mdb_consolidate m xs) \<and>
    (\<forall>k. mdb_count (mdb_consolidate m xs) k = mdb_count m k + mdb_count (map_of xs) k)"
proof -
  have "hash v = k" if "(k, v, rc) \<in> set xs" "0 \<le> rc" for k v rc
    using assms(1,3) that unfolding mdb_ok_def by (metis map_of_is_SomeI)
  then show ?thesis using consolidate_counts [of xs hash m] assms by blast
qed

theorem consolidate_adds_witness:
  "mdb_ok (\<lambda>v. v) (mdb_consolidate [[1] \<mapsto> ([], -1), [2] \<mapsto> ([2], 1)] [([1], [1], 1), ([2], [2], 1)]) \<and>
    (\<forall>k. mdb_count (mdb_consolidate [[1] \<mapsto> ([], -1), [2] \<mapsto> ([2], 1)] [([1], [1], 1), ([2], [2], 1)]) k =
      mdb_count [[1] \<mapsto> ([], -1), [2] \<mapsto> ([2], 1)] k + mdb_count (map_of [([1], [1], 1), ([2], [2], 1)]) k)"
  by (rule consolidate_adds) (auto simp: mdb_ok_def mdb_count_def)

text \<open>Purging is invisible to lookups: \<open>purge\<close> drops exactly the entries of count zero, so
  \<open>get\<close>, \<open>contains\<close> and \<open>keys\<close> answer as before, and \<open>remove_and_purge\<close> changes the counts
  exactly as \<open>remove\<close> does, returning the value when it takes away the last reference.\<close>

theorem purge_transparent:
  assumes "mdb_ok hash m" and "k \<noteq> BLAKE2B_NULL_RLP" and "i32_room (mdb_count m k)"
  shows "mdb_get (mdb_purge m) = mdb_get m \<and> mdb_contains (mdb_purge m) = mdb_contains m \<and>
    mdb_keys (mdb_purge m) = mdb_keys m \<and> dom (mdb_purge m) = {j. mdb_count m j \<noteq> 0} \<and>
    mdb_count (snd (mdb_remove_and_purge m k)) = mdb_count (mdb_remove m k) \<and>
    fst (mdb_remove_and_purge m k) = (if mdb_count m k = 1 then mdb_get m k else None)"
proof -
  have "mdb_get (mdb_purge m) = mdb_get m" "mdb_contains (mdb_purge m) = mdb_contains m"
    "mdb_keys (mdb_purge m) = mdb_keys m"
    by (auto simp: mdb_get_def mdb_contains_def mdb_keys_def mdb_purge_def fun_eq_iff split: option.split)
  moreover have "dom (mdb_purge m) = {j. mdb_count m j \<noteq> 0}"
    by (auto simp: mdb_purge_def mdb_count_def split: option.splits if_splits)
  ultimately show ?thesis
    using mdb_remove_and_purge_ok [OF assms] mdb_remove_ok(2) [OF assms] by simp
qed

theorem purge_transparent_witness:
  "mdb_get (mdb_purge [[1] \<mapsto> ([1], 1), [2] \<mapsto> ([2], 0)]) = mdb_get [[1] \<mapsto> ([1], 1), [2] \<mapsto> ([2], 0)] \<and>
    mdb_contains (mdb_purge [[1] \<mapsto> ([1], 1), [2] \<mapsto> ([2], 0)]) = mdb_contains [[1] \<mapsto> ([1], 1), [2] \<mapsto> ([2], 0)] \<and>
    mdb_keys (mdb_purge [[1] \<mapsto> ([1], 1), [2] \<mapsto> ([2], 0)]) = mdb_keys [[1] \<mapsto> ([1], 1), [2] \<mapsto> ([2], 0)] \<and>
    dom (mdb_purge [[1] \<mapsto> ([1], 1), [2] \<mapsto> ([2], 0)]) = {j. mdb_count [[1] \<mapsto> ([1], 1), [2] \<mapsto> ([2], 0)] j \<noteq> 0} \<and>
    mdb_count (snd (mdb_remove_and_purge [[1] \<mapsto> ([1], 1), [2] \<mapsto> ([2], 0)] [1])) =
      mdb_count (mdb_remove [[1] \<mapsto> ([1], 1), [2] \<mapsto> ([2], 0)] [1]) \<and>
    fst (mdb_remove_and_purge [[1] \<mapsto> ([1], 1), [2] \<mapsto> ([2], 0)] [1]) =
      (if mdb_count [[1] \<mapsto> ([1], 1), [2] \<mapsto> ([2], 0)] [1] = 1 then mdb_get [[1] \<mapsto> ([1], 1), [2] \<mapsto> ([2], 0)] [1] else None)"
  by (rule purge_transparent [where hash = "\<lambda>v. v"])
    (auto simp: mdb_ok_def mdb_count_def BLAKE2B_NULL_RLP_def i32_room_def)

end
