(* ===== verification/Trie_Lookup.thy ===== *)
theory Trie_Lookup
  imports Trie_Node Memory_DB
begin

text \<open>
  Reading a Patricia trie: \<open>patricia_trie/src/lookup.rs\<close>, \<open>recorder.rs\<close>, the reading half of
  \<open>triedb.rs\<close>, \<open>sectriedb.rs\<close> and \<open>fatdb.rs\<close>, and the shared types of \<open>lib.rs\<close>.

  The backing \<open>HashStore\<close> of a read-only trie is its \<open>get\<close> and \<open>contains\<close>.  \<open>look_up_loop\<close> is
  the pair of nested loops of \<open>Lookup::look_up\<close>: a node reached by its hash (\<open>By_Hash\<close>) is
  fetched and recorded, a node held inline (\<open>Inline\<close>) is decoded where it is.  A store whose
  nodes refer to each other in a cycle keeps the code busy for ever; the loop is therefore a
  partial function, \<open>None\<close> when it does not return.  A panic is the outcome \<open>Panic\<close>.

  \<open>ptrie\<close> is the trie the nodes stand for, \<open>node_rep get d t\<close> says that the node \<open>d\<close> stands for
  \<open>t\<close> when hashes are resolved through \<open>get\<close>, and \<open>pt_lookup\<close> is the map the trie denotes.
  An item stands for the empty trie exactly when it is the empty string.
\<close>

section \<open>Errors and queries\<close>

datatype trie_error = InvalidStateRoot bytes | IncompleteDatabase bytes

record ('q, 'a) query =
  query_record :: "'q \<Rightarrow> bytes \<Rightarrow> bytes \<Rightarrow> nat \<Rightarrow> 'q option"
  query_decode :: "'q \<Rightarrow> bytes \<Rightarrow> 'a"

record trie_record =
  rec_depth :: nat
  rec_data :: bytes
  rec_hash :: bytes

record recorder =
  rec_nodes :: "trie_record list"
  rec_min_depth :: nat

definition recorder_with_depth :: "nat \<Rightarrow> recorder" where
  "recorder_with_depth depth = \<lparr>rec_nodes = [], rec_min_depth = depth\<rparr>"

definition recorder_new :: recorder where
  "recorder_new = recorder_with_depth 0"

text \<open>\<open>debug\<close>: whether debug assertions are compiled in; \<open>None\<close> is the failed assertion.\<close>

definition recorder_record ::
  "bool \<Rightarrow> (bytes \<Rightarrow> bytes) \<Rightarrow> recorder \<Rightarrow> bytes \<Rightarrow> bytes \<Rightarrow> nat \<Rightarrow> recorder option" where
  "recorder_record debug blake r hash data depth =
     (if debug \<and> blake data \<noteq> hash then None
      else if rec_min_depth r \<le> depth then
        Some (r\<lparr>rec_nodes := rec_nodes r @ [\<lparr>rec_depth = depth, rec_data = data, rec_hash = hash\<rparr>]\<rparr>)
      else Some r)"

definition recorder_drain :: "recorder \<Rightarrow> trie_record list \<times> recorder" where
  "recorder_drain r = (rec_nodes r, r\<lparr>rec_nodes := []\<rparr>)"

text \<open>The three implementations of \<open>Query\<close>: a function, a recorder, a recorder with a function.\<close>

definition query_fn :: "(bytes \<Rightarrow> 'a) \<Rightarrow> (unit, 'a) query" where
  "query_fn f = \<lparr>query_record = (\<lambda>q hash data depth. Some q), query_decode = (\<lambda>q value. f value)\<rparr>"

definition query_recorder_fn ::
  "bool \<Rightarrow> (bytes \<Rightarrow> bytes) \<Rightarrow> (bytes \<Rightarrow> 'a) \<Rightarrow> (recorder, 'a) query" where
  "query_recorder_fn debug blake f =
     \<lparr>query_record = recorder_record debug blake, query_decode = (\<lambda>q value. f value)\<rparr>"

definition query_recorder :: "bool \<Rightarrow> (bytes \<Rightarrow> bytes) \<Rightarrow> (recorder, bytes) query" where
  "query_recorder debug blake =
     \<lparr>query_record = recorder_record debug blake, query_decode = (\<lambda>q value. value)\<rparr>"

section \<open>\<open>Lookup\<close>\<close>

text \<open>What a child item is: \<open>Some (Some h)\<close> the hash of a node in the store, \<open>Some None\<close> the
  node itself, \<open>None\<close> a panic of \<open>as_val\<close>.\<close>

definition item_hash :: "bytes \<Rightarrow> bytes option option" where
  "item_hash item =
     (if is_data item \<and> rlp_size item = 32
      then map_option Some (result_ok (decode_hash 32 (untrusted_new item)))
      else Some None)"

text \<open>One turn of the inner loop: the answer, or the next item with the rest of the key.\<close>

datatype look_step = Found bytes | Missing | Next bytes nibble_slice

definition look_node :: "bytes \<Rightarrow> nibble_slice \<Rightarrow> look_step option" where
  "look_node node_data key =
     do { node \<leftarrow> node_decoded node_data;
          (case node of
             Leaf part v \<Rightarrow> do { eq \<leftarrow> ns_eq part key; Some (if eq then Found v else Missing) }
           | Extension part item \<Rightarrow>
               do { prefix \<leftarrow> ns_starts_with key part;
                    if prefix then do { l \<leftarrow> ns_len part; Some (Next item (ns_mid key l)) }
                    else Some Missing }
           | Branch children v \<Rightarrow>
               do { empty \<leftarrow> ns_is_empty key;
                    if empty then Some (case v of Some v \<Rightarrow> Found v | None \<Rightarrow> Missing)
                    else do { x \<leftarrow> ns_at key 0;
                              child \<leftarrow> nth_checked children (unat x);
                              Some (Next child (ns_mid key 1)) } }
           | Empty \<Rightarrow> Some Missing) }"

datatype place = By_Hash bytes | Inline bytes

partial_function (option) look_up_loop ::
  "('q, 'a) query \<Rightarrow> (bytes \<Rightarrow> bytes option) \<Rightarrow> nat \<Rightarrow> place \<Rightarrow> nibble_slice \<Rightarrow> 'q \<Rightarrow>
     ((trie_error, 'a option) outcome \<times> 'q) option" where
  "look_up_loop Q get depth place key q =
     (case place of
        By_Hash hash \<Rightarrow>
          (case get hash of
             None \<Rightarrow> Some (Err (if depth = 0 then InvalidStateRoot hash else IncompleteDatabase hash), q)
           | Some node_data \<Rightarrow>
               (case query_record Q q hash node_data depth of
                  None \<Rightarrow> Some (Panic, q)
                | Some q \<Rightarrow> look_up_loop Q get depth (Inline node_data) key q))
      | Inline node_data \<Rightarrow>
          (case look_node node_data key of
             None \<Rightarrow> Some (Panic, q)
           | Some (Found v) \<Rightarrow> Some (Ok (Some (query_decode Q q v)), q)
           | Some Missing \<Rightarrow> Some (Ok None, q)
           | Some (Next item key) \<Rightarrow>
               (case item_hash item of
                  None \<Rightarrow> Some (Panic, q)
                | Some (Some hash) \<Rightarrow> look_up_loop Q get (depth + 1) (By_Hash hash) key q
                | Some None \<Rightarrow> look_up_loop Q get depth (Inline item) key q)))"

definition look_up ::
  "('q, 'a) query \<Rightarrow> (bytes \<Rightarrow> bytes option) \<Rightarrow> bytes \<Rightarrow> nibble_slice \<Rightarrow> 'q \<Rightarrow>
     ((trie_error, 'a option) outcome \<times> 'q) option" where
  "look_up Q get hash key q = look_up_loop Q get 0 (By_Hash hash) key q"

section \<open>\<open>TrieDB\<close> and its wrappers\<close>

record trie_db =
  td_get :: "bytes \<Rightarrow> bytes option"
  td_contains :: "bytes \<Rightarrow> bool"
  td_root :: bytes
  td_hash_count :: nat

definition trie_db_new ::
  "(bytes \<Rightarrow> bytes option) \<Rightarrow> (bytes \<Rightarrow> bool) \<Rightarrow> bytes \<Rightarrow> (trie_error, trie_db) outcome" where
  "trie_db_new get contains root =
     (if \<not> contains root then Err (InvalidStateRoot root)
      else Ok \<lparr>td_get = get, td_contains = contains, td_root = root, td_hash_count = 0\<rparr>)"

definition root_data :: "trie_db \<Rightarrow> (trie_error, bytes) outcome" where
  "root_data t = (case td_get t (td_root t) of Some d \<Rightarrow> Ok d | None \<Rightarrow> Err (InvalidStateRoot (td_root t)))"

definition get_raw_or_lookup :: "trie_db \<Rightarrow> bytes \<Rightarrow> (trie_error, bytes) outcome" where
  "get_raw_or_lookup t node =
     (case item_hash node of
        None \<Rightarrow> Panic
      | Some (Some key) \<Rightarrow> (case td_get t key of Some d \<Rightarrow> Ok d | None \<Rightarrow> Err (IncompleteDatabase key))
      | Some None \<Rightarrow> Ok node)"

definition trie_get_with ::
  "trie_db \<Rightarrow> bytes \<Rightarrow> ('q, 'a) query \<Rightarrow> 'q \<Rightarrow> ((trie_error, 'a option) outcome \<times> 'q) option" where
  "trie_get_with t key Q q = look_up Q (td_get t) (td_root t) (ns_new key) q"

text \<open>The provided methods of the trait \<open>Trie\<close>; \<open>get_with\<close> is the implementation's own.\<close>

definition trie_get ::
  "(bytes \<Rightarrow> (unit, bytes) query \<Rightarrow> unit \<Rightarrow> ((trie_error, bytes option) outcome \<times> unit) option) \<Rightarrow>
     bytes \<Rightarrow> (trie_error, bytes option) outcome option" where
  "trie_get get_with key = map_option fst (get_with key (query_fn (\<lambda>v. v)) ())"

definition trie_contains ::
  "(bytes \<Rightarrow> (unit, bytes) query \<Rightarrow> unit \<Rightarrow> ((trie_error, bytes option) outcome \<times> unit) option) \<Rightarrow>
     bytes \<Rightarrow> (trie_error, bool) outcome option" where
  "trie_contains get_with key = map_option (omap (\<lambda>x. x \<noteq> None)) (trie_get get_with key)"

definition trie_is_empty :: "trie_db \<Rightarrow> bool" where
  "trie_is_empty t \<longleftrightarrow> td_root t = BLAKE2B_NULL_RLP"

text \<open>\<open>SecTrieDB\<close> and \<open>FatDB\<close> hash the key (\<open>blake\<close>) and hand it to the raw trie.\<close>

definition sec_get_with ::
  "(bytes \<Rightarrow> bytes) \<Rightarrow> trie_db \<Rightarrow> bytes \<Rightarrow> ('q, 'a) query \<Rightarrow> 'q \<Rightarrow>
     ((trie_error, 'a option) outcome \<times> 'q) option" where
  "sec_get_with blake raw key Q q = trie_get_with raw (blake key) Q q"

definition sec_contains :: "(bytes \<Rightarrow> bytes) \<Rightarrow> trie_db \<Rightarrow> bytes \<Rightarrow> (trie_error, bool) outcome option" where
  "sec_contains blake raw key = trie_contains (trie_get_with raw) (blake key)"

definition fat_get_with ::
  "(bytes \<Rightarrow> bytes) \<Rightarrow> trie_db \<Rightarrow> bytes \<Rightarrow> ('q, 'a) query \<Rightarrow> 'q \<Rightarrow>
     ((trie_error, 'a option) outcome \<times> 'q) option" where
  "fat_get_with blake raw key Q q = trie_get_with raw (blake key) Q q"

definition fat_contains :: "(bytes \<Rightarrow> bytes) \<Rightarrow> trie_db \<Rightarrow> bytes \<Rightarrow> (trie_error, bool) outcome option" where
  "fat_contains blake raw key = trie_contains (trie_get_with raw) (blake key)"

text \<open>\<open>TrieKinds\<close> and the factory: the same trie behind one of the three interfaces.\<close>

datatype trie_spec = SpecGeneric | SpecSecure | SpecFat

datatype trie_kinds = Generic trie_db | Secure trie_db | Fat trie_db

definition default_spec :: trie_spec where
  "default_spec = SpecSecure"

fun kinds_get_with ::
  "(bytes \<Rightarrow> bytes) \<Rightarrow> trie_kinds \<Rightarrow> bytes \<Rightarrow> ('q, 'a) query \<Rightarrow> 'q \<Rightarrow>
     ((trie_error, 'a option) outcome \<times> 'q) option" where
  "kinds_get_with blake (Generic t) key Q q = trie_get_with t key Q q"
| "kinds_get_with blake (Secure t) key Q q = sec_get_with blake t key Q q"
| "kinds_get_with blake (Fat t) key Q q = fat_get_with blake t key Q q"

fun kinds_contains :: "(bytes \<Rightarrow> bytes) \<Rightarrow> trie_kinds \<Rightarrow> bytes \<Rightarrow> (trie_error, bool) outcome option" where
  "kinds_contains blake (Generic t) key = trie_contains (trie_get_with t) key"
| "kinds_contains blake (Secure t) key = sec_contains blake t key"
| "kinds_contains blake (Fat t) key = fat_contains blake t key"

fun kinds_root :: "trie_kinds \<Rightarrow> bytes" where
  "kinds_root (Generic t) = td_root t"
| "kinds_root (Secure t) = td_root t"
| "kinds_root (Fat t) = td_root t"

fun factory_readonly ::
  "trie_spec \<Rightarrow> (bytes \<Rightarrow> bytes option) \<Rightarrow> (bytes \<Rightarrow> bool) \<Rightarrow> bytes \<Rightarrow> (trie_error, trie_kinds) outcome" where
  "factory_readonly SpecGeneric get contains root = omap Generic (trie_db_new get contains root)"
| "factory_readonly SpecSecure get contains root = omap Secure (trie_db_new get contains root)"
| "factory_readonly SpecFat get contains root = omap Fat (trie_db_new get contains root)"

definition factory_is_fat :: "trie_spec \<Rightarrow> bool" where
  "factory_is_fat spec \<longleftrightarrow> spec = SpecFat"

section \<open>The trie behind the nodes\<close>

datatype ptrie =
    PEmpty
  | PLeaf "byte list" bytes
  | PExt "byte list" ptrie
  | PBranch "ptrie list" "bytes option"

function pt_lookup :: "ptrie \<Rightarrow> byte list \<Rightarrow> bytes option" where
  "pt_lookup PEmpty ns = None"
| "pt_lookup (PLeaf k v) ns = (if k = ns then Some v else None)"
| "pt_lookup (PExt k t) ns = (if take (length k) ns = k then pt_lookup t (drop (length k) ns) else None)"
| "pt_lookup (PBranch ts v) [] = v"
| "pt_lookup (PBranch ts v) (x # ns) = (if unat x < length ts then pt_lookup (ts ! unat x) ns else None)"
  by pat_completeness auto
termination
  by (relation "measure (\<lambda>(t, ns). size t)")
    (auto simp: less_Suc_eq_le intro!: le_SucI size_list_estimation' [OF nth_mem order.refl])

inductive node_rep :: "(bytes \<Rightarrow> bytes option) \<Rightarrow> bytes \<Rightarrow> ptrie \<Rightarrow> bool"
  and item_rep :: "(bytes \<Rightarrow> bytes option) \<Rightarrow> bytes \<Rightarrow> ptrie \<Rightarrow> bool"
  for get where
  rep_Empty: "node_decoded d = Some Empty \<Longrightarrow> node_rep get d PEmpty"
| rep_Leaf: "node_decoded d = Some (Leaf k v) \<Longrightarrow> node_rep get d (PLeaf (ns_nibs k) v)"
| rep_Ext: "node_decoded d = Some (Extension k c) \<Longrightarrow> item_rep get c t \<Longrightarrow>
    node_rep get d (PExt (ns_nibs k) t)"
| rep_Branch: "node_decoded d = Some (Branch cs v) \<Longrightarrow> list_all2 (item_rep get) cs ts \<Longrightarrow>
    node_rep get d (PBranch ts v)"
| rep_Inline: "item_hash c = Some None \<Longrightarrow> is_empty c \<longleftrightarrow> t = PEmpty \<Longrightarrow> node_rep get c t \<Longrightarrow>
    item_rep get c t"
| rep_Hash: "item_hash c = Some (Some h) \<Longrightarrow> t \<noteq> PEmpty \<Longrightarrow> get h = Some d \<Longrightarrow> node_rep get d t \<Longrightarrow>
    item_rep get c t"

section \<open>What decoding promises of a node\<close>

lemma length_raw_children: "raw_children r i k = Some (xs, r') \<Longrightarrow> length xs = k"
  by (induction k arbitrary: r i xs r') (auto split: prod.splits bind_splits)

lemma from_encoded_ok:
  assumes "ns_from_encoded d = Some (s, is_leaf)"
  shows "ns_ok s" and "ns_suffix s = []"
proof -
  obtain b bs where d: "d = b # bs"
    using assms by (cases d) (auto simp: ns_from_encoded_def nth_checked_def)
  show "ns_ok s" "ns_suffix s = []"
    using assms unfolding d by (auto simp: ns_from_encoded_def ns_new_offset_def ns_ok_def)
qed

definition node_wf :: "node \<Rightarrow> bool" where
  "node_wf n \<longleftrightarrow>
     (case n of Empty \<Rightarrow> True
      | Leaf s v \<Rightarrow> ns_ok s \<and> ns_suffix s = []
      | Extension s c \<Rightarrow> ns_ok s \<and> ns_suffix s = []
      | Branch cs v \<Rightarrow> length cs = 16)"

lemma node_decoded_wf:
  assumes "node_decoded d = Some n"
  shows "node_wf n"
proof -
  obtain p r where p: "trusted_prototype (untrusted_new d) = (Some p, r)"
    using assms by (auto simp: node_decoded_def split: prod.splits option.splits)
  show ?thesis
  proof (cases p)
    case (Data n')
    then show ?thesis
      using assms p by (cases n') (auto simp: node_decoded_def node_wf_def)
  next
    case (List n')
    consider "n' = 2" | "n' = 17" | "n' \<noteq> 2" "n' \<noteq> 17" by blast
    then show ?thesis
    proof cases
      case 1
      then show ?thesis
        using assms p List
        by (auto simp: node_decoded_def node_wf_def from_encoded_ok
            split: prod.splits bind_splits if_splits)
    next
      case 2
      then show ?thesis
        using assms p List
        by (auto simp: node_decoded_def node_wf_def length_raw_children
            split: prod.splits bind_splits if_splits)
    qed (use assms p List in \<open>auto simp: node_decoded_def\<close>)
  qed (use assms p in \<open>auto simp: node_decoded_def\<close>)
qed

section \<open>One turn of the loop\<close>

definition plain_key :: "nibble_slice \<Rightarrow> bool" where
  "plain_key key \<longleftrightarrow> ns_ok key \<and> ns_suffix key = []"

lemma plain_key_new [simp]: "plain_key (ns_new key)"
  by (simp add: plain_key_def) (simp add: ns_new_def ns_new_offset_def)

lemma plain_key_mid:
  assumes "plain_key key" and "i \<le> length (ns_nibs key)"
  shows "plain_key (ns_mid key i)" and "ns_nibs (ns_mid key i) = drop i (ns_nibs key)"
  using assms ns_mid_nibs [of key i] by (simp_all add: plain_key_def) (simp add: ns_mid_def)

lemma take_prefix_iff: "(\<exists>zs. xs = ys @ zs) \<longleftrightarrow> take (length ys) xs = ys"
  by (metis append_eq_conv_conj append_take_drop_id)

lemma length_take_prefix: "take (length ys) xs = ys \<Longrightarrow> length ys \<le> length xs"
  by (metis length_take min.cobounded1)

lemma look_node_Empty: "node_decoded d = Some Empty \<Longrightarrow> look_node d key = Some Missing"
  by (simp add: look_node_def)

lemma look_node_Leaf:
  assumes "node_decoded d = Some (Leaf k v)" and "plain_key key"
  shows "look_node d key = Some (if ns_nibs k = ns_nibs key then Found v else Missing)"
  using node_decoded_wf [OF assms(1)] assms
  by (simp add: look_node_def node_wf_def plain_key_def ns_eq_nibs)

lemma look_node_Extension:
  assumes "node_decoded d = Some (Extension k c)" and "plain_key key"
  shows "look_node d key =
    Some (if take (length (ns_nibs k)) (ns_nibs key) = ns_nibs k
          then Next c (ns_mid key (length (ns_nibs k))) else Missing)"
  using node_decoded_wf [OF assms(1)] assms
  by (simp add: look_node_def node_wf_def plain_key_def ns_starts_with_nibs ns_view take_prefix_iff)

lemma look_node_Branch:
  assumes "node_decoded d = Some (Branch cs v)" and "plain_key key"
  shows "look_node d key =
    Some (case ns_nibs key of
            [] \<Rightarrow> (case v of Some v \<Rightarrow> Found v | None \<Rightarrow> Missing)
          | x # _ \<Rightarrow> Next (cs ! unat x) (ns_mid key 1))"
proof (cases "ns_nibs key")
  case Nil
  then show ?thesis using assms by (simp add: look_node_def ns_is_empty_def plain_key_def ns_view)
next
  case (Cons x xs)
  then have "unat x < 16" using ns_nibs_less [of x key] by simp
  then show ?thesis
    using Cons assms node_decoded_wf [OF assms(1)] ns_at_nibs [of key 0]
    by (simp add: look_node_def ns_is_empty_def plain_key_def length_ns_nibs node_wf_def)
qed

lemmas look_nodes = look_node_Empty look_node_Leaf look_node_Extension look_node_Branch

section \<open>Lookup in a store that may miss nodes\<close>

text \<open>What a lookup may answer when the complete store \<open>full\<close> answers \<open>r\<close>.\<close>

definition answers ::
  "(bytes \<Rightarrow> bytes option) \<Rightarrow> (bytes \<Rightarrow> bytes option) \<Rightarrow> 'a option \<Rightarrow> (trie_error, 'a option) outcome \<Rightarrow> bool" where
  "answers full get x r \<longleftrightarrow>
     r = Ok x \<or> (\<exists>h. r = Err (IncompleteDatabase h) \<and> get h = None \<and> full h \<noteq> None)"

lemma query_fn_simps [simp]:
  "query_record (query_fn f) q h d n = Some q" "query_decode (query_fn f) q v = f v"
  by (simp_all add: query_fn_def)

lemmas loop_simps = look_up_loop.simps [of _ _ _ "Inline d" for d] look_up_loop.simps [of _ _ _ "By_Hash h" for h]

lemma look_up_loop_rep:
  assumes "get \<subseteq>\<^sub>m full"
  shows "node_rep full d t \<Longrightarrow> (\<And>key depth. plain_key key \<Longrightarrow>
      \<exists>r. look_up_loop (query_fn f) get depth (Inline d) key () = Some (r, ()) \<and>
        answers full get (map_option f (pt_lookup t (ns_nibs key))) r)"
    and "item_rep full c t \<Longrightarrow> (\<And>key depth. plain_key key \<Longrightarrow>
      \<exists>r. (case item_hash c of
             None \<Rightarrow> Some (Panic, ())
           | Some (Some hash) \<Rightarrow> look_up_loop (query_fn f) get (depth + 1) (By_Hash hash) key ()
           | Some None \<Rightarrow> look_up_loop (query_fn f) get depth (Inline c) key ()) = Some (r, ()) \<and>
        answers full get (map_option f (pt_lookup t (ns_nibs key))) r)"
proof (induction rule: node_rep_item_rep.inducts)
  case (rep_Empty d)
  then show ?case by (simp add: loop_simps look_nodes answers_def)
next
  case (rep_Leaf d k v)
  then show ?case by (simp add: loop_simps look_nodes answers_def)
next
  case (rep_Ext d k c t)
  show ?case
  proof (cases "take (length (ns_nibs k)) (ns_nibs key) = ns_nibs k")
    case True
    note mid = plain_key_mid [OF rep_Ext.prems length_take_prefix [OF True]]
    show ?thesis
      using rep_Ext.IH(2) [OF mid(1), of depth] rep_Ext.hyps(1) rep_Ext.prems True mid(2)
      by (simp add: loop_simps(1) look_nodes)
  next
    case False
    then show ?thesis
      using rep_Ext by (simp add: loop_simps look_nodes answers_def)
  qed
next
  case (rep_Branch d cs v ts)
  show ?case
  proof (cases "ns_nibs key")
    case Nil
    then show ?thesis
      using rep_Branch by (cases v) (simp_all add: loop_simps look_nodes answers_def)
  next
    case (Cons x xs)
    then have "unat x < length cs"
      using ns_nibs_less [of x key] node_decoded_wf [OF rep_Branch.hyps(1)] by (simp add: node_wf_def)
    moreover have "ns_nibs (ns_mid key 1) = xs" "plain_key (ns_mid key 1)"
      using plain_key_mid [OF rep_Branch.prems, of 1] Cons by simp_all
    moreover from this have "\<exists>r. (case item_hash (cs ! unat x) of
             None \<Rightarrow> Some (Panic, ())
           | Some (Some hash) \<Rightarrow> look_up_loop (query_fn f) get (depth + 1) (By_Hash hash) (ns_mid key 1) ()
           | Some None \<Rightarrow> look_up_loop (query_fn f) get depth (Inline (cs ! unat x)) (ns_mid key 1) ()) = Some (r, ()) \<and>
        answers full get (map_option f (pt_lookup (ts ! unat x) xs)) r"
      using list_all2_nthD [OF rep_Branch.IH \<open>unat x < length cs\<close>] by blast
    ultimately show ?thesis
      using rep_Branch.IH Cons rep_Branch.hyps(1) rep_Branch.prems
      by (simp add: loop_simps(1) look_nodes list_all2_lengthD [symmetric] del: One_nat_def)
  qed
next
  case (rep_Inline c t)
  then show ?case by simp
next
  case (rep_Hash c h t d)
  show ?case
  proof (cases "get h")
    case None
    then show ?thesis using rep_Hash by (simp add: loop_simps(2) answers_def)
  next
    case (Some d')
    then have "d' = d" using assms rep_Hash by (metis domI map_le_def option.inject)
    then show ?thesis
      using Some rep_Hash by (simp add: loop_simps(2))
  qed
qed

lemma look_up_rep:
  assumes "get \<subseteq>\<^sub>m full" and "full root = Some d" and "node_rep full d t" and "plain_key key"
  shows "\<exists>r. look_up (query_fn f) get root key () = Some (r, ()) \<and>
    (if get root = None then r = Err (InvalidStateRoot root)
     else answers full get (map_option f (pt_lookup t (ns_nibs key))) r)"
proof (cases "get root")
  case None
  then show ?thesis by (simp add: look_up_def loop_simps(2))
next
  case (Some d')
  then have "d' = d" using assms by (metis domI map_le_def option.inject)
  then show ?thesis
    using Some look_up_loop_rep(1) [OF assms(1,3,4), of f 0] by (simp add: look_up_def loop_simps(2))
qed

section \<open>More nodes in the store, and proofs of a lookup\<close>

lemmas loop_induct = look_up_loop.raw_induct [rotated, consumes 1, case_names step]

lemma look_up_loop_mono:
  assumes "look_up_loop Q get depth place key q = Some (r, q')" and "get \<subseteq>\<^sub>m full" and "is_ok r"
  shows "look_up_loop Q full depth place key q = Some (r, q')"
proof -
  have "get \<subseteq>\<^sub>m full \<longrightarrow> is_ok (fst y) \<longrightarrow> look_up_loop Q full depth place key q = Some y"
    if "look_up_loop Q get depth place key q = Some y" for y
    using that
  proof (induction Q get depth place key q y rule: loop_induct)
    case (step loop Q get depth place key q y)
    show ?case
    proof (cases place)
      case (By_Hash h)
      show ?thesis
      proof (intro impI)
        assume le: "get \<subseteq>\<^sub>m full" and ok: "is_ok (fst y)"
        have "get h \<noteq> None" using step.hyps ok By_Hash by (auto split: option.splits)
        then obtain d where d: "get h = Some d" "full h = Some d"
          using le by (metis domI map_le_def not_None_eq)
        show "look_up_loop Q full depth place key q = Some y"
          using step.hyps step.IH le ok d By_Hash by (auto simp: loop_simps(2) split: option.splits)
      qed
    next
      case (Inline d)
      then show ?thesis
        using step.hyps step.IH
        by (cases y, subst look_up_loop.simps) (auto split: option.splits look_step.splits)
    qed
  qed
  from this [OF assms(1)] assms show ?thesis by simp
qed

definition proof_store :: "trie_record list \<Rightarrow> bytes \<Rightarrow> bytes option" where
  "proof_store recs = map_of (map (\<lambda>r. (rec_hash r, rec_data r)) recs)"

lemma proof_store_of:
  assumes "\<forall>r \<in> set recs. get (rec_hash r) = Some (rec_data r)" and "r \<in> set recs"
  shows "proof_store recs (rec_hash r) = Some (rec_data r)"
  using assms by (induction recs) (auto simp: proof_store_def)

text \<open>What a recorded lookup leaves behind: the records it appended are nodes of the store, and a
  store that has them answers as this one did.\<close>

definition recorded ::
  "(bytes \<Rightarrow> 'a) \<Rightarrow> (bytes \<Rightarrow> bytes option) \<Rightarrow> nat \<Rightarrow> place \<Rightarrow> nibble_slice \<Rightarrow> recorder \<Rightarrow>
     (trie_error, 'a option) outcome \<times> recorder \<Rightarrow> bool" where
  "recorded f get depth place key q y \<longleftrightarrow>
     (\<exists>recs. rec_nodes (snd y) = rec_nodes q @ recs \<and>
        (\<forall>r \<in> set recs. get (rec_hash r) = Some (rec_data r)) \<and>
        (\<forall>get'. is_ok (fst y) \<longrightarrow> (\<forall>r \<in> set recs. get' (rec_hash r) = Some (rec_data r)) \<longrightarrow>
           look_up_loop (query_fn f) get' depth place key () = Some (fst y, ())))"

lemma query_recorder_simps [simp]:
  "query_record (query_recorder_fn debug blake f) = recorder_record debug blake"
  "query_decode (query_recorder_fn debug blake f) q v = f v"
  by (simp_all add: query_recorder_fn_def)

lemma recorder_record_cases:
  assumes "recorder_record debug blake q h d depth = Some q'" and "rec_min_depth q \<le> depth"
  shows "rec_nodes q' = rec_nodes q @ [\<lparr>rec_depth = depth, rec_data = d, rec_hash = h\<rparr>]"
    and "rec_min_depth q' = rec_min_depth q"
  using assms by (auto simp: recorder_record_def split: if_splits)

lemma loop_stops:
  "look_node d key = None \<Longrightarrow> look_up_loop Q get depth (Inline d) key q = Some (Panic, q)"
  "look_node d key = Some (Found v) \<Longrightarrow>
     look_up_loop Q get depth (Inline d) key q = Some (Ok (Some (query_decode Q q v)), q)"
  "look_node d key = Some Missing \<Longrightarrow> look_up_loop Q get depth (Inline d) key q = Some (Ok None, q)"
  by (subst look_up_loop.simps, simp)+

lemma loop_next:
  "look_node d key = Some (Next item key') \<Longrightarrow> item_hash item = Some None \<Longrightarrow>
     look_up_loop Q get depth (Inline d) key q = look_up_loop Q get depth (Inline item) key' q"
  "look_node d key = Some (Next item key') \<Longrightarrow> item_hash item = Some (Some h) \<Longrightarrow>
     look_up_loop Q get depth (Inline d) key q = look_up_loop Q get (depth + 1) (By_Hash h) key' q"
  by (subst look_up_loop.simps, simp)+

lemma recorded_next:
  assumes "\<And>get'. look_up_loop (query_fn f) get' depth place key () =
      look_up_loop (query_fn f) get' depth' place' key' ()"
    and "recorded f get depth' place' key' q y"
  shows "recorded f get depth place key q y"
  using assms by (simp add: recorded_def)

lemma recorded_loop:
  assumes "look_up_loop (query_recorder_fn debug blake f) get depth place key q = Some y"
    and "rec_min_depth q \<le> depth"
  shows "recorded f get depth place key q y"
proof -
  have "Q = query_recorder_fn debug blake f \<longrightarrow> rec_min_depth q \<le> depth \<longrightarrow>
      recorded f get depth place key q y"
    if "look_up_loop Q get depth place key q = Some y" for Q y
    using that
  proof (induction Q get depth place key q y rule: loop_induct)
    case (step loop Q get depth place key q y)
    show ?case
    proof (intro impI)
      assume Q: "Q = query_recorder_fn debug blake f" and min: "rec_min_depth q \<le> depth"
      show "recorded f get depth place key q y"
      proof (cases place)
        case (Inline d)
        consider "look_node d key = None" | v where "look_node d key = Some (Found v)"
          | "look_node d key = Some Missing" | item key' where "look_node d key = Some (Next item key')"
          by (metis option.exhaust look_step.exhaust)
        then show ?thesis
        proof cases
          case 4
          obtain a b where y: "y = (a, b)" by (cases y)
          consider "item_hash item = None" | "item_hash item = Some None"
            | h where "item_hash item = Some (Some h)" by (metis option.exhaust)
          then show ?thesis
          proof cases
            case 1
            then show ?thesis using step.hyps 4 Inline by (auto simp: recorded_def)
          next
            case 2
            then have "recorded f get depth (Inline item) key' q y"
              using step.hyps step.IH 4 Q min Inline y by auto
            then show ?thesis unfolding Inline by (rule recorded_next [OF loop_next(1) [OF 4 2]])
          next
            case 3
            then have "recorded f get (depth + 1) (By_Hash h) key' q y"
              using step.hyps step.IH 4 Q min Inline y by auto
            then show ?thesis unfolding Inline by (rule recorded_next [OF loop_next(2) [OF 4 3]])
          qed
        qed (use step.hyps Inline Q in \<open>auto simp: recorded_def loop_stops\<close>)
      next
        case (By_Hash h)
        show ?thesis
        proof (cases "get h")
          case None
          then show ?thesis using step.hyps By_Hash by (auto simp: recorded_def)
        next
          case (Some d)
          show ?thesis
          proof (cases "recorder_record debug blake q h d depth")
            case None
            then show ?thesis using step.hyps By_Hash Some Q by (auto simp: recorded_def)
          next
            case q1: (Some q1)
            note q1' = recorder_record_cases [OF q1 min]
            have "recorded f get depth (Inline d) key q1 y"
              using step.hyps step.IH By_Hash Some Q q1 q1' min by auto
            then obtain recs where recs: "rec_nodes (snd y) = rec_nodes q1 @ recs"
              "\<forall>r \<in> set recs. get (rec_hash r) = Some (rec_data r)"
              "\<And>get'. is_ok (fst y) \<Longrightarrow> (\<forall>r \<in> set recs. get' (rec_hash r) = Some (rec_data r)) \<Longrightarrow>
                 look_up_loop (query_fn f) get' depth (Inline d) key () = Some (fst y, ())"
              by (auto simp: recorded_def)
            show ?thesis
              unfolding recorded_def By_Hash
              by (rule exI [of _ "\<lparr>rec_depth = depth, rec_data = d, rec_hash = h\<rparr> # recs"])
                (use recs q1'(1) Some in \<open>auto simp: loop_simps(2)\<close>)
          qed
        qed
      qed
    qed
  qed
  from this [OF assms(1)] assms(2) show ?thesis by simp
qed

section \<open>Nodes of a trie as bytes\<close>

lemma decoded_leaf_bytes:
  assumes "length (enc_parts (map rlp_enc [RData (hex_prefix ns True), RData v])) < 2 ^ 32"
    and "\<forall>x \<in> set ns. unat x < 16"
  shows "\<exists>s. node_decoded (enc_parts (map rlp_enc [RData (hex_prefix ns True), RData v])) = Some (Leaf s v) \<and>
    ns_nibs s = ns"
proof -
  obtain s where s: "ns_from_encoded (hex_prefix ns True) = Some (s, True)" "ns_nibs s = ns"
    using from_encoded_hex_prefix [OF assms(2)] by blast
  have "trusted_data (untrusted_new (rlp_enc (RData v))) = Some v"
    using assms(1) by (rule enc_parts_data) simp
  then show ?thesis
    using node_decoded_pair [OF assms(1) s(1)] s(2) by (simp del: rlp_enc.simps)
qed

definition leaf_node :: bytes where
  "leaf_node = enc_parts (map rlp_enc [RData (hex_prefix (nibbles [0xab]) True), RData [7]])"

definition leaf_trie :: trie_db where
  "leaf_trie =
     \<lparr>td_get = [[1] \<mapsto> leaf_node], td_contains = (\<lambda>h. h = [1]), td_root = [1], td_hash_count = 0\<rparr>"

lemma length_leaf_node: "length leaf_node < 2 ^ 32"
  by (simp add: leaf_node_def enc_parts_def hex_prefix_def code_header_def rlp_header_def byte_len_def bit_len.simps)

lemma leaf_node_not_null: "leaf_node \<noteq> [0x80]"
proof
  assume "leaf_node = [0x80]"
  then have "length leaf_node = length [0x80 :: byte]" by (rule arg_cong)
  then show False by (simp add: leaf_node_def enc_parts_def code_header_def split: if_splits)
qed

lemma leaf_node_decoded:
  "\<exists>s. node_decoded leaf_node = Some (Leaf s [7]) \<and> ns_nibs s = nibbles [0xab]"
  using decoded_leaf_bytes [of "nibbles [0xab]" "[7]"] length_leaf_node nibbles_less [of _ "[0xab]"]
  by (auto simp: leaf_node_def simp del: rlp_enc.simps)

lemma leaf_trie_rep [simp]:
  "node_rep get leaf_node (PLeaf (nibbles [0xab]) [7])" "td_get leaf_trie [1] = Some leaf_node"
  "td_root leaf_trie = [1]"
  using leaf_node_decoded rep_Leaf [of leaf_node _ "[7]" get] by (fastforce simp: leaf_trie_def)+

lemma leaf_look_node [simp]: "look_node leaf_node (ns_new [0xab]) = Some (Found [7])"
  using leaf_node_decoded look_node_Leaf [of leaf_node _ "[7]" "ns_new [0xab]"] by auto

section \<open>Properties\<close>

text \<open>C18. A read through any of the three interfaces returns what the stored trie denotes: if the
  root node stands for the trie \<open>p\<close>, \<open>get\<close> of a generic trie is the value of \<open>p\<close> at the nibbles
  of the key, and that of a secure or fat trie its value at the nibbles of the hashed key;
  \<open>contains\<close> says whether there is one.  The loops end, without an error or a panic.\<close>

theorem trie_get_denotes:
  assumes "td_get t (td_root t) = Some d" and "node_rep (td_get t) d p"
  shows "trie_get (kinds_get_with blake (Generic t)) key = Some (Ok (pt_lookup p (nibbles key))) \<and>
    trie_get (kinds_get_with blake (Secure t)) key = Some (Ok (pt_lookup p (nibbles (blake key)))) \<and>
    trie_get (kinds_get_with blake (Fat t)) key = Some (Ok (pt_lookup p (nibbles (blake key)))) \<and>
    kinds_contains blake (Generic t) key = Some (Ok (pt_lookup p (nibbles key) \<noteq> None)) \<and>
    kinds_contains blake (Secure t) key = Some (Ok (pt_lookup p (nibbles (blake key)) \<noteq> None)) \<and>
    kinds_contains blake (Fat t) key = Some (Ok (pt_lookup p (nibbles (blake key)) \<noteq> None))"
proof -
  have "look_up (query_fn (\<lambda>v. v)) (td_get t) (td_root t) (ns_new k) () =
      Some (Ok (pt_lookup p (nibbles k)), ())" for k
    using look_up_rep [OF map_le_refl assms plain_key_new, of "\<lambda>v. v" k] assms(1)
    by (auto simp: answers_def option.map_ident)
  then show ?thesis
    by (simp add: trie_get_def trie_contains_def trie_get_with_def sec_get_with_def fat_get_with_def
        sec_contains_def fat_contains_def)
qed

theorem trie_get_denotes_witness:
  "trie_get (kinds_get_with id (Generic leaf_trie)) [0xab] = Some (Ok (Some [7])) \<and>
    trie_get (kinds_get_with id (Secure leaf_trie)) [0xcd] = Some (Ok None) \<and>
    kinds_contains id (Fat leaf_trie) [0xab] = Some (Ok True)"
  using trie_get_denotes [OF _ leaf_trie_rep(1), of leaf_trie id "[0xab]"]
    trie_get_denotes [OF _ leaf_trie_rep(1), of leaf_trie id "[0xcd]"]
  by simp

text \<open>C21. Lookup in a damaged store: when some nodes of a trie are missing, \<open>get\<close> still ends and
  never gives a wrong answer.  Without the root node it is the error \<open>InvalidStateRoot\<close>;
  otherwise it is the value the complete store gives, or \<open>IncompleteDatabase\<close> naming a node
  that really is missing.\<close>

theorem trie_get_missing_nodes:
  assumes "td_get t \<subseteq>\<^sub>m full" and "full (td_root t) = Some d" and "node_rep full d p"
  shows "\<exists>r. trie_get (trie_get_with t) key = Some r \<and>
    (if td_get t (td_root t) = None then r = Err (InvalidStateRoot (td_root t))
     else r = Ok (pt_lookup p (nibbles key)) \<or>
       (\<exists>h. r = Err (IncompleteDatabase h) \<and> td_get t h = None \<and> full h \<noteq> None))"
  using look_up_rep [OF assms plain_key_new, of "\<lambda>v. v" key]
  by (auto simp: trie_get_def trie_get_with_def answers_def option.map_ident)

theorem trie_get_missing_nodes_witness:
  "\<exists>r. trie_get (trie_get_with (leaf_trie\<lparr>td_get := Map.empty\<rparr>)) [0xab] = Some r \<and>
    (if td_get (leaf_trie\<lparr>td_get := Map.empty\<rparr>) [1] = None then r = Err (InvalidStateRoot [1])
     else r = Ok (pt_lookup (PLeaf (nibbles [0xab]) [7]) (nibbles [0xab])) \<or>
       (\<exists>h. r = Err (IncompleteDatabase h) \<and> td_get (leaf_trie\<lparr>td_get := Map.empty\<rparr>) h = None \<and>
          td_get leaf_trie h \<noteq> None))"
  using trie_get_missing_nodes [OF _ _ leaf_trie_rep(1), of "leaf_trie\<lparr>td_get := Map.empty\<rparr>" "td_get leaf_trie" "[0xab]"]
  by (simp del: nibbles.simps)

text \<open>C24. Proofs are complete: when a lookup with a recorder that records from depth 0 returns a
  result, the recorded nodes alone, as a store from hashes to data, give the same result to the
  same lookup.\<close>

theorem recorded_proof_suffices:
  assumes "look_up (query_recorder_fn debug blake f) get root key recorder_new = Some (Ok x, r)"
  shows "look_up (query_fn f) (proof_store (fst (recorder_drain r))) root key () = Some (Ok x, ())"
proof -
  have "recorded f get 0 (By_Hash root) key recorder_new (Ok x, r)"
    using assms unfolding look_up_def
    by (rule recorded_loop) (simp add: recorder_new_def recorder_with_depth_def)
  then show ?thesis
    using proof_store_of [of "rec_nodes r" get]
    by (auto simp: recorded_def look_up_def recorder_new_def recorder_with_depth_def recorder_drain_def)
qed

theorem recorded_proof_suffices_witness:
  "look_up (query_fn id) (proof_store [\<lparr>rec_depth = 0, rec_data = leaf_node, rec_hash = [1]\<rparr>]) [1]
     (ns_new [0xab]) () = Some (Ok (Some [7]), ())"
  using recorded_proof_suffices [of False id id "[[1] \<mapsto> leaf_node]" "[1]" "ns_new [0xab]" "Some [7]"
      "\<lparr>rec_nodes = [\<lparr>rec_depth = 0, rec_data = leaf_node, rec_hash = [1]\<rparr>], rec_min_depth = 0\<rparr>"]
  by (simp add: look_up_def loop_simps(2) loop_stops recorder_record_def recorder_new_def
      recorder_with_depth_def recorder_drain_def)

text \<open>C25. Proofs are sound: two stores that file every node under its hash, in a world where no two
  of their nodes collide, never give two different answers for the same root and key, however
  many nodes either of them lacks and whether or not they hold a well-formed trie.\<close>

theorem lookup_unique:
  assumes "\<forall>h d. get1 h = Some d \<longrightarrow> blake d = h" and "\<forall>h d. get2 h = Some d \<longrightarrow> blake d = h"
    and "inj_on blake (ran get1 \<union> ran get2)"
    and "look_up (query_fn f) get1 root key () = Some (r1, u)" and "is_ok r1"
    and "look_up (query_fn f) get2 root key () = Some (r2, v)" and "is_ok r2"
  shows "look_up (query_fn f) get1 root key () = look_up (query_fn f) get2 root key ()"
proof -
  have "get1 \<subseteq>\<^sub>m get2 ++ get1" by (rule map_le_map_add)
  moreover have "get2 \<subseteq>\<^sub>m get2 ++ get1"
  proof (clarsimp simp: map_le_def map_add_def split: option.split)
    fix h d1 d2
    assume 1: "get1 h = Some d1" and 2: "get2 h = Some d2"
    then have "blake d1 = blake d2" using assms(1,2) by metis
    then show "d2 = d1" using 1 2 assms(3) by (auto simp: inj_on_def intro: ranI)
  qed
  ultimately show ?thesis
    using look_up_loop_mono [OF assms(4) [unfolded look_up_def] _ assms(5), of "get2 ++ get1"]
      look_up_loop_mono [OF assms(6) [unfolded look_up_def] _ assms(7), of "get2 ++ get1"] assms(4,6)
    by simp
qed

theorem lookup_unique_witness:
  "look_up (query_fn id) [[1] \<mapsto> leaf_node] [1] (ns_new [0xab]) () =
    look_up (query_fn id) [[1] \<mapsto> leaf_node, [2] \<mapsto> [0x80]] [1] (ns_new [0xab]) ()"
  by (rule lookup_unique [where blake = "\<lambda>d. if d = leaf_node then [1] else [2]"
        and ?r1.0 = "Ok (Some [7])" and ?r2.0 = "Ok (Some [7])"])
    (auto simp: look_up_def loop_simps(2) loop_stops leaf_node_not_null leaf_node_not_null [symmetric] split: if_splits)

end
