(* ===== verification/Trie_Mut.thy ===== *)
theory Trie_Mut
  imports Trie_Lookup
begin

text \<open>
  The mutable trie: \<open>patricia_trie/src/triedbmut.rs\<close>, and \<open>sectriedbmut.rs\<close>, \<open>fatdbmut.rs\<close> over it.

  Nodes in memory live in a \<open>node_storage\<close>, a vector of slots with a queue of free ones; a
  \<open>node_handle\<close> is a slot or the hash of a node in the store.  The backing \<open>HashStore\<close> is a value of
  type \<open>'db\<close> with its methods (\<open>hash_store_ops\<close>), as the code holds a trait object.

  An operation that can fail keeps what it did to the trie: it is an \<open>action\<close>, from a state to an
  outcome and the state it leaves.  The recursion of the code is that of the stored nodes, which
  need not be well-founded in a damaged store; the recursive operations are partial functions and
  \<open>None\<close> is a call that does not return.  A recursive call inside a closure (\<open>inspect\<close>,
  \<open>into_rlp\<close>) is passed as an argument (\<open>rec\<close>).  Trace messages are left out.
\<close>

section \<open>Actions\<close>

type_synonym ('s, 'a) action = "'s \<Rightarrow> ((trie_error, 'a) outcome \<times> 's) option"

definition act_return :: "'a \<Rightarrow> ('s, 'a) action" where
  "act_return x s = Some (Ok x, s)"

definition act_bind :: "('s, 'a) action \<Rightarrow> ('a \<Rightarrow> ('s, 'b) action) \<Rightarrow> ('s, 'b) action" where
  "act_bind m f s =
     Option.bind (m s) (\<lambda>(r, s). case r of
        Ok x \<Rightarrow> f x s | Err e \<Rightarrow> Some (Err e, s) | Panic \<Rightarrow> Some (Panic, s))"

text \<open>A pure computation that panics when it is \<open>None\<close>.\<close>

definition act_opt :: "'a option \<Rightarrow> ('s, 'a) action" where
  "act_opt x s = (case x of Some x \<Rightarrow> Some (Ok x, s) | None \<Rightarrow> Some (Panic, s))"

lemma act_bind_mono [partial_function_mono]:
  assumes "mono_option (\<lambda>f. m f s)" and "\<And>x s. mono_option (\<lambda>f. g f x s)"
  shows "mono_option (\<lambda>f. act_bind (m f) (g f) s)"
  unfolding act_bind_def
proof (rule bind_mono [OF assms(1)])
  fix y :: "(trie_error, 'c) outcome \<times> 'd"
  obtain r s' where y: "y = (r, s')" by (cases y)
  show "mono_option (\<lambda>f. case y of (r, s) \<Rightarrow> (case r of
      Ok x \<Rightarrow> g f x s | Err e \<Rightarrow> Some (Err e, s) | Panic \<Rightarrow> Some (Panic, s)))"
    unfolding y by (cases r) (simp_all add: assms(2) option.const_mono)
qed

section \<open>Handles, nodes and their storage\<close>

datatype node_handle = InMemory nat | Hash bytes

datatype mem_node =
    MEmpty
  | MLeaf bytes bytes
  | MExtension bytes node_handle
  | MBranch "node_handle option list" "bytes option"

datatype stored = New mem_node | Cached mem_node bytes

record node_storage =
  st_nodes :: "stored list"
  st_free :: "nat list"

definition empty_children :: "node_handle option list" where
  "empty_children = replicate 16 None"

definition storage_empty :: node_storage where
  "storage_empty = \<lparr>st_nodes = [], st_free = []\<rparr>"

definition st_alloc :: "stored \<Rightarrow> node_storage \<Rightarrow> (nat \<times> node_storage) option" where
  "st_alloc x st =
     (case st_free st of
        idx # free \<Rightarrow>
          if idx < length (st_nodes st)
          then Some (idx, st\<lparr>st_nodes := (st_nodes st)[idx := x], st_free := free\<rparr>)
          else None
      | [] \<Rightarrow> Some (length (st_nodes st), st\<lparr>st_nodes := st_nodes st @ [x]\<rparr>))"

definition st_destroy :: "nat \<Rightarrow> node_storage \<Rightarrow> (stored \<times> node_storage) option" where
  "st_destroy idx st =
     (if idx < length (st_nodes st)
      then Some (st_nodes st ! idx,
                 st\<lparr>st_nodes := (st_nodes st)[idx := New MEmpty], st_free := st_free st @ [idx]\<rparr>)
      else None)"

fun stored_node :: "stored \<Rightarrow> mem_node" where
  "stored_node (New n) = n"
| "stored_node (Cached n h) = n"

definition st_index :: "node_storage \<Rightarrow> nat \<Rightarrow> mem_node option" where
  "st_index st h = map_option stored_node (nth_checked (st_nodes st) h)"

section \<open>Loading and encoding nodes\<close>

text \<open>\<open>None\<close> is a panic; every inline node is strictly inside its parent, so the recursion ends.\<close>

definition inline_or_hash ::
  "(bytes \<Rightarrow> node_storage \<Rightarrow> (mem_node \<times> node_storage) option) \<Rightarrow>
     bytes \<Rightarrow> node_storage \<Rightarrow> (node_handle \<times> node_storage) option" where
  "inline_or_hash rec node st =
     Option.bind (item_hash node) (\<lambda>r. case r of
        Some h \<Rightarrow> Some (Hash h, st)
      | None \<Rightarrow>
          Option.bind (rec node st) (\<lambda>(child, st).
            Option.bind (st_alloc (New child) st) (\<lambda>(h, st). Some (InMemory h, st))))"

fun load_children ::
  "(bytes \<Rightarrow> node_storage \<Rightarrow> (mem_node \<times> node_storage) option) \<Rightarrow>
     bytes list \<Rightarrow> node_storage \<Rightarrow> (node_handle option list \<times> node_storage) option" where
  "load_children rec [] st = Some ([], st)"
| "load_children rec (raw # raws) st =
     Option.bind
       (if \<not> is_empty raw
        then map_option (\<lambda>(h, st). (Some h, st)) (inline_or_hash rec raw st)
        else Some (None, st))
       (\<lambda>(child, st).
          Option.bind (load_children rec raws st) (\<lambda>(children, st). Some (child # children, st)))"

lemma inline_or_hash_mono [partial_function_mono]:
  assumes "\<And>x st. mono_option (\<lambda>f. rec f x st)"
  shows "mono_option (\<lambda>f. inline_or_hash (rec f) node st)"
  unfolding inline_or_hash_def
proof (rule bind_mono [OF option.const_mono])
  fix r
  show "mono_option (\<lambda>f. case r of
        Some h \<Rightarrow> Some (Hash h, st)
      | None \<Rightarrow> Option.bind (rec f node st) (\<lambda>(child, st).
          Option.bind (st_alloc (New child) st) (\<lambda>(h, st). Some (InMemory h, st))))"
    by (cases r) (simp_all add: option.const_mono bind_mono [OF assms option.const_mono])
qed

lemma load_children_mono [partial_function_mono]:
  assumes "\<And>x st. mono_option (\<lambda>f. rec f x st)"
  shows "mono_option (\<lambda>f. load_children (rec f) raws st)"
proof (induction raws arbitrary: st)
  case Nil
  show ?case by (simp add: option.const_mono)
next
  case (Cons raw raws)
  have first: "mono_option (\<lambda>f. if \<not> is_empty raw
        then map_option (\<lambda>(h, st). (Some h, st)) (inline_or_hash (rec f) raw st) else Some (None, st))"
    unfolding map_conv_bind_option
    by (cases "is_empty raw")
      (simp_all add: option.const_mono bind_mono [OF inline_or_hash_mono [OF assms] option.const_mono])
  have rest: "mono_option (\<lambda>f. case y of (child, st) \<Rightarrow>
      Option.bind (load_children (rec f) raws st) (\<lambda>(children, st). Some (child # children, st)))" for y
    by (cases y) (simp add: bind_mono [OF Cons.IH option.const_mono])
  show ?case unfolding load_children.simps by (rule bind_mono [OF first rest])
qed

partial_function (option) from_rlp :: "bytes \<Rightarrow> node_storage \<Rightarrow> (mem_node \<times> node_storage) option" where
  "from_rlp rlp st =
     Option.bind (node_decoded rlp) (\<lambda>node. case node of
        Empty \<Rightarrow> Some (MEmpty, st)
      | Leaf k v \<Rightarrow> map_option (\<lambda>k. (MLeaf k v, st)) (ns_encoded k True)
      | Extension key cb \<Rightarrow>
          Option.bind (ns_encoded key False) (\<lambda>k.
            Option.bind (inline_or_hash (\<lambda>x st. from_rlp x st) cb st) (\<lambda>(h, st). Some (MExtension k h, st)))
      | Branch children_rlp val \<Rightarrow>
          Option.bind (load_children (\<lambda>x st. from_rlp x st) children_rlp st)
            (\<lambda>(children, st). Some (MBranch children val, st)))"

text \<open>\<open>into_rlp\<close> with its callback, which writes a child to the stream.\<close>

fun children_rlp ::
  "(node_handle \<Rightarrow> rlp_stream \<Rightarrow> 's \<Rightarrow> (rlp_stream \<times> 's) option) \<Rightarrow>
     node_handle option list \<Rightarrow> rlp_stream \<Rightarrow> 's \<Rightarrow> (rlp_stream \<times> 's) option" where
  "children_rlp child_cb [] stream s = Some (stream, s)"
| "children_rlp child_cb (child # children) stream s =
     Option.bind
       (case child of
          Some handle \<Rightarrow> child_cb handle stream s
        | None \<Rightarrow> map_option (\<lambda>stream. (stream, s)) (append_empty_data stream))
       (\<lambda>(stream, s). children_rlp child_cb children stream s)"

definition into_rlp ::
  "mem_node \<Rightarrow> (node_handle \<Rightarrow> rlp_stream \<Rightarrow> 's \<Rightarrow> (rlp_stream \<times> 's) option) \<Rightarrow> 's \<Rightarrow> (bytes \<times> 's) option" where
  "into_rlp node child_cb s =
     (case node of
        MEmpty \<Rightarrow>
          Option.bind (append_empty_data new_stream) (\<lambda>stream. map_option (\<lambda>b. (b, s)) (drain stream))
      | MLeaf part v \<Rightarrow>
          Option.bind (do { stream \<leftarrow> new_list 2;
                            stream \<leftarrow> append_with (rlp_append_bytes part) stream;
                            append_with (rlp_append_bytes v) stream })
            (\<lambda>stream. map_option (\<lambda>b. (b, s)) (drain stream))
      | MExtension part child \<Rightarrow>
          Option.bind (do { stream \<leftarrow> new_list 2; append_with (rlp_append_bytes part) stream })
            (\<lambda>stream. Option.bind (child_cb child stream s)
              (\<lambda>(stream, s). map_option (\<lambda>b. (b, s)) (drain stream)))
      | MBranch children v \<Rightarrow>
          Option.bind (new_list 17)
            (\<lambda>stream. Option.bind (children_rlp child_cb children stream s)
              (\<lambda>(stream, s).
                 Option.bind (case v of
                                Some v \<Rightarrow> append_with (rlp_append_bytes v) stream
                              | None \<Rightarrow> append_empty_data stream)
                   (\<lambda>stream. map_option (\<lambda>b. (b, s)) (drain stream)))))"

lemma children_rlp_mono:
  assumes "\<And>h stream s. mono_option (\<lambda>f. cb f h stream s)"
  shows "mono_option (\<lambda>f. children_rlp (cb f) children stream s)"
proof (induction children arbitrary: stream s)
  case Nil
  show ?case by (simp add: option.const_mono)
next
  case (Cons child children)
  have first: "mono_option (\<lambda>f. case child of
          Some handle \<Rightarrow> cb f handle stream s
        | None \<Rightarrow> map_option (\<lambda>stream. (stream, s)) (append_empty_data stream))"
    by (cases child) (simp_all add: option.const_mono assms)
  have rest: "mono_option (\<lambda>f. case y of (stream, s) \<Rightarrow> children_rlp (cb f) children stream s)" for y
    by (cases y) (simp add: Cons.IH)
  show ?case unfolding children_rlp.simps by (rule bind_mono [OF first rest])
qed

lemma into_rlp_mono [partial_function_mono]:
  assumes "\<And>h stream s. mono_option (\<lambda>f. cb f h stream s)"
  shows "mono_option (\<lambda>f. into_rlp node (cb f) s)"
proof (cases node)
  case (MExtension part child)
  show ?thesis
    unfolding into_rlp_def MExtension mem_node.case
    by (rule bind_mono [OF option.const_mono bind_mono [OF assms option.const_mono]])
next
  case (MBranch children v)
  show ?thesis
    unfolding into_rlp_def MBranch mem_node.case
    by (rule bind_mono [OF option.const_mono bind_mono [OF children_rlp_mono [OF assms] option.const_mono]])
qed (simp_all add: into_rlp_def option.const_mono)

section \<open>\<open>TrieDBMut\<close>\<close>

text \<open>The methods of the backing \<open>HashStore\<close>.\<close>

record 'db hash_store_ops =
  hs_get :: "'db \<Rightarrow> bytes \<Rightarrow> bytes option"
  hs_contains :: "'db \<Rightarrow> bytes \<Rightarrow> bool"
  hs_insert :: "'db \<Rightarrow> bytes \<Rightarrow> bytes \<times> 'db"
  hs_emplace :: "'db \<Rightarrow> bytes \<Rightarrow> bytes \<Rightarrow> 'db"
  hs_remove :: "'db \<Rightarrow> bytes \<Rightarrow> 'db"

definition memory_ops :: "(bytes \<Rightarrow> bytes) \<Rightarrow> memory_db hash_store_ops" where
  "memory_ops hash =
     \<lparr>hs_get = mdb_get, hs_contains = mdb_contains, hs_insert = mdb_insert hash, hs_emplace = mdb_emplace,
      hs_remove = mdb_remove\<rparr>"

record 'db trie_mut =
  tm_storage :: node_storage
  tm_db :: 'db
  tm_root :: bytes
  tm_root_handle :: node_handle
  tm_death_row :: "bytes set"
  tm_hash_count :: nat

definition trie_mut_at :: "'db \<Rightarrow> bytes \<Rightarrow> 'db trie_mut" where
  "trie_mut_at db root =
     \<lparr>tm_storage = storage_empty, tm_db = db, tm_root = root, tm_root_handle = Hash root,
      tm_death_row = {}, tm_hash_count = 0\<rparr>"

definition trie_mut_new :: "'db \<Rightarrow> 'db trie_mut" where
  "trie_mut_new db = trie_mut_at db BLAKE2B_NULL_RLP"

definition trie_mut_from_existing ::
  "'db hash_store_ops \<Rightarrow> 'db \<Rightarrow> bytes \<Rightarrow> (trie_error, 'db trie_mut) outcome" where
  "trie_mut_from_existing D db root =
     (if \<not> hs_contains D db root then Err (InvalidStateRoot root) else Ok (trie_mut_at db root))"

definition on_storage :: "(node_storage \<Rightarrow> ('a \<times> node_storage) option) \<Rightarrow> ('db trie_mut, 'a) action" where
  "on_storage f s =
     (case f (tm_storage s) of
        Some (x, st) \<Rightarrow> Some (Ok x, s\<lparr>tm_storage := st\<rparr>)
      | None \<Rightarrow> Some (Panic, s))"

definition condemn :: "bytes \<Rightarrow> ('db trie_mut, unit) action" where
  "condemn hash s = Some (Ok (), s\<lparr>tm_death_row := insert hash (tm_death_row s)\<rparr>)"

definition cache_node :: "'db hash_store_ops \<Rightarrow> bytes \<Rightarrow> ('db trie_mut, nat) action" where
  "cache_node D hash s =
     (case hs_get D (tm_db s) hash of
        None \<Rightarrow> Some (Err (IncompleteDatabase hash), s)
      | Some node_rlp \<Rightarrow>
          on_storage (\<lambda>st. Option.bind (from_rlp node_rlp st)
            (\<lambda>(node, st). st_alloc (Cached node hash) st)) s)"

text \<open>The slot of a handle, loading it first, and what the slot held.\<close>

definition take_node :: "'db hash_store_ops \<Rightarrow> node_handle \<Rightarrow> ('db trie_mut, stored) action" where
  "take_node D handle =
     act_bind (case handle of InMemory h \<Rightarrow> act_return h | Hash h \<Rightarrow> cache_node D h)
       (\<lambda>h. on_storage (st_destroy h))"

datatype act = Replace mem_node | Restore mem_node | Delete

datatype insert_act = InsReplace mem_node | InsRestore mem_node

fun into_action :: "insert_act \<Rightarrow> act" where
  "into_action (InsReplace n) = Replace n"
| "into_action (InsRestore n) = Restore n"

fun unwrap_node :: "insert_act \<Rightarrow> mem_node" where
  "unwrap_node (InsReplace n) = n"
| "unwrap_node (InsRestore n) = n"

text \<open>The inspector returns its action with what it writes to the caller's \<open>old_val\<close>.\<close>

definition inspect ::
  "stored \<Rightarrow> (mem_node \<Rightarrow> ('db trie_mut, act \<times> 'x) action) \<Rightarrow>
     ('db trie_mut, (stored \<times> bool) option \<times> 'x) action" where
  "inspect s inspector =
     (case s of
        New node \<Rightarrow>
          act_bind (inspector node) (\<lambda>(a, x).
            (case a of
               Restore node \<Rightarrow> act_return (Some (New node, False), x)
             | Replace node \<Rightarrow> act_return (Some (New node, True), x)
             | Delete \<Rightarrow> act_return (None, x)))
      | Cached node hash \<Rightarrow>
          act_bind (inspector node) (\<lambda>(a, x).
            (case a of
               Restore node \<Rightarrow> act_return (Some (Cached node hash, False), x)
             | Replace node \<Rightarrow> act_bind (condemn hash) (\<lambda>_. act_return (Some (New node, True), x))
             | Delete \<Rightarrow> act_bind (condemn hash) (\<lambda>_. act_return (None, x)))))"

text \<open>The walk over the nodes in memory; from a hash on it is \<open>Lookup\<close>.\<close>

partial_function (option) lookup_in ::
  "'db hash_store_ops \<Rightarrow> 'db trie_mut \<Rightarrow> nibble_slice \<Rightarrow> node_handle \<Rightarrow>
     (trie_error, bytes option) outcome option" where
  "lookup_in D s part handle =
     (case handle of
        Hash hash \<Rightarrow> map_option fst (look_up (query_fn (\<lambda>v. v)) (hs_get D (tm_db s)) hash part ())
      | InMemory h \<Rightarrow>
          (case st_index (tm_storage s) h of
             None \<Rightarrow> Some Panic
           | Some MEmpty \<Rightarrow> Some (Ok None)
           | Some (MLeaf key v) \<Rightarrow>
               (case do { (k, _) \<leftarrow> ns_from_encoded key; ns_eq k part } of
                  None \<Rightarrow> Some Panic
                | Some eq \<Rightarrow> Some (Ok (if eq then Some v else None)))
           | Some (MExtension key child) \<Rightarrow>
               (case do { (k, _) \<leftarrow> ns_from_encoded key; b \<leftarrow> ns_starts_with part k; l \<leftarrow> ns_len k; Some (b, l) } of
                  None \<Rightarrow> Some Panic
                | Some (b, l) \<Rightarrow> if b then lookup_in D s (ns_mid part l) child else Some (Ok None))
           | Some (MBranch children v) \<Rightarrow>
               (case ns_is_empty part of
                  None \<Rightarrow> Some Panic
                | Some at_end \<Rightarrow>
                    if at_end then Some (Ok v)
                    else (case do { idx \<leftarrow> ns_at part 0; nth_checked children (unat idx) } of
                            None \<Rightarrow> Some Panic
                          | Some None \<Rightarrow> Some (Ok None)
                          | Some (Some child) \<Rightarrow> lookup_in D s (ns_mid part 1) child))))"

section \<open>Insertion\<close>

type_synonym 'db inserter =
  "mem_node \<Rightarrow> nibble_slice \<Rightarrow> bytes \<Rightarrow> bytes option \<Rightarrow> ('db trie_mut, insert_act \<times> bytes option) action"

definition insert_at ::
  "'db hash_store_ops \<Rightarrow> 'db inserter \<Rightarrow> node_handle \<Rightarrow> nibble_slice \<Rightarrow> bytes \<Rightarrow> bytes option \<Rightarrow>
     ('db trie_mut, (nat \<times> bool) \<times> bytes option) action" where
  "insert_at D rec handle part v old =
     act_bind (take_node D handle) (\<lambda>stored.
     act_bind (inspect stored (\<lambda>node.
        act_bind (rec node part v old) (\<lambda>(a, old). act_return (into_action a, old)))) (\<lambda>(r, old).
     (case r of
        None \<Rightarrow> act_opt None
      | Some (new_stored, changed) \<Rightarrow>
          act_bind (on_storage (st_alloc new_stored)) (\<lambda>h. act_return ((h, changed), old)))))"

definition insert_branch ::
  "'db hash_store_ops \<Rightarrow> 'db inserter \<Rightarrow> node_handle option list \<Rightarrow> bytes option \<Rightarrow>
     nibble_slice \<Rightarrow> bytes \<Rightarrow> bytes option \<Rightarrow> ('db trie_mut, insert_act \<times> bytes option) action" where
  "insert_branch D rec children stored_value part v old =
     act_bind (act_opt (ns_is_empty part)) (\<lambda>at_end.
     if at_end then
       (let branch = MBranch children (Some v) in
        act_return (if stored_value = Some v then InsRestore branch else InsReplace branch, stored_value))
     else
       act_bind (act_opt (do { x \<leftarrow> ns_at part 0; child \<leftarrow> nth_checked children (unat x); Some (unat x, child) }))
         (\<lambda>(idx, child).
          let part = ns_mid part 1 in
          (case child of
             Some child \<Rightarrow>
               act_bind (insert_at D rec child part v old) (\<lambda>((new_child, changed), old).
                 let branch = MBranch (children[idx := Some (InMemory new_child)]) stored_value in
                 act_return (if changed then InsReplace branch else InsRestore branch, old))
           | None \<Rightarrow>
               act_bind (act_opt (ns_encoded part True)) (\<lambda>k.
               act_bind (on_storage (st_alloc (New (MLeaf k v)))) (\<lambda>leaf.
                 act_return (InsReplace (MBranch (children[idx := Some (InMemory leaf)]) stored_value), old))))))"

definition insert_leaf ::
  "'db inserter \<Rightarrow> bytes \<Rightarrow> bytes \<Rightarrow> nibble_slice \<Rightarrow> bytes \<Rightarrow> bytes option \<Rightarrow>
     ('db trie_mut, insert_act \<times> bytes option) action" where
  "insert_leaf rec encoded stored_value part v old =
     act_bind (act_opt (do { (k, _) \<leftarrow> ns_from_encoded encoded; cp \<leftarrow> ns_common_prefix part k;
                             klen \<leftarrow> ns_len k; plen \<leftarrow> ns_len part; Some (k, cp, klen, plen) }))
       (\<lambda>(existing_key, cp, klen, plen).
        if cp = klen \<and> cp = plen then
          (let leaf = MLeaf encoded v in
           act_return (if stored_value = v then InsRestore leaf else InsReplace leaf, Some stored_value))
        else if cp = 0 then
          act_bind
            (if klen = 0 then act_return (MBranch empty_children (Some stored_value))
             else
               act_bind (act_opt (do { x \<leftarrow> ns_at existing_key 0; k \<leftarrow> ns_encoded (ns_mid existing_key 1) True;
                                       _ \<leftarrow> nth_checked empty_children (unat x); Some (unat x, k) }))
                 (\<lambda>(idx, k).
               act_bind (on_storage (st_alloc (New (MLeaf k stored_value)))) (\<lambda>new_leaf.
                 act_return (MBranch (empty_children[idx := Some (InMemory new_leaf)]) None))))
            (\<lambda>branch.
          act_bind (rec branch part v old) (\<lambda>(a, old). act_return (InsReplace (unwrap_node a), old)))
        else if cp = klen then
          act_bind (rec (MBranch empty_children (Some stored_value)) (ns_mid part cp) v old) (\<lambda>(branch, old).
          act_bind (on_storage (st_alloc (New (unwrap_node branch)))) (\<lambda>branch_handle.
          act_bind (act_opt (ns_encoded existing_key False)) (\<lambda>k.
            act_return (InsReplace (MExtension k (InMemory branch_handle)), old))))
        else
          act_bind (act_opt (ns_encoded (ns_mid existing_key cp) True)) (\<lambda>k.
          act_bind (rec (MLeaf k stored_value) (ns_mid part cp) v old) (\<lambda>(low, old).
          act_bind (act_opt (ns_encoded_leftmost existing_key cp False)) (\<lambda>k.
          act_bind (on_storage (st_alloc (New (unwrap_node low)))) (\<lambda>h.
            act_return (InsReplace (MExtension k (InMemory h)), old))))))"

definition insert_extension ::
  "'db hash_store_ops \<Rightarrow> 'db inserter \<Rightarrow> bytes \<Rightarrow> node_handle \<Rightarrow> nibble_slice \<Rightarrow> bytes \<Rightarrow> bytes option \<Rightarrow>
     ('db trie_mut, insert_act \<times> bytes option) action" where
  "insert_extension D rec encoded child_branch part v old =
     act_bind (act_opt (do { (k, _) \<leftarrow> ns_from_encoded encoded; cp \<leftarrow> ns_common_prefix part k;
                             klen \<leftarrow> ns_len k; Some (k, cp, klen) }))
       (\<lambda>(existing_key, cp, klen).
        if cp = 0 then
          act_bind (act_opt (if klen = 0 then None
                             else do { x \<leftarrow> ns_at existing_key 0; _ \<leftarrow> nth_checked empty_children (unat x);
                                       Some (unat x) }))
            (\<lambda>idx.
          act_bind
            (if klen = 1 then act_return child_branch
             else act_bind (act_opt (ns_encoded (ns_mid existing_key 1) False)) (\<lambda>k.
                  act_bind (on_storage (st_alloc (New (MExtension k child_branch)))) (\<lambda>h.
                    act_return (InMemory h))))
            (\<lambda>child.
          act_bind (rec (MBranch (empty_children[idx := Some child]) None) part v old) (\<lambda>(a, old).
            act_return (InsReplace (unwrap_node a), old))))
        else if cp = klen then
          act_bind (insert_at D rec child_branch (ns_mid part cp) v old) (\<lambda>((new_child, changed), old).
          act_bind (act_opt (ns_encoded existing_key False)) (\<lambda>k.
            let new_ext = MExtension k (InMemory new_child) in
            act_return (if changed then InsReplace new_ext else InsRestore new_ext, old)))
        else
          act_bind (act_opt (ns_encoded (ns_mid existing_key cp) False)) (\<lambda>k.
          act_bind (rec (MExtension k child_branch) (ns_mid part cp) v old) (\<lambda>(low, old).
          act_bind (act_opt (ns_encoded_leftmost existing_key cp False)) (\<lambda>k.
          act_bind (on_storage (st_alloc (New (unwrap_node low)))) (\<lambda>h.
            act_return (InsReplace (MExtension k (InMemory h)), old))))))"

lemma inspect_mono [partial_function_mono]:
  assumes "\<And>node s. mono_option (\<lambda>f. insp f node s)"
  shows "mono_option (\<lambda>f. inspect x (insp f) s)"
  by (cases x) (simp_all add: inspect_def act_bind_mono [OF assms option.const_mono])

lemma if_app_mono:
  assumes "mono_option (\<lambda>f. m f s)" and "mono_option (\<lambda>f. n f s)"
  shows "mono_option (\<lambda>f. (if c then m f else n f) s)"
  using assms by (cases c) simp_all

lemma prod_app_mono:
  assumes "\<And>x y. mono_option (\<lambda>f. m f x y s)"
  shows "mono_option (\<lambda>f. (case p of (x, y) \<Rightarrow> m f x y) s)"
  using assms by (cases p) simp

lemma option_app_mono:
  assumes "mono_option (\<lambda>f. m f s)" and "\<And>x. mono_option (\<lambda>f. n f x s)"
  shows "mono_option (\<lambda>f. (case y of None \<Rightarrow> m f | Some x \<Rightarrow> n f x) s)"
  using assms by (cases y) simp_all

lemmas action_mono = option.const_mono act_bind_mono inspect_mono if_app_mono prod_app_mono option_app_mono

lemma insert_at_mono:
  assumes "\<And>node part v old s. mono_option (\<lambda>f. rec f node part v old s)"
  shows "mono_option (\<lambda>f. insert_at D (rec f) handle part v old s)"
  unfolding insert_at_def by (intro action_mono assms)

lemma insert_branch_mono [partial_function_mono]:
  assumes "\<And>node part v old s. mono_option (\<lambda>f. rec f node part v old s)"
  shows "mono_option (\<lambda>f. insert_branch D (rec f) children stored_value part v old s)"
  unfolding insert_branch_def Let_def by (intro action_mono insert_at_mono assms)

lemma insert_leaf_mono [partial_function_mono]:
  assumes "\<And>node part v old s. mono_option (\<lambda>f. rec f node part v old s)"
  shows "mono_option (\<lambda>f. insert_leaf (rec f) encoded stored_value part v old s)"
  unfolding insert_leaf_def Let_def by (intro action_mono assms)

lemma insert_extension_mono [partial_function_mono]:
  assumes "\<And>node part v old s. mono_option (\<lambda>f. rec f node part v old s)"
  shows "mono_option (\<lambda>f. insert_extension D (rec f) encoded child_branch part v old s)"
  unfolding insert_extension_def Let_def by (intro action_mono insert_at_mono assms)

partial_function (option) insert_inspector ::
  "'db hash_store_ops \<Rightarrow> mem_node \<Rightarrow> nibble_slice \<Rightarrow> bytes \<Rightarrow> bytes option \<Rightarrow>
     ('db trie_mut, insert_act \<times> bytes option) action" where
  "insert_inspector D node part v old s =
     (case node of
        MEmpty \<Rightarrow> act_bind (act_opt (ns_encoded part True)) (\<lambda>k. act_return (InsReplace (MLeaf k v), old)) s
      | MBranch children stored_value \<Rightarrow>
          insert_branch D (\<lambda>n p v o' s. insert_inspector D n p v o' s) children stored_value part v old s
      | MLeaf encoded stored_value \<Rightarrow>
          insert_leaf (\<lambda>n p v o' s. insert_inspector D n p v o' s) encoded stored_value part v old s
      | MExtension encoded child_branch \<Rightarrow>
          insert_extension D (\<lambda>n p v o' s. insert_inspector D n p v o' s) encoded child_branch part v old s)"

section \<open>Removal\<close>

datatype used_index = UsedNone | UsedOne nat | UsedMany

fun used_from :: "node_handle option list \<Rightarrow> nat \<Rightarrow> used_index \<Rightarrow> used_index" where
  "used_from [] i u = u"
| "used_from (None # cs) i u = used_from cs (i + 1) u"
| "used_from (Some c # cs) i UsedNone = used_from cs (i + 1) (UsedOne i)"
| "used_from (Some c # cs) i (UsedOne a) = UsedMany"
| "used_from (Some c # cs) i UsedMany = used_from cs (i + 1) UsedMany"

definition condemn_cached :: "stored \<Rightarrow> ('db trie_mut, unit) action" where
  "condemn_cached x = (case x of New _ \<Rightarrow> act_return () | Cached _ hash \<Rightarrow> condemn hash)"

text \<open>The key of an extension followed by that of its child, as one slice.\<close>

definition joined_key :: "bytes \<Rightarrow> bytes \<Rightarrow> bool \<Rightarrow> bytes option" where
  "joined_key part sub_part is_leaf =
     do { (p, _) \<leftarrow> ns_from_encoded part; (q, _) \<leftarrow> ns_from_encoded sub_part;
          ns_encoded (ns_new_composed p q) is_leaf }"

definition fix_extension ::
  "'db hash_store_ops \<Rightarrow> (mem_node \<Rightarrow> ('db trie_mut, mem_node) action) \<Rightarrow> bytes \<Rightarrow> node_handle \<Rightarrow>
     ('db trie_mut, mem_node) action" where
  "fix_extension D rec part child =
     act_bind (take_node D child) (\<lambda>x.
     (case stored_node x of
        MExtension sub_part sub_child \<Rightarrow>
          act_bind (condemn_cached x) (\<lambda>_.
          act_bind (act_opt (joined_key part sub_part False)) (\<lambda>k. rec (MExtension k sub_child)))
      | MLeaf sub_part v \<Rightarrow>
          act_bind (condemn_cached x) (\<lambda>_.
          act_bind (act_opt (joined_key part sub_part True)) (\<lambda>k. act_return (MLeaf k v)))
      | _ \<Rightarrow> act_bind (on_storage (st_alloc x)) (\<lambda>h. act_return (MExtension part (InMemory h)))))"

lemma mem_node_app_mono:
  assumes "\<And>k v. mono_option (\<lambda>f. a f k v s)" and "\<And>k c. mono_option (\<lambda>f. b f k c s)"
    and "mono_option (\<lambda>f. d f s)" and "\<And>cs v. mono_option (\<lambda>f. e f cs v s)"
  shows "mono_option (\<lambda>f. (case n of MEmpty \<Rightarrow> d f | MLeaf k v \<Rightarrow> a f k v | MExtension k c \<Rightarrow> b f k c
    | MBranch cs v \<Rightarrow> e f cs v) s)"
  using assms by (cases n) simp_all

lemma fix_extension_mono [partial_function_mono]:
  assumes "\<And>node s. mono_option (\<lambda>f. rec f node s)"
  shows "mono_option (\<lambda>f. fix_extension D (rec f) part child s)"
  unfolding fix_extension_def by (intro action_mono mem_node_app_mono assms)

partial_function (option) fix_node ::
  "'db hash_store_ops \<Rightarrow> mem_node \<Rightarrow> ('db trie_mut, mem_node) action" where
  "fix_node D node s =
     (case node of
        MBranch children v \<Rightarrow>
          (case used_from children 0 UsedNone of
             UsedNone \<Rightarrow>
               (case v of
                  None \<Rightarrow> Some (Panic, s)
                | Some v \<Rightarrow>
                    act_bind (act_opt (ns_encoded (ns_new []) True)) (\<lambda>k. act_return (MLeaf k v)) s)
           | UsedOne a \<Rightarrow>
               (case v of
                  None \<Rightarrow>
                    act_bind (act_opt (do { k \<leftarrow> ns_encoded (ns_new_offset [word_of_nat a] 1) False;
                                            child \<leftarrow> nth_checked children a; child \<leftarrow> child;
                                            Some (MExtension k child) }))
                      (\<lambda>n s. fix_node D n s) s
                | Some v \<Rightarrow> act_return (MBranch children (Some v)) s)
           | UsedMany \<Rightarrow> act_return (MBranch children v) s)
      | MExtension part child \<Rightarrow> fix_extension D (\<lambda>n s. fix_node D n s) part child s
      | other \<Rightarrow> act_return other s)"

type_synonym 'db remover =
  "mem_node \<Rightarrow> nibble_slice \<Rightarrow> bytes option \<Rightarrow> ('db trie_mut, act \<times> bytes option) action"

definition remove_at ::
  "'db hash_store_ops \<Rightarrow> 'db remover \<Rightarrow> node_handle \<Rightarrow> nibble_slice \<Rightarrow> bytes option \<Rightarrow>
     ('db trie_mut, (nat \<times> bool) option \<times> bytes option) action" where
  "remove_at D rec handle part old =
     act_bind (take_node D handle) (\<lambda>stored.
     act_bind (inspect stored (\<lambda>node. rec node part old)) (\<lambda>(opt, old).
     (case opt of
        None \<Rightarrow> act_return (None, old)
      | Some (new, changed) \<Rightarrow>
          act_bind (on_storage (st_alloc new)) (\<lambda>h. act_return (Some (h, changed), old)))))"

definition remove_branch ::
  "'db hash_store_ops \<Rightarrow> 'db remover \<Rightarrow> node_handle option list \<Rightarrow> bytes option \<Rightarrow> nibble_slice \<Rightarrow>
     bytes option \<Rightarrow> ('db trie_mut, act \<times> bytes option) action" where
  "remove_branch D rec children v part old =
     act_bind (act_opt (ns_is_empty part)) (\<lambda>at_end.
     if at_end then
       (case v of
          None \<Rightarrow> act_return (Restore (MBranch children None), old)
        | Some v \<Rightarrow>
            act_bind (fix_node D (MBranch children None)) (\<lambda>n. act_return (Replace n, Some v)))
     else
       act_bind (act_opt (do { x \<leftarrow> ns_at part 0; child \<leftarrow> nth_checked children (unat x); Some (unat x, child) }))
         (\<lambda>(idx, child).
          (case child of
             None \<Rightarrow> act_return (Restore (MBranch children v), old)
           | Some child \<Rightarrow>
               act_bind (remove_at D rec child (ns_mid part 1) old) (\<lambda>(r, old).
               (case r of
                  Some (new, changed) \<Rightarrow>
                    (let branch = MBranch (children[idx := Some (InMemory new)]) v in
                     act_return (if changed then Replace branch else Restore branch, old))
                | None \<Rightarrow>
                    act_bind (fix_node D (MBranch (children[idx := None]) v)) (\<lambda>n.
                      act_return (Replace n, old)))))))"

definition remove_extension ::
  "'db hash_store_ops \<Rightarrow> 'db remover \<Rightarrow> bytes \<Rightarrow> node_handle \<Rightarrow> nibble_slice \<Rightarrow> bytes option \<Rightarrow>
     ('db trie_mut, act \<times> bytes option) action" where
  "remove_extension D rec encoded child_branch part old =
     act_bind (act_opt (do { (k, _) \<leftarrow> ns_from_encoded encoded; cp \<leftarrow> ns_common_prefix k part;
                             l \<leftarrow> ns_len k; Some (cp, l) }))
       (\<lambda>(cp, existing_len).
        if cp = existing_len then
          act_bind (remove_at D rec child_branch (ns_mid part cp) old) (\<lambda>(r, old).
          (case r of
             Some (new_child, changed) \<Rightarrow>
               (let ext = MExtension encoded (InMemory new_child) in
                if changed then act_bind (fix_node D ext) (\<lambda>n. act_return (Replace n, old))
                else act_return (Restore ext, old))
           | None \<Rightarrow> act_return (Delete, old)))
        else act_return (Restore (MExtension encoded child_branch), old))"

lemma remove_at_mono:
  assumes "\<And>node part old s. mono_option (\<lambda>f. rec f node part old s)"
  shows "mono_option (\<lambda>f. remove_at D (rec f) handle part old s)"
  unfolding remove_at_def by (intro action_mono assms)

lemma remove_branch_mono [partial_function_mono]:
  assumes "\<And>node part old s. mono_option (\<lambda>f. rec f node part old s)"
  shows "mono_option (\<lambda>f. remove_branch D (rec f) children v part old s)"
  unfolding remove_branch_def by (intro action_mono remove_at_mono assms)

lemma remove_extension_mono [partial_function_mono]:
  assumes "\<And>node part old s. mono_option (\<lambda>f. rec f node part old s)"
  shows "mono_option (\<lambda>f. remove_extension D (rec f) encoded child_branch part old s)"
  unfolding remove_extension_def by (intro action_mono remove_at_mono assms)

partial_function (option) remove_inspector ::
  "'db hash_store_ops \<Rightarrow> mem_node \<Rightarrow> nibble_slice \<Rightarrow> bytes option \<Rightarrow>
     ('db trie_mut, act \<times> bytes option) action" where
  "remove_inspector D node part old s =
     (case node of
        MEmpty \<Rightarrow> act_return (Delete, old) s
      | MBranch children v \<Rightarrow>
          remove_branch D (\<lambda>n p o' s. remove_inspector D n p o' s) children v part old s
      | MLeaf encoded v \<Rightarrow>
          act_bind (act_opt (do { (k, _) \<leftarrow> ns_from_encoded encoded; ns_eq k part }))
            (\<lambda>eq. act_return (if eq then (Delete, Some v) else (Restore (MLeaf encoded v), old))) s
      | MExtension encoded child_branch \<Rightarrow>
          remove_extension D (\<lambda>n p o' s. remove_inspector D n p o' s) encoded child_branch part old s)"

section \<open>Commit\<close>

partial_function (option) commit_node ::
  "'db hash_store_ops \<Rightarrow> node_handle \<Rightarrow> rlp_stream \<Rightarrow> 'db trie_mut \<Rightarrow> (rlp_stream \<times> 'db trie_mut) option" where
  "commit_node D handle stream s =
     (case handle of
        Hash h \<Rightarrow> map_option (\<lambda>stream. (stream, s)) (append_with (rlp_append_hash h) stream)
      | InMemory h \<Rightarrow>
          (case st_destroy h (tm_storage s) of
             None \<Rightarrow> None
           | Some (Cached _ hash, st) \<Rightarrow>
               map_option (\<lambda>stream. (stream, s\<lparr>tm_storage := st\<rparr>)) (append_with (rlp_append_hash hash) stream)
           | Some (New node, st) \<Rightarrow>
               Option.bind (into_rlp node (\<lambda>h stream s. commit_node D h stream s) (s\<lparr>tm_storage := st\<rparr>))
                 (\<lambda>(node_rlp, s).
                    if 32 \<le> length node_rlp then
                      (case hs_insert D (tm_db s) node_rlp of (hash, db) \<Rightarrow>
                         map_option (\<lambda>stream. (stream, s\<lparr>tm_db := db, tm_hash_count := tm_hash_count s + 1\<rparr>))
                           (append_with (rlp_append_hash hash) stream))
                    else map_option (\<lambda>stream. (stream, s)) (append_raw stream node_rlp 1))))"

text \<open>\<open>dead\<close> is the order in which the death row is drained, any enumeration of it.\<close>

definition trie_mut_commit :: "'db hash_store_ops \<Rightarrow> bytes list \<Rightarrow> 'db trie_mut \<Rightarrow> 'db trie_mut option" where
  "trie_mut_commit D dead s =
     (let s = s\<lparr>tm_db := fold (\<lambda>hash db. hs_remove D db hash) dead (tm_db s), tm_death_row := {}\<rparr> in
      case tm_root_handle s of
        Hash _ \<Rightarrow> Some s
      | InMemory h \<Rightarrow>
          Option.bind (st_destroy h (tm_storage s)) (\<lambda>(x, st).
            let s = s\<lparr>tm_storage := st\<rparr> in
            case x of
              New node \<Rightarrow>
                Option.bind (into_rlp node (commit_node D) s) (\<lambda>(root_rlp, s).
                  case hs_insert D (tm_db s) root_rlp of (root, db) \<Rightarrow>
                    Some (s\<lparr>tm_db := db, tm_root := root, tm_hash_count := tm_hash_count s + 1,
                            tm_root_handle := Hash root\<rparr>))
            | Cached node hash \<Rightarrow>
                map_option (\<lambda>(h, st). s\<lparr>tm_root := hash, tm_root_handle := InMemory h, tm_storage := st\<rparr>)
                  (st_alloc (Cached node hash) (tm_storage s))))"

section \<open>The trait \<open>TrieMut\<close>\<close>

definition trie_mut_root :: "'db hash_store_ops \<Rightarrow> bytes list \<Rightarrow> 'db trie_mut \<Rightarrow> (bytes \<times> 'db trie_mut) option" where
  "trie_mut_root D dead s = map_option (\<lambda>s. (tm_root s, s)) (trie_mut_commit D dead s)"

definition trie_mut_is_empty :: "'db trie_mut \<Rightarrow> bool option" where
  "trie_mut_is_empty s =
     (case tm_root_handle s of
        Hash h \<Rightarrow> Some (h = BLAKE2B_NULL_RLP)
      | InMemory h \<Rightarrow> map_option (\<lambda>n. n = MEmpty) (st_index (tm_storage s) h))"

definition trie_mut_get ::
  "'db hash_store_ops \<Rightarrow> 'db trie_mut \<Rightarrow> bytes \<Rightarrow> (trie_error, bytes option) outcome option" where
  "trie_mut_get D s key = lookup_in D s (ns_new key) (tm_root_handle s)"

definition trie_mut_contains ::
  "'db hash_store_ops \<Rightarrow> 'db trie_mut \<Rightarrow> bytes \<Rightarrow> (trie_error, bool) outcome option" where
  "trie_mut_contains D s key = map_option (omap (\<lambda>x. x \<noteq> None)) (trie_mut_get D s key)"

definition trie_mut_remove :: "'db hash_store_ops \<Rightarrow> bytes \<Rightarrow> ('db trie_mut, bytes option) action" where
  "trie_mut_remove D key s =
     act_bind (remove_at D (remove_inspector D) (tm_root_handle s) (ns_new key) None) (\<lambda>(r, old) s.
       Some (Ok old,
         (case r of
            Some (h, changed) \<Rightarrow> s\<lparr>tm_root_handle := InMemory h\<rparr>
          | None \<Rightarrow> s\<lparr>tm_root_handle := Hash BLAKE2B_NULL_RLP, tm_root := BLAKE2B_NULL_RLP\<rparr>))) s"

definition trie_mut_insert :: "'db hash_store_ops \<Rightarrow> bytes \<Rightarrow> bytes \<Rightarrow> ('db trie_mut, bytes option) action" where
  "trie_mut_insert D key v s =
     (if v = [] then trie_mut_remove D key s
      else act_bind (insert_at D (insert_inspector D) (tm_root_handle s) (ns_new key) v None)
             (\<lambda>((h, changed), old) s. Some (Ok old, s\<lparr>tm_root_handle := InMemory h\<rparr>)) s)"

section \<open>\<open>SecTrieDBMut\<close> and \<open>FatDBMut\<close>\<close>

definition sec_mut_get ::
  "(bytes \<Rightarrow> bytes) \<Rightarrow> 'db hash_store_ops \<Rightarrow> 'db trie_mut \<Rightarrow> bytes \<Rightarrow> (trie_error, bytes option) outcome option" where
  "sec_mut_get blake D s key = trie_mut_get D s (blake key)"

definition sec_mut_contains ::
  "(bytes \<Rightarrow> bytes) \<Rightarrow> 'db hash_store_ops \<Rightarrow> 'db trie_mut \<Rightarrow> bytes \<Rightarrow> (trie_error, bool) outcome option" where
  "sec_mut_contains blake D s key = trie_mut_contains D s (blake key)"

definition sec_mut_insert ::
  "(bytes \<Rightarrow> bytes) \<Rightarrow> 'db hash_store_ops \<Rightarrow> bytes \<Rightarrow> bytes \<Rightarrow> ('db trie_mut, bytes option) action" where
  "sec_mut_insert blake D key v = trie_mut_insert D (blake key) v"

definition sec_mut_remove ::
  "(bytes \<Rightarrow> bytes) \<Rightarrow> 'db hash_store_ops \<Rightarrow> bytes \<Rightarrow> ('db trie_mut, bytes option) action" where
  "sec_mut_remove blake D key = trie_mut_remove D (blake key)"

definition fat_mut_get ::
  "(bytes \<Rightarrow> bytes) \<Rightarrow> 'db hash_store_ops \<Rightarrow> 'db trie_mut \<Rightarrow> bytes \<Rightarrow> (trie_error, bytes option) outcome option" where
  "fat_mut_get blake D s key = trie_mut_get D s (blake key)"

definition to_aux_key :: "(bytes \<Rightarrow> bytes) \<Rightarrow> bytes \<Rightarrow> bytes" where
  "to_aux_key blake key = blake key"

definition fat_mut_insert ::
  "(bytes \<Rightarrow> bytes) \<Rightarrow> 'db hash_store_ops \<Rightarrow> bytes \<Rightarrow> bytes \<Rightarrow> ('db trie_mut, bytes option) action" where
  "fat_mut_insert blake D key v =
     (let hash = blake key in
      act_bind (trie_mut_insert D hash v) (\<lambda>out s.
        Some (Ok out, if out = None then s\<lparr>tm_db := hs_emplace D (tm_db s) (to_aux_key blake hash) key\<rparr> else s)))"

definition fat_mut_remove ::
  "(bytes \<Rightarrow> bytes) \<Rightarrow> 'db hash_store_ops \<Rightarrow> bytes \<Rightarrow> ('db trie_mut, bytes option) action" where
  "fat_mut_remove blake D key =
     (let hash = blake key in
      act_bind (trie_mut_remove D hash) (\<lambda>out s.
        Some (Ok out, if out \<noteq> None then s\<lparr>tm_db := hs_remove D (tm_db s) (to_aux_key blake hash)\<rparr> else s)))"

end
