(* ===== verification/Trie_Map.thy ===== *)
theory Trie_Map
  imports Trie_Lookup
begin

text \<open>
  What the mutable trie promises, on the tries \<open>ptrie\<close> that the nodes stand for: the insertion and
  removal of \<open>patricia_trie/src/triedbmut.rs\<close> without handles, storage and store.

  \<open>pt_insert\<close> and \<open>pt_remove\<close> follow the case distinctions of the code on the common prefix of two
  keys.  A trie is canonical (\<open>canon\<close>) when an extension has a nonempty key and leads to a branch,
  a branch has at least two entries, and no stored value is empty; on canonical tries both are the
  update of the map \<open>pt_lookup\<close> and keep the form.  The locale \<open>finite_map_ops\<close> is this contract;
  what follows from it for sequences of updates is proved there once.
\<close>

section \<open>The contract of a map with updates\<close>

datatype map_op = Put "byte list" bytes | Del "byte list"

fun map_step :: "map_op \<Rightarrow> (byte list \<rightharpoonup> bytes) \<Rightarrow> (byte list \<rightharpoonup> bytes)" where
  "map_step (Put k v) m = m(k \<mapsto> v)"
| "map_step (Del k) m = m(k := None)"

locale finite_map_ops =
  fixes inv :: "'t \<Rightarrow> bool"
    and key_ok :: "byte list \<Rightarrow> bool"
    and empty :: 't
    and lookup :: "'t \<Rightarrow> byte list \<Rightarrow> bytes option"
    and put :: "'t \<Rightarrow> byte list \<Rightarrow> bytes \<Rightarrow> 't"
    and del :: "'t \<Rightarrow> byte list \<Rightarrow> 't"
  assumes inv_empty: "inv empty"
    and lookup_empty: "lookup empty k = None"
    and inv_put: "inv t \<Longrightarrow> key_ok k \<Longrightarrow> v \<noteq> [] \<Longrightarrow> inv (put t k v)"
    and lookup_put: "inv t \<Longrightarrow> key_ok k \<Longrightarrow> v \<noteq> [] \<Longrightarrow> lookup (put t k v) = (lookup t)(k \<mapsto> v)"
    and inv_del: "inv t \<Longrightarrow> inv (del t k)"
    and lookup_del: "inv t \<Longrightarrow> lookup (del t k) = (lookup t)(k := None)"
begin

fun step :: "map_op \<Rightarrow> 't \<Rightarrow> 't" where
  "step (Put k v) t = put t k v"
| "step (Del k) t = del t k"

fun op_ok :: "map_op \<Rightarrow> bool" where
  "op_ok (Put k v) \<longleftrightarrow> key_ok k \<and> v \<noteq> []"
| "op_ok (Del k) \<longleftrightarrow> True"

lemma run_inv: "inv t \<Longrightarrow> list_all op_ok ops \<Longrightarrow> inv (fold step ops t)"
  by (induction ops arbitrary: t) (auto simp: inv_put inv_del elim!: op_ok.elims)

lemma run_lookup: "inv t \<Longrightarrow> list_all op_ok ops \<Longrightarrow> lookup (fold step ops t) = fold map_step ops (lookup t)"
proof (induction ops arbitrary: t)
  case (Cons op ops)
  then have "inv (step op t)" "lookup (step op t) = map_step op (lookup t)"
    by (cases op; simp add: inv_put inv_del lookup_put lookup_del)+
  then show ?case using Cons by simp
qed simp

end

section \<open>Insertion\<close>

definition no_children :: "ptrie list" where
  "no_children = replicate 16 PEmpty"

fun leaf_branch :: "byte list \<Rightarrow> bytes \<Rightarrow> ptrie" where
  "leaf_branch [] u = PBranch no_children (Some u)"
| "leaf_branch (x # k) u = PBranch (no_children[unat x := PLeaf k u]) None"

fun ext_branch :: "byte list \<Rightarrow> ptrie \<Rightarrow> ptrie" where
  "ext_branch [] t = PEmpty"
| "ext_branch [x] t = PBranch (no_children[unat x := t]) None"
| "ext_branch (x # y # k) t = PBranch (no_children[unat x := PExt (y # k) t]) None"

fun is_branch :: "ptrie \<Rightarrow> bool" where
  "is_branch (PBranch ts v) = True"
| "is_branch _ = False"

lemma is_branch_leaf_branch [simp]: "is_branch (leaf_branch k u)"
  by (cases k) auto

lemma is_branch_ext_branch [simp]: "is_branch (ext_branch k t) \<longleftrightarrow> k \<noteq> []"
  by (induction k t rule: ext_branch.induct) auto

lemma lcp_less: "0 < lcp ns k \<Longrightarrow> length ns - lcp ns k < length ns"
  using lcp_le(1) [of ns k] by simp

function pt_insert :: "ptrie \<Rightarrow> byte list \<Rightarrow> bytes \<Rightarrow> ptrie" where
  "pt_insert PEmpty ns v = PLeaf ns v"
| "pt_insert (PBranch ts u) [] v = PBranch ts (Some v)"
| "pt_insert (PBranch ts u) (x # ns) v = PBranch (ts[unat x := pt_insert (ts ! unat x) ns v]) u"
| "pt_insert (PLeaf k u) ns v =
     (let cp = lcp ns k in
      if cp = length k \<and> cp = length ns then PLeaf k v
      else if cp = 0 then pt_insert (leaf_branch k u) ns v
      else if cp = length k then PExt k (pt_insert (PBranch no_children (Some u)) (drop cp ns) v)
      else PExt (take cp k) (pt_insert (PLeaf (drop cp k) u) (drop cp ns) v))"
| "pt_insert (PExt k t) ns v =
     (let cp = lcp ns k in
      if k = [] then PEmpty
      else if cp = 0 then pt_insert (ext_branch k t) ns v
      else if cp = length k then PExt k (pt_insert t (drop cp ns) v)
      else PExt (take cp k) (pt_insert (PExt (drop cp k) t) (drop cp ns) v))"
  by pat_completeness auto
termination
  by (relation "measure (\<lambda>(t, ns, v). 2 * length ns + (if is_branch t then 0 else 1))")
    (auto simp: lcp_less le_less_trans [OF diff_le_self])

declare pt_insert.simps(4,5) [simp del]

lemma insert_leaf_cases:
  "lcp ns k = length k \<Longrightarrow> lcp ns k = length ns \<Longrightarrow> pt_insert (PLeaf k u) ns v = PLeaf k v"
  "lcp ns k = 0 \<Longrightarrow> k \<noteq> [] \<or> ns \<noteq> [] \<Longrightarrow> pt_insert (PLeaf k u) ns v = pt_insert (leaf_branch k u) ns v"
  "lcp ns k = length k \<Longrightarrow> lcp ns k \<noteq> length ns \<Longrightarrow> lcp ns k \<noteq> 0 \<Longrightarrow>
     pt_insert (PLeaf k u) ns v = PExt k (pt_insert (PBranch no_children (Some u)) (drop (lcp ns k) ns) v)"
  "lcp ns k \<noteq> length k \<Longrightarrow> lcp ns k \<noteq> 0 \<Longrightarrow> pt_insert (PLeaf k u) ns v =
     PExt (take (lcp ns k) k) (pt_insert (PLeaf (drop (lcp ns k) k) u) (drop (lcp ns k) ns) v)"
  by (simp_all add: pt_insert.simps(4) Let_def)

lemma insert_ext_cases:
  "k \<noteq> [] \<Longrightarrow> lcp ns k = 0 \<Longrightarrow> pt_insert (PExt k t) ns v = pt_insert (ext_branch k t) ns v"
  "k \<noteq> [] \<Longrightarrow> lcp ns k \<noteq> 0 \<Longrightarrow> lcp ns k = length k \<Longrightarrow>
     pt_insert (PExt k t) ns v = PExt k (pt_insert t (drop (lcp ns k) ns) v)"
  "k \<noteq> [] \<Longrightarrow> lcp ns k \<noteq> 0 \<Longrightarrow> lcp ns k \<noteq> length k \<Longrightarrow> pt_insert (PExt k t) ns v =
     PExt (take (lcp ns k) k) (pt_insert (PExt (drop (lcp ns k) k) t) (drop (lcp ns k) ns) v)"
  by (simp_all add: pt_insert.simps(5) Let_def)

section \<open>Removal\<close>

text \<open>The indices of the children in use.\<close>

definition used :: "ptrie list \<Rightarrow> nat list" where
  "used ts = filter (\<lambda>i. ts ! i \<noteq> PEmpty) [0..<length ts]"

fun fix_ext :: "byte list \<Rightarrow> ptrie \<Rightarrow> ptrie" where
  "fix_ext k (PExt k' t) = fix_ext (k @ k') t"
| "fix_ext k (PLeaf k' v) = PLeaf (k @ k') v"
| "fix_ext k t = PExt k t"

definition fix_branch :: "ptrie list \<Rightarrow> bytes option \<Rightarrow> ptrie" where
  "fix_branch ts v =
     (case (used ts, v) of
        ([], None) \<Rightarrow> PEmpty
      | ([a], None) \<Rightarrow> fix_ext [word_of_nat a] (ts ! a)
      | ([], Some v) \<Rightarrow> PLeaf [] v
      | _ \<Rightarrow> PBranch ts v)"

function pt_remove :: "ptrie \<Rightarrow> byte list \<Rightarrow> ptrie" where
  "pt_remove PEmpty ns = PEmpty"
| "pt_remove (PLeaf k u) ns = (if k = ns then PEmpty else PLeaf k u)"
| "pt_remove (PBranch ts u) [] = (if u = None then PBranch ts None else fix_branch ts None)"
| "pt_remove (PBranch ts u) (x # ns) =
     (if length ts \<le> unat x \<or> ts ! unat x = PEmpty then PBranch ts u
      else let t = pt_remove (ts ! unat x) ns in
        if t = PEmpty then fix_branch (ts[unat x := PEmpty]) u else PBranch (ts[unat x := t]) u)"
| "pt_remove (PExt k t) ns =
     (if lcp k ns = length k then
        (let t' = pt_remove t (drop (length k) ns) in if t' = PEmpty then PEmpty else fix_ext k t')
      else PExt k t)"
  by pat_completeness auto
termination
  by (relation "measure (\<lambda>(t, ns). size t)")
    (auto simp: less_Suc_eq_le not_le intro!: le_SucI size_list_estimation' [OF nth_mem order.refl])

section \<open>Canonical tries\<close>

definition entries :: "ptrie list \<Rightarrow> bytes option \<Rightarrow> nat" where
  "entries ts v = length (used ts) + (if v = None then 0 else 1)"

abbreviation nibs_ok :: "byte list \<Rightarrow> bool" where
  "nibs_ok ns \<equiv> \<forall>x \<in> set ns. unat x < 16"

fun canon :: "ptrie \<Rightarrow> bool" where
  "canon PEmpty \<longleftrightarrow> True"
| "canon (PLeaf k v) \<longleftrightarrow> nibs_ok k \<and> v \<noteq> []"
| "canon (PExt k t) \<longleftrightarrow> nibs_ok k \<and> k \<noteq> [] \<and> is_branch t \<and> canon t"
| "canon (PBranch ts v) \<longleftrightarrow> length ts = 16 \<and> (\<forall>t \<in> set ts. canon t) \<and> v \<noteq> Some [] \<and> 2 \<le> entries ts v"

text \<open>A branch on its way: its children are canonical, its entries are not counted.\<close>

fun branch_ok :: "ptrie \<Rightarrow> bool" where
  "branch_ok (PBranch ts v) \<longleftrightarrow> length ts = 16 \<and> (\<forall>t \<in> set ts. canon t) \<and> v \<noteq> Some []"
| "branch_ok _ \<longleftrightarrow> False"

lemma canon_branch_iff: "is_branch t \<Longrightarrow> canon t \<longleftrightarrow> branch_ok t \<and> (case t of PBranch ts v \<Rightarrow> 2 \<le> entries ts v)"
  by (cases t) auto

section \<open>Insertion is an update\<close>

definition pre :: "ptrie \<Rightarrow> bool" where
  "pre t \<longleftrightarrow> canon t \<or> branch_ok t"

lemma length_no_children [simp]: "length no_children = 16"
  by (simp add: no_children_def)

lemma no_children_nth [simp]: "i < 16 \<Longrightarrow> no_children ! i = PEmpty"
  by (simp add: no_children_def)

lemma set_no_children [simp]: "set no_children = {PEmpty}"
  by (simp add: no_children_def)

lemma all_update: "\<forall>t \<in> set ts. P t \<Longrightarrow> P x \<Longrightarrow> \<forall>t \<in> set (ts[i := x]). P t"
  using set_update_subset_insert [of ts i x] by auto

lemma lookup_leaf_branch: "nibs_ok k \<Longrightarrow> pt_lookup (leaf_branch k u) ms = pt_lookup (PLeaf k u) ms"
  by (cases k; cases ms) (auto simp: nth_list_update byte_eq_iff)

lemma lookup_ext_branch: "nibs_ok k \<Longrightarrow> k \<noteq> [] \<Longrightarrow> pt_lookup (ext_branch k t) ms = pt_lookup (PExt k t) ms"
  by (induction k t rule: ext_branch.induct; cases ms)
    (auto simp: nth_list_update byte_eq_iff)

lemma branch_ok_leaf_branch: "nibs_ok k \<Longrightarrow> u \<noteq> [] \<Longrightarrow> branch_ok (leaf_branch k u)"
  by (cases k) (auto dest!: subsetD [OF set_update_subset_insert])

lemma branch_ok_ext_branch: "canon (PExt k t) \<Longrightarrow> branch_ok (ext_branch k t)"
  by (induction k t rule: ext_branch.induct) (auto dest!: subsetD [OF set_update_subset_insert])

lemma branch_ok_no_children: "u \<noteq> [] \<Longrightarrow> branch_ok (PBranch no_children (Some u))"
  by simp

lemma pre_child: "pre (PBranch ts u) \<Longrightarrow> unat (x :: byte) < 16 \<Longrightarrow> length ts = 16 \<and> canon (ts ! unat x)"
  by (auto simp: pre_def)

lemma nibs_ok_drop: "nibs_ok k \<Longrightarrow> nibs_ok (drop n k)"
  by (auto dest: in_set_dropD)

lemma nibs_ok_take: "nibs_ok k \<Longrightarrow> nibs_ok (take n k)"
  by (auto dest: in_set_takeD)

lemma eq_take_drop: "xs = ys \<longleftrightarrow> take n xs = take n ys \<and> drop n xs = drop n ys"
  by (metis append_take_drop_id)

lemma insert_lookup:
  "pre t \<Longrightarrow> nibs_ok ns \<Longrightarrow> pt_lookup (pt_insert t ns v) ms = (if ms = ns then Some v else pt_lookup t ms)"
proof (induction t ns v arbitrary: ms rule: pt_insert.induct)
  case (1 ns v)
  then show ?case by auto
next
  case (2 ts u v)
  then show ?case by (cases ms) auto
next
  case (3 ts u x ns v)
  then have "length ts = 16" "canon (ts ! unat x)" "unat x < 16" using pre_child [of ts u x] by auto
  then show ?case using 3 by (cases ms) (auto simp: nth_list_update byte_eq_iff pre_def)
next
  case (4 k u ns v)
  let ?cp = "lcp ns k"
  have k: "nibs_ok k" "u \<noteq> []" using 4(4) by (auto simp: pre_def)
  have take: "take ?cp ns = take ?cp k" by (rule take_lcp)
  note split = eq_take_drop [of ms ns ?cp] eq_take_drop [of k ms ?cp]
  consider (same) "?cp = length k" "?cp = length ns" | (apart) "?cp = 0" "k \<noteq> [] \<or> ns \<noteq> []"
    | (longer) "?cp = length k" "?cp \<noteq> length ns" "?cp \<noteq> 0" | (fork) "?cp \<noteq> length k" "?cp \<noteq> 0"
    by (metis length_0_conv)
  then show ?case
  proof cases
    case same
    then have "ns = k" using take by (metis order_refl take_all)
    then show ?thesis using insert_leaf_cases(1) [OF same] by auto
  next
    case apart
    have "pre (leaf_branch k u)" using branch_ok_leaf_branch k by (simp add: pre_def)
    then have "pt_lookup (pt_insert (leaf_branch k u) ns v) ms =
        (if ms = ns then Some v else pt_lookup (leaf_branch k u) ms)"
      using 4(1) [OF refl _ apart(1) _ 4(5)] apart by auto
    then show ?thesis unfolding insert_leaf_cases(2) [OF apart] lookup_leaf_branch [OF k(1)] .
  next
    case longer
    have "pre (PBranch no_children (Some u))" using k by (simp add: pre_def)
    then have "pt_lookup (pt_insert (PBranch no_children (Some u)) (drop ?cp ns) v) (drop ?cp ms) =
        (if drop ?cp ms = drop ?cp ns then Some v else pt_lookup (leaf_branch [] u) (drop ?cp ms))"
      using 4(2) [OF refl _ _ longer(1) _ nibs_ok_drop [OF 4(5)]] longer by simp
    moreover have "take ?cp ns = k" "drop ?cp k = []" "take ?cp k = k" using take longer by simp_all
    ultimately show ?thesis
      unfolding insert_leaf_cases(3) [OF longer] using split longer(1) lookup_leaf_branch [of "[]" u "drop ?cp ms"]
      by auto
  next
    case fork
    have "pre (PLeaf (drop ?cp k) u)" using k nibs_ok_drop by (simp add: pre_def)
    then have "pt_lookup (pt_insert (PLeaf (drop ?cp k) u) (drop ?cp ns) v) (drop ?cp ms) =
        (if drop ?cp ms = drop ?cp ns then Some v else if drop ?cp k = drop ?cp ms then Some u else None)"
      using 4(3) [OF refl _ fork(2,1) _ nibs_ok_drop [OF 4(5)]] fork by simp
    moreover have "length (take ?cp k) = ?cp" using lcp_le(2) [of ns k] by simp
    ultimately show ?thesis
      unfolding insert_leaf_cases(4) [OF fork] pt_lookup.simps using split take by auto
  qed
next
  case (5 k t ns v)
  let ?cp = "lcp ns k"
  have ct: "canon (PExt k t)" using 5(4) by (auto simp: pre_def)
  then have k: "nibs_ok k" "k \<noteq> []" "pre t" by (simp_all add: pre_def)
  have take: "take ?cp ns = take ?cp k" by (rule take_lcp)
  note split = eq_take_drop [of ms ns ?cp]
  consider (apart) "?cp = 0" | (along) "?cp \<noteq> 0" "?cp = length k" | (fork) "?cp \<noteq> 0" "?cp \<noteq> length k" by blast
  then show ?case
  proof cases
    case apart
    have "pre (ext_branch k t)" using branch_ok_ext_branch [OF ct] by (simp add: pre_def)
    from 5(1) [OF refl k(2) apart this 5(5), of ms] show ?thesis
      unfolding insert_ext_cases(1) [OF k(2) apart] lookup_ext_branch [OF k(1,2)] .
  next
    case along
    from 5(2) [OF refl k(2) along k(3) nibs_ok_drop [OF 5(5)], of "drop ?cp ms"]
    have "pt_lookup (pt_insert t (drop ?cp ns) v) (drop ?cp ms) =
        (if drop ?cp ms = drop ?cp ns then Some v else pt_lookup t (drop ?cp ms))" .
    moreover have "take ?cp ns = k" "take ?cp k = k" using take along by simp_all
    ultimately show ?thesis
      unfolding insert_ext_cases(2) [OF k(2) along] pt_lookup.simps using split along(2) by auto
  next
    case fork
    have cp: "?cp < length k" using lcp_le(2) [of ns k] fork by simp
    have "pre (PExt (drop ?cp k) t)" using ct cp nibs_ok_drop [OF k(1)] by (simp add: pre_def)
    from 5(3) [OF refl k(2) fork this nibs_ok_drop [OF 5(5)], of "drop ?cp ms"]
    have "pt_lookup (pt_insert (PExt (drop ?cp k) t) (drop ?cp ns) v) (drop ?cp ms) =
        (if drop ?cp ms = drop ?cp ns then Some v else pt_lookup (PExt (drop ?cp k) t) (drop ?cp ms))" .
    moreover have "take (length k) ms = k \<longleftrightarrow>
        take ?cp ms = take ?cp k \<and> take (length k - ?cp) (drop ?cp ms) = drop ?cp k"
      using cp eq_take_drop [of "take (length k) ms" k ?cp] by (auto simp: min_absorb1 drop_take)
    moreover have "length (take ?cp k) = ?cp" using cp by simp
    moreover have "drop (length k - ?cp) (drop ?cp ms) = drop (length k) ms" using cp by simp
    ultimately show ?thesis
      unfolding insert_ext_cases(3) [OF k(2) fork] pt_lookup.simps length_drop using split take by auto
  qed
qed

section \<open>Insertion keeps the form\<close>

lemma length_used: "length (used ts) = card {i. i < length ts \<and> ts ! i \<noteq> PEmpty}"
proof -
  have "distinct (used ts)" by (simp add: used_def)
  then have "length (used ts) = card (set (used ts))" by (simp only: distinct_card)
  then show ?thesis by (simp add: used_def)
qed

lemma used_update:
  assumes "i < length ts" and "t \<noteq> PEmpty"
  shows "length (used (ts[i := t])) = length (used ts) + (if ts ! i = PEmpty then 1 else 0)"
proof -
  let ?A = "{j. j < length ts \<and> ts ! j \<noteq> PEmpty}"
  have "{j. j < length (ts[i := t]) \<and> ts[i := t] ! j \<noteq> PEmpty} = insert i ?A"
    using assms by (auto simp: nth_list_update)
  then show ?thesis using assms by (auto simp: length_used card_insert_if)
qed

lemma used_no_children [simp]: "used no_children = []"
  by (simp add: used_def)

lemma insert_not_empty: "pre t \<Longrightarrow> pt_insert t ns v \<noteq> PEmpty"
proof (induction t ns v rule: pt_insert.induct)
  case (4 k u ns v)
  have "pre (leaf_branch k u)" using 4(4) branch_ok_leaf_branch [of k u] by (auto simp: pre_def)
  then show ?case using 4(1) by (auto simp: pt_insert.simps(4) Let_def)
next
  case (5 k t ns v)
  then have ct: "canon (PExt k t)" by (simp add: pre_def)
  then have "pre (ext_branch k t)" "k \<noteq> []" using branch_ok_ext_branch by (auto simp: pre_def)
  then show ?case using 5(1) by (auto simp: pt_insert.simps(5) Let_def)
qed auto

text \<open>The entry of a branch a key goes through.\<close>

fun entry_free :: "ptrie \<Rightarrow> byte list \<Rightarrow> bool" where
  "entry_free (PBranch ts u) [] \<longleftrightarrow> u = None"
| "entry_free (PBranch ts u) (x # ns) \<longleftrightarrow> ts ! unat x = PEmpty"
| "entry_free _ _ \<longleftrightarrow> False"

fun branch_entries :: "ptrie \<Rightarrow> nat" where
  "branch_entries (PBranch ts u) = entries ts u"
| "branch_entries _ = 0"

lemma canon_iff_branch: "is_branch t \<Longrightarrow> canon t \<longleftrightarrow> branch_ok t \<and> 2 \<le> branch_entries t"
  by (cases t) auto

lemma insert_branch_entries:
  assumes "branch_ok t" and "nibs_ok ns"
  shows "branch_entries (pt_insert t ns v) = branch_entries t + (if entry_free t ns then 1 else 0)"
    and "is_branch (pt_insert t ns v)"
proof -
  obtain ts u where t: "t = PBranch ts u" using assms(1) by (cases t) auto
  show "branch_entries (pt_insert t ns v) = branch_entries t + (if entry_free t ns then 1 else 0)"
  proof (cases ns)
    case Nil
    then show ?thesis by (simp add: t entries_def)
  next
    case (Cons x xs)
    then have "length ts = 16" "canon (ts ! unat x)" "unat x < 16" using assms by (auto simp: t)
    then have "pt_insert (ts ! unat x) xs v \<noteq> PEmpty" by (intro insert_not_empty) (auto simp: pre_def)
    then show ?thesis
      using Cons \<open>length ts = 16\<close> \<open>unat x < 16\<close> by (simp add: t entries_def used_update)
  qed
  show "is_branch (pt_insert t ns v)" by (cases ns) (simp_all add: t)
qed

lemma leaf_branch_entries:
  "nibs_ok k \<Longrightarrow> branch_entries (leaf_branch k u) = 1"
  "nibs_ok k \<Longrightarrow> nibs_ok ns \<Longrightarrow> lcp ns k = 0 \<Longrightarrow> k \<noteq> [] \<or> ns \<noteq> [] \<Longrightarrow> entry_free (leaf_branch k u) ns"
  by (cases k; cases ns; force simp: entries_def used_update nth_list_update byte_eq_iff split: if_splits)+

lemma ext_branch_entries:
  "nibs_ok k \<Longrightarrow> k \<noteq> [] \<Longrightarrow> t \<noteq> PEmpty \<Longrightarrow> branch_entries (ext_branch k t) = 1"
  "nibs_ok k \<Longrightarrow> k \<noteq> [] \<Longrightarrow> nibs_ok ns \<Longrightarrow> lcp ns k = 0 \<Longrightarrow> entry_free (ext_branch k t) ns"
  by (induction k t rule: ext_branch.induct; cases ns;
      force simp: entries_def used_update nth_list_update byte_eq_iff split: if_splits)+

lemma lcp_drop: "lcp (drop (lcp xs ys) xs) (drop (lcp xs ys) ys) = 0"
  by (induction xs ys rule: lcp.induct) auto

lemma apart_branch:
  assumes "branch_ok b" and "branch_entries b = 1" and "entry_free b ns" and "nibs_ok ns"
    and "branch_ok (pt_insert b ns v)"
  shows "canon (pt_insert b ns v)" and "is_branch (pt_insert b ns v)"
  using insert_branch_entries [OF assms(1,4), of v] assms(2,3,5) by (simp_all add: canon_iff_branch)

lemma fork_is_branch:
  "nibs_ok k \<Longrightarrow> u \<noteq> [] \<Longrightarrow> nibs_ok ns \<Longrightarrow> lcp ns k = 0 \<Longrightarrow> k \<noteq> [] \<or> ns \<noteq> [] \<Longrightarrow> is_branch (pt_insert (PLeaf k u) ns v)"
  "canon (PExt k t) \<Longrightarrow> nibs_ok ns \<Longrightarrow> lcp ns k = 0 \<Longrightarrow> is_branch (pt_insert (PExt k t) ns v)"
  using insert_branch_entries(2) [OF branch_ok_leaf_branch, of k u ns v]
    insert_branch_entries(2) [OF branch_ok_ext_branch, of k t ns v]
  by (auto simp: insert_leaf_cases(2) insert_ext_cases(1))

lemma insert_form:
  "pre t \<Longrightarrow> nibs_ok ns \<Longrightarrow> v \<noteq> [] \<Longrightarrow>
     (canon t \<longrightarrow> canon (pt_insert t ns v)) \<and> (branch_ok t \<longrightarrow> branch_ok (pt_insert t ns v))"
proof (induction t ns v rule: pt_insert.induct)
  case (1 ns v)
  then show ?case by simp
next
  case (2 ts u v)
  then show ?case by (auto simp: entries_def)
next
  case (3 ts u x ns v)
  have x: "length ts = 16" "canon (ts ! unat x)" "unat x < 16" using 3 pre_child [of ts u x] by auto
  then have ok: "canon (pt_insert (ts ! unat x) ns v)" using 3 by (auto simp: pre_def)
  have b: "branch_ok (PBranch ts u)" using 3(2) by (auto simp: pre_def)
  then have "branch_ok (pt_insert (PBranch ts u) (x # ns) v)" 
    using x all_update [of ts canon "pt_insert (ts ! unat x) ns v" "unat x"] ok by simp
  moreover have "entries ts u \<le> branch_entries (pt_insert (PBranch ts u) (x # ns) v)"
    using insert_branch_entries(1) [OF b 3(3), of v] by simp
  moreover have "is_branch (pt_insert (PBranch ts u) (x # ns) v)" by simp
  ultimately show ?case by (simp add: canon_iff_branch del: pt_insert.simps)
next
  case (4 k u ns v)
  let ?cp = "lcp ns k"
  have k: "nibs_ok k" "u \<noteq> []" using 4(4) by (auto simp: pre_def)
  consider (same) "?cp = length k" "?cp = length ns" | (apart) "?cp = 0" "k \<noteq> [] \<or> ns \<noteq> []"
    | (longer) "?cp = length k" "?cp \<noteq> length ns" "?cp \<noteq> 0" | (fork) "?cp \<noteq> length k" "?cp \<noteq> 0"
    by (metis length_0_conv)
  then have "canon (pt_insert (PLeaf k u) ns v)"
  proof cases
    case same
    then show ?thesis using insert_leaf_cases(1) [OF same] k 4 by simp
  next
    case apart
    note b = branch_ok_leaf_branch [OF k] leaf_branch_entries(1) [OF k(1)]
      leaf_branch_entries(2) [OF k(1) 4(5) apart]
    have "branch_ok (pt_insert (leaf_branch k u) ns v)"
      using 4(1) [OF refl _ apart(1) _ 4(5,6)] apart b(1) by (auto simp: pre_def)
    then show ?thesis
      unfolding insert_leaf_cases(2) [OF apart] using apart_branch(1) b 4(5) by blast
  next
    case longer
    let ?b = "leaf_branch [] u" and ?ns = "drop ?cp ns"
    have ns: "nibs_ok ?ns" "?ns \<noteq> []" using 4(5) nibs_ok_drop longer lcp_le(1) [of ns k] by auto
    note b = branch_ok_leaf_branch [of "[]" u] leaf_branch_entries(1) [of "[]" u]
      leaf_branch_entries(2) [of "[]" ?ns u]
    have "branch_ok (pt_insert ?b ?ns v)"
      using 4(2) [OF refl _ _ longer(1) _ ns(1) 4(6)] longer k by (auto simp: pre_def)
    then have "canon (pt_insert ?b ?ns v)" "is_branch (pt_insert ?b ?ns v)"
      using apart_branch [of ?b ?ns v] b ns k by (auto simp del: leaf_branch.simps)
    then show ?thesis
      unfolding insert_leaf_cases(3) [OF longer] using k longer by simp
  next
    case fork
    let ?k = "drop ?cp k" and ?ns = "drop ?cp ns"
    have "?k \<noteq> []" using fork lcp_le(2) [of ns k] by simp
    then have "is_branch (pt_insert (PLeaf ?k u) ?ns v)"
      using fork_is_branch(1) [of ?k u ?ns v] nibs_ok_drop k 4(5) lcp_drop [of ns k] by blast
    moreover have "canon (pt_insert (PLeaf ?k u) ?ns v)"
      using 4(3) [OF refl _ fork(2,1) _ nibs_ok_drop [OF 4(5)] 4(6)] fork k nibs_ok_drop [OF k(1)]
      by (auto simp: pre_def)
    moreover have "take ?cp k \<noteq> []" "nibs_ok (take ?cp k)"
      using fork lcp_le(2) [of ns k] nibs_ok_take [OF k(1)] by auto
    ultimately show ?thesis unfolding insert_leaf_cases(4) [OF fork] by simp
  qed
  then show ?case by simp
next
  case (5 k t ns v)
  let ?cp = "lcp ns k"
  have ct: "canon (PExt k t)" using 5(4) by (auto simp: pre_def)
  then have k: "nibs_ok k" "k \<noteq> []" "pre t" "is_branch t" "branch_ok t" "canon t" "t \<noteq> PEmpty"
    by (auto simp: pre_def canon_iff_branch)
  consider (apart) "?cp = 0" | (along) "?cp \<noteq> 0" "?cp = length k" | (fork) "?cp \<noteq> 0" "?cp \<noteq> length k" by blast
  then have "canon (pt_insert (PExt k t) ns v)"
  proof cases
    case apart
    note b = branch_ok_ext_branch [OF ct] ext_branch_entries(1) [OF k(1,2,7)]
      ext_branch_entries(2) [OF k(1,2) 5(5) apart]
    have "branch_ok (pt_insert (ext_branch k t) ns v)"
      using 5(1) [OF refl k(2) apart _ 5(5,6)] b(1) by (auto simp: pre_def)
    then show ?thesis
      unfolding insert_ext_cases(1) [OF k(2) apart] using apart_branch(1) b 5(5) by blast
  next
    case along
    have "canon (pt_insert t (drop ?cp ns) v)" "is_branch (pt_insert t (drop ?cp ns) v)"
      using 5(2) [OF refl k(2) along k(3) nibs_ok_drop [OF 5(5)] 5(6)] k
        insert_branch_entries(2) [OF k(5) nibs_ok_drop [OF 5(5)]] by auto
    then show ?thesis unfolding insert_ext_cases(2) [OF k(2) along] using k by simp
  next
    case fork
    let ?k = "drop ?cp k" and ?ns = "drop ?cp ns"
    have cp: "?cp < length k" using lcp_le(2) [of ns k] fork by simp
    have c: "canon (PExt ?k t)" using ct cp nibs_ok_drop [OF k(1)] by simp
    then have "is_branch (pt_insert (PExt ?k t) ?ns v)"
      using fork_is_branch(2) nibs_ok_drop [OF 5(5)] lcp_drop [of ns k] by blast
    moreover have "canon (pt_insert (PExt ?k t) ?ns v)"
      using 5(3) [OF refl k(2) fork _ nibs_ok_drop [OF 5(5)] 5(6)] c by (auto simp: pre_def)
    moreover have "take ?cp k \<noteq> []" "nibs_ok (take ?cp k)"
      using fork k nibs_ok_take [OF k(1)] by auto
    ultimately show ?thesis unfolding insert_ext_cases(3) [OF k(2) fork] by simp
  qed
  then show ?case by simp
qed

section \<open>Removal is an update and keeps the form\<close>

lemma used_iff: "i \<in> set (used ts) \<longleftrightarrow> i < length ts \<and> ts ! i \<noteq> PEmpty"
  by (auto simp: used_def)

lemma lookup_empty_child: "i \<notin> set (used ts) \<Longrightarrow> i < length ts \<Longrightarrow> pt_lookup (ts ! i) ms = None"
  by (simp add: used_iff)

lemma lookup_fix_ext: "pt_lookup (fix_ext k t) ms = pt_lookup (PExt k t) ms"
proof (induction k t rule: fix_ext.induct)
  case (1 k k' t)
  have "take (length k + length k') ms = k @ k' \<longleftrightarrow>
      take (length k) ms = k \<and> take (length k') (drop (length k) ms) = k'"
    using eq_take_drop [of "take (length k + length k') ms" "k @ k'" "length k"]
    by (simp add: min_absorb1 drop_take)
  then show ?case using 1 by (simp add: add.commute)
next
  case (2 k k' v)
  then show ?case using eq_take_drop [of "k @ k'" ms "length k"] by auto
qed auto

lemma lookup_fix_branch:
  assumes "length ts = 16"
  shows "pt_lookup (fix_branch ts v) ms = pt_lookup (PBranch ts v) ms"
proof -
  have none: "pt_lookup (ts ! i) xs = None" if "i \<notin> set (used ts)" "i < 16" for i xs
    using lookup_empty_child that assms by simp
  consider (leaf) "used ts = []" | (one) a where "used ts = [a]" "v = None"
    | (same) "fix_branch ts v = PBranch ts v"
    by (cases "used ts"; cases "tl (used ts)"; cases v) (auto simp: fix_branch_def)
  then show ?thesis
  proof cases
    case leaf
    then show ?thesis using none assms by (cases v; cases ms) (auto simp: fix_branch_def)
  next
    case one
    then have a: "a < 16" using used_iff [of a ts] assms by simp
    then have "unat x = a \<longleftrightarrow> word_of_nat a = x" for x :: byte by (auto simp: byte_eq_iff)
    then show ?thesis
      using one none assms a by (cases ms) (auto simp: fix_branch_def lookup_fix_ext)
  qed simp
qed

lemma canon_fix_ext:
  assumes "canon t" and "t \<noteq> PEmpty" and "nibs_ok k" and "k \<noteq> []"
  shows "canon (fix_ext k t)" and "fix_ext k t \<noteq> PEmpty"
proof -
  have b: "is_branch t' \<Longrightarrow> fix_ext l t' = PExt l t'" for t' l by (cases t') auto
  show "canon (fix_ext k t)" "fix_ext k t \<noteq> PEmpty"
    using assms by (cases t; auto simp: b)+
qed

lemma canon_fix_branch:
  assumes "branch_ok (PBranch ts v)" and "1 \<le> entries ts v"
  shows "canon (fix_branch ts v)" and "fix_branch ts v \<noteq> PEmpty"
proof -
  consider (leaf) u where "used ts = []" "v = Some u" | (one) a where "used ts = [a]" "v = None"
    | (same) "fix_branch ts v = PBranch ts v" "2 \<le> entries ts v"
    using assms(2) by (cases "used ts"; cases "tl (used ts)"; cases v) (auto simp: fix_branch_def entries_def)
  then have "canon (fix_branch ts v) \<and> fix_branch ts v \<noteq> PEmpty"
  proof cases
    case leaf
    then show ?thesis using assms by (simp add: fix_branch_def)
  next
    case one
    then have "a < 16" "ts ! a \<noteq> PEmpty" "canon (ts ! a)" using used_iff [of a ts] assms by auto
    then show ?thesis using one canon_fix_ext [of "ts ! a" "[word_of_nat a]"] by (simp add: fix_branch_def)
  next
    case same
    then show ?thesis using assms by simp
  qed
  then show "canon (fix_branch ts v)" "fix_branch ts v \<noteq> PEmpty" by simp_all
qed

lemma used_clear:
  assumes "i < length ts" and "ts ! i \<noteq> PEmpty"
  shows "length (used ts) = length (used (ts[i := PEmpty])) + 1"
  using used_update [of i "ts[i := PEmpty]" "ts ! i"] assms by simp

lemma remove_lookup:
  "canon t \<Longrightarrow> pt_lookup (pt_remove t ns) ms = (if ms = ns then None else pt_lookup t ms)"
proof (induction t ns arbitrary: ms rule: pt_remove.induct)
  case (3 ts u)
  then show ?case by (cases ms) (auto simp: lookup_fix_branch)
next
  case (4 ts u x ns)
  show ?case
  proof (cases "length ts \<le> unat x \<or> ts ! unat x = PEmpty")
    case True
    then show ?thesis using 4 by (cases ms) auto
  next
    case False
    then have x: "unat x < 16" "length ts = 16" "canon (ts ! unat x)" using 4(2) by auto
    have "pt_lookup (pt_remove (PBranch ts u) (x # ns)) ms =
        pt_lookup (PBranch (ts[unat x := pt_remove (ts ! unat x) ns]) u) ms"
      using False x by (simp add: Let_def lookup_fix_branch)
    then show ?thesis
      using 4(1) [OF False x(3)] x by (cases ms) (auto simp: nth_list_update byte_eq_iff)
  qed
next
  case (5 k t ns)
  show ?case
  proof (cases "lcp k ns = length k")
    case True
    then have ns: "take (length k) ns = k" using take_lcp [of k ns] by simp
    have "pt_lookup (pt_remove (PExt k t) ns) ms = pt_lookup (PExt k (pt_remove t (drop (length k) ns))) ms"
      using True by (simp add: Let_def lookup_fix_ext)
    then show ?thesis
      using 5(1) [OF True] 5(2) eq_take_drop [of ms ns "length k"] ns by auto
  next
    case False
    then have "take (length k) ns \<noteq> k" using lcp_full [of ns k] lcp_greatest [of "length k" k ns]
      by (metis append_take_drop_id le_antisym lcp_le(1) length_take min.cobounded1 order_refl take_all)
    then show ?thesis using False by auto
  qed
qed auto

lemma remove_form:
  "canon t \<Longrightarrow> canon (pt_remove t ns) \<and> (is_branch t \<longrightarrow> pt_remove t ns \<noteq> PEmpty)"
proof (induction t ns rule: pt_remove.induct)
  case (3 ts u)
  then show ?case using canon_fix_branch [of ts None] by (auto simp: entries_def)
next
  case (4 ts u x ns)
  show ?case
  proof (cases "length ts \<le> unat x \<or> ts ! unat x = PEmpty")
    case False
    then have x: "unat x < length ts" "canon (ts ! unat x)" "ts ! unat x \<noteq> PEmpty" using 4(2) by auto
    let ?t = "pt_remove (ts ! unat x) ns"
    have ok: "\<forall>t \<in> set (ts[unat x := t']). canon t" if "canon t'" for t'
      using 4(2) all_update [of ts canon t' "unat x"] that by simp
    have "canon ?t" using 4(1) [OF False x(2)] by simp
    then show ?thesis
      using False x 4(2) ok [of PEmpty] ok [of ?t] canon_fix_branch [of "ts[unat x := PEmpty]" u]
        used_clear [OF x(1,3)] used_update [OF x(1), of ?t]
      by (simp add: Let_def entries_def)
  qed (use 4 in auto)
next
  case (5 k t ns)
  then show ?case
    using canon_fix_ext [of "pt_remove t (drop (length k) ns)" k] by (simp add: Let_def)
qed auto

section \<open>The contract holds\<close>

interpretation pt: finite_map_ops canon nibs_ok PEmpty pt_lookup pt_insert pt_remove
  by unfold_locales (auto simp: insert_lookup insert_form remove_lookup remove_form pre_def fun_eq_iff)

section \<open>A canonical trie is determined by its map\<close>

lemma lookup_prefix: "pt_lookup (PExt k t) (k @ ns) = pt_lookup t ns"
  by simp

lemma canon_some_key: "canon t \<Longrightarrow> t \<noteq> PEmpty \<Longrightarrow> \<exists>ns v. pt_lookup t ns = Some v"
proof (induction t)
  case (PLeaf k v)
  then show ?case by auto
next
  case (PExt k t)
  then have "t \<noteq> PEmpty" "canon t" by auto
  then show ?case using PExt.IH lookup_prefix by metis
next
  case (PBranch ts u)
  show ?case
  proof (cases u)
    case None
    then have "used ts \<noteq> []" using PBranch.prems by (auto simp: entries_def)
    then obtain i where i: "i < 16" "ts ! i \<noteq> PEmpty" "i < length ts"
      using used_iff [of _ ts] PBranch.prems by (metis canon.simps(4) hd_in_set)
    then obtain ns v where "pt_lookup (ts ! i) ns = Some v" using PBranch by (metis canon.simps(4) nth_mem)
    then have "pt_lookup (PBranch ts u) (word_of_nat i # ns) = Some v" using i by (simp add: unat_of_nat)
    then show ?thesis by blast
  next
    case (Some v)
    then have "pt_lookup (PBranch ts u) [] = Some v" by simp
    then show ?thesis by blast
  qed
qed simp

text \<open>Two keys of a branch part at once.\<close>

lemma canon_branch_parts:
  assumes "canon (PBranch ts u)"
  shows "\<exists>a b. a \<noteq> b \<and> lcp a b = 0 \<and> pt_lookup (PBranch ts u) a \<noteq> None \<and> pt_lookup (PBranch ts u) b \<noteq> None"
proof -
  have key: "\<exists>ns. pt_lookup (PBranch ts u) (word_of_nat i # ns) \<noteq> None" if i: "i \<in> set (used ts)" for i
  proof -
    have "i < 16" "i < length ts" "ts ! i \<noteq> PEmpty" "canon (ts ! i)"
      using i used_iff [of i ts] assms by auto
    then obtain ns v where "pt_lookup (ts ! i) ns = Some v" using canon_some_key by blast
    then have "pt_lookup (PBranch ts u) (word_of_nat i # ns) = Some v"
      using \<open>i < 16\<close> \<open>i < length ts\<close> by (simp add: unat_of_nat)
    then show ?thesis by blast
  qed
  show ?thesis
  proof (cases u)
    case None
    then have "2 \<le> length (used ts)" "distinct (used ts)" using assms by (simp_all add: entries_def) (simp add: used_def)
    then obtain i j where ij: "i \<in> set (used ts)" "j \<in> set (used ts)" "i \<noteq> j"
      by (cases "used ts"; cases "tl (used ts)") auto
    then have "i < 16" "j < 16" using used_iff assms by auto
    then have "(word_of_nat i :: byte) \<noteq> word_of_nat j" using ij(3) by (simp add: byte_eq_iff unat_of_nat)
    moreover obtain a b where "pt_lookup (PBranch ts u) (word_of_nat i # a) \<noteq> None"
      "pt_lookup (PBranch ts u) (word_of_nat j # b) \<noteq> None" using key ij by blast
    ultimately show ?thesis by (intro exI [of _ "word_of_nat i # a"] exI [of _ "word_of_nat j # b"]) simp
  next
    case (Some v)
    then have "used ts \<noteq> []" using assms by (auto simp: entries_def)
    then obtain i a where "pt_lookup (PBranch ts u) (word_of_nat i # a) \<noteq> None" using key by (meson hd_in_set)
    then show ?thesis using Some by (intro exI [of _ "[]"] exI [of _ "word_of_nat i # a"]) simp
  qed
qed

lemma lcp_append: "lcp (k @ a) (k @ b) = length k + lcp a b"
  by (induction k) auto

lemma ext_keys:
  assumes "canon (PExt k t)"
  shows "pt_lookup (PExt k t) a \<noteq> None \<Longrightarrow> take (length k) a = k"
    and "\<exists>a b. a \<noteq> b \<and> lcp a b = length k \<and> pt_lookup (PExt k t) a \<noteq> None \<and> pt_lookup (PExt k t) b \<noteq> None"
proof -
  show "pt_lookup (PExt k t) a \<noteq> None \<Longrightarrow> take (length k) a = k" by (auto split: if_splits)
  obtain ts u where t: "t = PBranch ts u" "canon t" using assms by (cases t) auto
  then obtain a b where "a \<noteq> b" "lcp a b = 0" "pt_lookup t a \<noteq> None" "pt_lookup t b \<noteq> None"
    using canon_branch_parts by blast
  then show "\<exists>a b. a \<noteq> b \<and> lcp a b = length k \<and> pt_lookup (PExt k t) a \<noteq> None \<and> pt_lookup (PExt k t) b \<noteq> None"
    by (intro exI [of _ "k @ a"] exI [of _ "k @ b"]) (simp add: lcp_append)
qed

text \<open>The length of the common part of the keys, where there are two.\<close>

fun stem :: "ptrie \<Rightarrow> nat" where
  "stem (PExt k t) = length k"
| "stem _ = 0"

lemma stem_least:
  assumes "canon t" and "\<not> (\<exists>k v. t = PLeaf k v)" and "t \<noteq> PEmpty"
  shows "\<exists>a b. a \<noteq> b \<and> lcp a b = stem t \<and> pt_lookup t a \<noteq> None \<and> pt_lookup t b \<noteq> None"
    and "pt_lookup t a \<noteq> None \<Longrightarrow> pt_lookup t b \<noteq> None \<Longrightarrow> stem t \<le> lcp a b"
proof -
  show "\<exists>a b. a \<noteq> b \<and> lcp a b = stem t \<and> pt_lookup t a \<noteq> None \<and> pt_lookup t b \<noteq> None"
    using assms canon_branch_parts ext_keys(2) by (cases t) auto
  show "stem t \<le> lcp a b" if "pt_lookup t a \<noteq> None" "pt_lookup t b \<noteq> None"
  proof (cases t)
    case (PExt k t')
    then have "take (length k) a = k" "take (length k) b = k" using ext_keys(1) assms(1) that by blast+
    then show ?thesis using PExt lcp_greatest [of "length k" a b] by (metis length_take_prefix stem.simps(1))
  qed simp_all
qed

lemma canon_stem_eq:
  assumes "canon p" and "canon q" and "pt_lookup p = pt_lookup q" and "\<not> (\<exists>k v. p = PLeaf k v)" and "p \<noteq> PEmpty"
    and "\<not> (\<exists>k v. q = PLeaf k v)" and "q \<noteq> PEmpty"
  shows "stem p = stem q"
  using stem_least [OF assms(1,4,5)] stem_least [OF assms(2,6,7)] assms(3) by (metis le_antisym)

lemma leaf_keys: "pt_lookup (PLeaf k v) a \<noteq> None \<Longrightarrow> a = k"
  by (auto split: if_splits)

lemma canon_empty_iff: "canon t \<Longrightarrow> pt_lookup t = Map.empty \<longleftrightarrow> t = PEmpty"
  using canon_some_key [of t] by (cases "t = PEmpty") (auto simp: fun_eq_iff)

lemma canon_leaf_unique:
  assumes "canon q" and "pt_lookup q = pt_lookup (PLeaf k v)"
  shows "q = PLeaf k v"
proof -
  have "q \<noteq> PEmpty" using assms(2) by (auto simp: fun_eq_iff split: if_splits)
  have "\<exists>k v. q = PLeaf k v"
  proof (rule ccontr)
    assume "\<not> (\<exists>k v. q = PLeaf k v)"
    then obtain a b where "a \<noteq> b" "pt_lookup q a \<noteq> None" "pt_lookup q b \<noteq> None"
      using stem_least(1) [OF assms(1)] \<open>q \<noteq> PEmpty\<close> by blast
    then show False using leaf_keys [of k v] assms(2) by metis
  qed
  then obtain k' v' where q: "q = PLeaf k' v'" by blast
  then show ?thesis using assms(2) by (metis option.inject option.simps(3) pt_lookup.simps(2))
qed

lemma canon_determined: "canon p \<Longrightarrow> canon q \<Longrightarrow> pt_lookup p = pt_lookup q \<Longrightarrow> p = q"
proof (induction p arbitrary: q)
  case PEmpty
  then show ?case using canon_empty_iff [of q] by (simp add: fun_eq_iff)
next
  case (PLeaf k v)
  then show ?case using canon_leaf_unique by metis
next
  case (PExt k t)
  have q: "q \<noteq> PEmpty" "\<not> (\<exists>k v. q = PLeaf k v)"
    using PExt.prems canon_empty_iff canon_leaf_unique by (metis ptrie.distinct(3), metis ptrie.distinct(7))
  then have len: "stem q = length k" using canon_stem_eq [OF PExt.prems] by simp
  then obtain k' t' where q': "q = PExt k' t'" using q PExt.prems(1) by (cases q) auto
  obtain a where a: "pt_lookup (PExt k t) a \<noteq> None" using ext_keys(2) [OF PExt.prems(1)] by blast
  then have "pt_lookup (PExt k' t') a \<noteq> None" using PExt.prems(3) q' by metis
  then have "k = k'"
    using a ext_keys(1) [OF PExt.prems(1)] ext_keys(1) [OF PExt.prems(2) [unfolded q']] len q' by (metis stem.simps(1))
  moreover have "pt_lookup t = pt_lookup t'"
    using PExt.prems(3) lookup_prefix unfolding q' \<open>k = k'\<close> by (metis ext)
  moreover have "canon t" "canon t'" using PExt.prems q' by simp_all
  ultimately show ?case using PExt.IH q' by blast
next
  case (PBranch ts u)
  have q: "q \<noteq> PEmpty" "\<not> (\<exists>k v. q = PLeaf k v)"
    using PBranch.prems canon_empty_iff canon_leaf_unique by (metis ptrie.distinct(5), metis ptrie.distinct(9))
  then have len: "stem q = 0" using canon_stem_eq [OF PBranch.prems] by simp
  then obtain ts' u' where q': "q = PBranch ts' u'" using q PBranch.prems(2) by (cases q) auto
  have eq: "pt_lookup (PBranch ts u) ns = pt_lookup (PBranch ts' u') ns" for ns
    using PBranch.prems(3) q' by simp
  have sizes: "length ts = 16" "length ts' = 16" using PBranch.prems q' by simp_all
  have "ts ! i = ts' ! i" if i: "i < 16" for i
  proof -
    have "pt_lookup (ts ! i) ns = pt_lookup (ts' ! i) ns" for ns
      using eq [of "word_of_nat i # ns"] i sizes by (simp add: unat_of_nat)
    moreover have "canon (ts ! i)" "canon (ts' ! i)" "ts ! i \<in> set ts" using PBranch.prems q' i sizes by simp_all
    ultimately show ?thesis using PBranch.IH by blast
  qed
  then have "ts = ts'" using sizes by (simp add: list_eq_iff_nth_eq)
  then show ?case using eq [of "[]"] q' by simp
qed

end
