(* ===== verification/Trie_Heap.thy ===== *)
theory Trie_Heap
  imports Trie_Mut Trie_Map
begin

text \<open>
  The storage of the mutable trie as a heap of slots (\<open>patricia_trie/src/triedbmut.rs\<close>).

  \<open>handle_rep ok nodes h t F\<close> says that the handle \<open>h\<close> stands for the trie \<open>t\<close> and owns the slots
  \<open>F\<close> of the storage; the children of a node own disjoint sets of slots.  \<open>step F st F' st'\<close> is what
  an operation that owns \<open>F\<close> may do to the storage: it ends up owning \<open>F'\<close> and leaves every other
  slot in use as it was.  \<open>triple D get P m Q\<close> is total correctness of an action over assertions on
  the slots owned, with a frame rule for what the action does not own; loading a node, taking it
  out of its slot and putting one in have their triples here.
\<close>

section \<open>Slots in use\<close>

definition live :: "node_storage \<Rightarrow> nat set" where
  "live st = {i. i < length (st_nodes st) \<and> i \<notin> set (st_free st)}"

definition st_ok :: "node_storage \<Rightarrow> bool" where
  "st_ok st \<longleftrightarrow> distinct (st_free st) \<and> set (st_free st) \<subseteq> {..<length (st_nodes st)}"

definition step :: "nat set \<Rightarrow> node_storage \<Rightarrow> nat set \<Rightarrow> node_storage \<Rightarrow> bool" where
  "step F st F' st' \<longleftrightarrow>
     st_ok st' \<and> F' \<subseteq> live st' \<and> F' \<inter> (live st - F) = {} \<and> live st - F \<subseteq> live st' \<and>
     length (st_nodes st) \<le> length (st_nodes st') \<and>
     (\<forall>i \<in> live st - F. st_nodes st' ! i = st_nodes st ! i)"

lemma stepD:
  assumes "step F st F' st'"
  shows "st_ok st'" and "F' \<subseteq> live st'" and "length (st_nodes st) \<le> length (st_nodes st')"
  using assms by (simp_all add: step_def)

lemma step_refl: "st_ok st \<Longrightarrow> F \<subseteq> live st \<Longrightarrow> step F st F st"
  by (auto simp: step_def)

lemma step_sub: "step F st F' st' \<Longrightarrow> live st - F \<subseteq> live st' - F'"
  unfolding step_def by blast

lemma step_trans:
  assumes 1: "step F st F' st'" and 2: "step F' st' F'' st''"
  shows "step F st F'' st''"
proof -
  have sub: "live st - F \<subseteq> live st' - F'" using step_sub [OF 1] .
  have "\<forall>i \<in> live st - F. st_nodes st'' ! i = st_nodes st ! i"
    using 1 2 sub unfolding step_def by (metis subsetD)
  moreover have "F'' \<inter> (live st - F) = {}" using step_sub [OF 2] sub 2 unfolding step_def by blast
  moreover have "live st - F \<subseteq> live st''" using step_sub [OF 2] sub by blast
  moreover have "length (st_nodes st) \<le> length (st_nodes st'')"
    using 1 2 unfolding step_def by linarith
  ultimately show ?thesis using 2 unfolding step_def by blast
qed

lemma step_frame:
  assumes "step F st F' st'" and "G \<subseteq> live st" and "F \<inter> G = {}"
  shows "step (F \<union> G) st (F' \<union> G) st'" and "F' \<inter> G = {}" and "\<forall>i \<in> G. st_nodes st' ! i = st_nodes st ! i"
proof -
  have G: "G \<subseteq> live st - F" using assms(2,3) by blast
  have s: "st_ok st'" "F' \<subseteq> live st'" "F' \<inter> (live st - F) = {}" "live st - F \<subseteq> live st'"
    "length (st_nodes st) \<le> length (st_nodes st')" "\<forall>i \<in> live st - F. st_nodes st' ! i = st_nodes st ! i"
    using assms(1) by (simp_all add: step_def)
  show "F' \<inter> G = {}" using s(3) G by blast
  show "\<forall>i \<in> G. st_nodes st' ! i = st_nodes st ! i" using s(6) G by blast
  have "(F' \<union> G) \<inter> (live st - (F \<union> G)) = {}" using s(3) G by blast
  moreover have "F' \<union> G \<subseteq> live st'" using s(2,4) G by blast
  moreover have "live st - (F \<union> G) \<subseteq> live st'" using s(4) by blast
  moreover have "\<forall>i \<in> live st - (F \<union> G). st_nodes st' ! i = st_nodes st ! i" using s(6) by simp
  ultimately show "step (F \<union> G) st (F' \<union> G) st'" using s(1,5) unfolding step_def by blast
qed

lemma alloc_step:
  assumes "st_ok st"
  shows "\<exists>i st'. st_alloc x st = Some (i, st') \<and> step {} st {i} st' \<and> st_nodes st' ! i = x \<and> i \<notin> live st"
proof (cases "st_free st")
  case Nil
  then show ?thesis
    using assms by (auto simp: st_alloc_def step_def live_def st_ok_def nth_append)
next
  case (Cons i free)
  then have "i < length (st_nodes st)" using assms by (auto simp: st_ok_def)
  then show ?thesis
    using assms Cons by (auto simp: st_alloc_def step_def live_def st_ok_def)
qed

lemma destroy_step:
  assumes "st_ok st" and "i \<in> live st"
  shows "\<exists>st'. st_destroy i st = Some (st_nodes st ! i, st') \<and> step {i} st {} st'"
  using assms by (auto simp: st_destroy_def step_def live_def st_ok_def)

section \<open>The trie a handle stands for\<close>

definition stored_ok :: "(bytes \<Rightarrow> ptrie \<Rightarrow> bool) \<Rightarrow> stored \<Rightarrow> ptrie \<Rightarrow> bool" where
  "stored_ok ok x t \<longleftrightarrow>
     (case x of New _ \<Rightarrow> True | Cached _ h \<Rightarrow> ok h t)"

inductive handle_rep :: "(bytes \<Rightarrow> ptrie \<Rightarrow> bool) \<Rightarrow> stored list \<Rightarrow> node_handle \<Rightarrow> ptrie \<Rightarrow> nat set \<Rightarrow> bool"
  and body_rep :: "(bytes \<Rightarrow> ptrie \<Rightarrow> bool) \<Rightarrow> stored list \<Rightarrow> mem_node \<Rightarrow> ptrie \<Rightarrow> nat set \<Rightarrow> bool"
  and children_rep ::
    "(bytes \<Rightarrow> ptrie \<Rightarrow> bool) \<Rightarrow> stored list \<Rightarrow> node_handle option list \<Rightarrow> ptrie list \<Rightarrow> nat set \<Rightarrow> bool"
  for ok nodes where
  H_Hash: "ok h t \<Longrightarrow> handle_rep ok nodes (Hash h) t {}"
| H_Mem: "i < length nodes \<Longrightarrow> body_rep ok nodes (stored_node (nodes ! i)) t F \<Longrightarrow> i \<notin> F \<Longrightarrow>
    stored_ok ok (nodes ! i) t \<Longrightarrow> handle_rep ok nodes (InMemory i) t (insert i F)"
| B_Empty: "body_rep ok nodes MEmpty PEmpty {}"
| B_Leaf: "nibs_ok ns \<Longrightarrow> body_rep ok nodes (MLeaf (hex_prefix ns True) v) (PLeaf ns v) {}"
| B_Ext: "nibs_ok ns \<Longrightarrow> handle_rep ok nodes h t F \<Longrightarrow>
    body_rep ok nodes (MExtension (hex_prefix ns False) h) (PExt ns t) F"
| B_Branch: "children_rep ok nodes hs ts F \<Longrightarrow> length hs = 16 \<Longrightarrow>
    body_rep ok nodes (MBranch hs v) (PBranch ts v) F"
| C_Nil: "children_rep ok nodes [] [] {}"
| C_None: "children_rep ok nodes hs ts G \<Longrightarrow> children_rep ok nodes (None # hs) (PEmpty # ts) G"
| C_Some: "handle_rep ok nodes h t F \<Longrightarrow> t \<noteq> PEmpty \<Longrightarrow> children_rep ok nodes hs ts G \<Longrightarrow> F \<inter> G = {} \<Longrightarrow>
    children_rep ok nodes (Some h # hs) (t # ts) (F \<union> G)"

inductive_cases handle_HashE: "handle_rep ok nodes (Hash h) t F"
inductive_cases handle_MemE: "handle_rep ok nodes (InMemory i) t F"
inductive_cases body_EmptyE: "body_rep ok nodes n PEmpty F"
inductive_cases body_LeafE: "body_rep ok nodes n (PLeaf k v) F"
inductive_cases body_ExtE: "body_rep ok nodes n (PExt k t) F"
inductive_cases body_BranchE: "body_rep ok nodes n (PBranch ts v) F"
inductive_cases children_ConsE: "children_rep ok nodes (c # hs) ts F"
inductive_cases children_NilE: "children_rep ok nodes [] ts F"

lemma rep_other_nodes:
  "handle_rep ok nodes h t F \<Longrightarrow> length nodes \<le> length nodes' \<Longrightarrow> \<forall>i \<in> F. nodes' ! i = nodes ! i \<Longrightarrow>
     handle_rep ok nodes' h t F"
  "body_rep ok nodes n t F \<Longrightarrow> length nodes \<le> length nodes' \<Longrightarrow> \<forall>i \<in> F. nodes' ! i = nodes ! i \<Longrightarrow>
     body_rep ok nodes' n t F"
  "children_rep ok nodes hs ts F \<Longrightarrow> length nodes \<le> length nodes' \<Longrightarrow> \<forall>i \<in> F. nodes' ! i = nodes ! i \<Longrightarrow>
     children_rep ok nodes' hs ts F"
  by (induction rule: handle_rep_body_rep_children_rep.inducts)
    (auto intro!: handle_rep_body_rep_children_rep.intros)

text \<open>A representation that owns \<open>G\<close> survives a step of an operation that does not.\<close>

lemma rep_step:
  assumes "step F st F' st'" and "G \<subseteq> live st" and "F \<inter> G = {}"
  shows "handle_rep ok (st_nodes st) h t G \<Longrightarrow> handle_rep ok (st_nodes st') h t G"
    and "body_rep ok (st_nodes st) n t G \<Longrightarrow> body_rep ok (st_nodes st') n t G"
    and "children_rep ok (st_nodes st) hs ts G \<Longrightarrow> children_rep ok (st_nodes st') hs ts G"
  using rep_other_nodes step_frame(3) [OF assms] stepD(3) [OF assms(1)] by blast+

lemma children_length: "children_rep ok nodes hs ts F \<Longrightarrow> length ts = length hs"
  by (induction hs arbitrary: ts F) (auto elim: children_NilE children_ConsE)

section \<open>Assertions\<close>

type_synonym assertion = "stored list \<Rightarrow> nat set \<Rightarrow> bool"

definition sep :: "assertion \<Rightarrow> assertion \<Rightarrow> assertion" where
  "sep P Q nodes F \<longleftrightarrow> (\<exists>A B. F = A \<union> B \<and> A \<inter> B = {} \<and> P nodes A \<and> Q nodes B)"

text \<open>An assertion that speaks of its own slots only.\<close>

definition stable :: "assertion \<Rightarrow> bool" where
  "stable P \<longleftrightarrow> (\<forall>nodes nodes' F. P nodes F \<longrightarrow> length nodes \<le> length nodes' \<longrightarrow>
     (\<forall>i \<in> F. nodes' ! i = nodes ! i) \<longrightarrow> P nodes' F)"

definition nothing :: assertion where
  "nothing nodes F \<longleftrightarrow> F = {}"

definition handle :: "(bytes \<Rightarrow> ptrie \<Rightarrow> bool) \<Rightarrow> node_handle \<Rightarrow> ptrie \<Rightarrow> assertion" where
  "handle ok h t nodes F \<longleftrightarrow> handle_rep ok nodes h t F"

definition body :: "(bytes \<Rightarrow> ptrie \<Rightarrow> bool) \<Rightarrow> mem_node \<Rightarrow> ptrie \<Rightarrow> assertion" where
  "body ok n t nodes F \<longleftrightarrow> body_rep ok nodes n t F"

definition kids :: "(bytes \<Rightarrow> ptrie \<Rightarrow> bool) \<Rightarrow> node_handle option list \<Rightarrow> ptrie list \<Rightarrow> assertion" where
  "kids ok hs ts nodes F \<longleftrightarrow> children_rep ok nodes hs ts F"

definition kid :: "(bytes \<Rightarrow> ptrie \<Rightarrow> bool) \<Rightarrow> node_handle option \<Rightarrow> ptrie \<Rightarrow> assertion" where
  "kid ok c t nodes F \<longleftrightarrow>
     (case c of None \<Rightarrow> t = PEmpty \<and> F = {} | Some h \<Rightarrow> t \<noteq> PEmpty \<and> handle_rep ok nodes h t F)"

definition slot :: "(bytes \<Rightarrow> ptrie \<Rightarrow> bool) \<Rightarrow> stored \<Rightarrow> ptrie \<Rightarrow> assertion" where
  "slot ok x t nodes F \<longleftrightarrow> body_rep ok nodes (stored_node x) t F \<and> stored_ok ok x t"

lemma stableI:
  "(\<And>nodes nodes' F. P nodes F \<Longrightarrow> length nodes \<le> length nodes' \<Longrightarrow> \<forall>i \<in> F. nodes' ! i = nodes ! i \<Longrightarrow> P nodes' F) \<Longrightarrow>
     stable P"
  unfolding stable_def by blast

lemma stable_reps [simp]:
  "stable nothing" "stable (handle ok h t)" "stable (body ok n t)" "stable (kids ok hs ts)"
  "stable (slot ok x t)"
  by (intro stableI; auto simp: nothing_def handle_def body_def kids_def slot_def intro: rep_other_nodes)+

lemma stable_kid [simp]: "stable (kid ok c t)"
  by (rule stableI) (cases c; auto simp: kid_def intro: rep_other_nodes)

lemma sep_commute: "sep P Q nodes F \<Longrightarrow> sep Q P nodes F"
  unfolding sep_def by blast

lemma sep_mono: "sep P Q nodes F \<Longrightarrow> (\<And>A. P nodes A \<Longrightarrow> P' nodes A) \<Longrightarrow> (\<And>B. Q nodes B \<Longrightarrow> Q' nodes B) \<Longrightarrow>
    sep P' Q' nodes F"
  unfolding sep_def by blast

lemma sep_nothing [simp]: "sep P nothing = P" "sep nothing P = P"
  by (auto simp: sep_def nothing_def fun_eq_iff)

lemma kid_simps [simp]:
  "kid ok None t nodes F \<longleftrightarrow> t = PEmpty \<and> F = {}"
  "kid ok (Some h) t nodes F \<longleftrightarrow> t \<noteq> PEmpty \<and> handle ok h t nodes F"
  by (simp_all add: kid_def handle_def)

lemma kids_Nil: "kids ok [] ts nodes F \<longleftrightarrow> ts = [] \<and> F = {}"
  by (auto simp: kids_def intro: C_Nil elim: children_NilE)

lemma kids_Cons: "kids ok (c # hs) (t # ts) nodes F \<longleftrightarrow> sep (kid ok c t) (kids ok hs ts) nodes F"
proof (cases c)
  case None
  then show ?thesis
    by (auto simp: kids_def sep_def intro: C_None elim: children_ConsE)
next
  case (Some h)
  show ?thesis
  proof
    assume "kids ok (c # hs) (t # ts) nodes F"
    then show "sep (kid ok c t) (kids ok hs ts) nodes F"
      unfolding Some kids_def sep_def by (rule children_ConsE) (simp_all add: handle_def, blast)
  next
    assume "sep (kid ok c t) (kids ok hs ts) nodes F"
    then show "kids ok (c # hs) (t # ts) nodes F"
      by (auto simp: Some kids_def sep_def handle_def intro: C_Some)
  qed
qed

lemma kids_length: "kids ok hs ts nodes F \<Longrightarrow> length ts = length hs"
  unfolding kids_def by (rule children_length)

lemma kids_ConsE:
  assumes "kids ok (c # hs) ts nodes F"
  obtains t ts' where "ts = t # ts'" and "sep (kid ok c t) (kids ok hs ts') nodes F"
  using assms kids_length [OF assms] by (cases ts) (auto simp: kids_Cons)

lemma sep_left: "sep P (sep Q R) = sep Q (sep P R)"
proof -
  have "sep Q (sep P R) nodes F" if "sep P (sep Q R) nodes F" for P Q R nodes F
  proof -
    from that obtain A B C where "F = A \<union> (B \<union> C)" "A \<inter> (B \<union> C) = {}" "B \<inter> C = {}"
      "P nodes A" "Q nodes B" "R nodes C" unfolding sep_def by blast
    then have "F = B \<union> (A \<union> C)" "B \<inter> (A \<union> C) = {}" "sep P R nodes (A \<union> C)" "Q nodes B"
      unfolding sep_def by blast+
    then show ?thesis unfolding sep_def [of Q] by blast
  qed
  then show ?thesis by (auto simp: fun_eq_iff)
qed

text \<open>One child and the others.\<close>

lemma kids_at:
  assumes "length hs = length ts" and "i < length hs"
  shows "kids ok hs ts = sep (kid ok (hs ! i) (ts ! i)) (kids ok (hs[i := None]) (ts[i := PEmpty]))"
  using assms
proof (induction hs ts arbitrary: i rule: list_induct2)
  case (Cons c hs t ts)
  have none: "kid ok None PEmpty = nothing" by (auto simp: fun_eq_iff nothing_def)
  have cons: "kids ok (c # hs) (t # ts) = sep (kid ok c t) (kids ok hs ts)" for c t hs ts
    by (simp add: kids_Cons fun_eq_iff)
  show ?case
  proof (cases i)
    case 0
    then show ?thesis by (simp add: cons none)
  next
    case (Suc j)
    then have "kids ok hs ts = sep (kid ok (hs ! j) (ts ! j)) (kids ok (hs[j := None]) (ts[j := PEmpty]))"
      using Cons by simp
    then show ?thesis using Suc sep_left [of "kid ok c t"] by (simp add: cons)
  qed
qed simp

section \<open>Triples\<close>

definition st_triple ::
  "assertion \<Rightarrow> (node_storage \<Rightarrow> ('a \<times> node_storage) option) \<Rightarrow> ('a \<Rightarrow> assertion) \<Rightarrow> bool" where
  "st_triple P f Q \<longleftrightarrow>
     (\<forall>st F. st_ok st \<longrightarrow> F \<subseteq> live st \<longrightarrow> P (st_nodes st) F \<longrightarrow>
        (\<exists>x st' F'. f st = Some (x, st') \<and> step F st F' st' \<and> Q x (st_nodes st') F'))"

text \<open>The hashes on the death row are those of nodes in the store.\<close>

definition condemned :: "(bytes \<Rightarrow> bytes option) \<Rightarrow> 'db trie_mut \<Rightarrow> 'db trie_mut \<Rightarrow> bool" where
  "condemned get s s' \<longleftrightarrow> tm_death_row s' \<subseteq> tm_death_row s \<union> dom get"

lemma condemned_refl [simp]: "condemned get s s"
  by (simp add: condemned_def)

lemma condemned_storage [simp]: "condemned get s (s\<lparr>tm_storage := st\<rparr>)"
  by (simp add: condemned_def)

lemma condemned_trans: "condemned get s s' \<Longrightarrow> condemned get s' s'' \<Longrightarrow> condemned get s s''"
  by (auto simp: condemned_def)

definition triple ::
  "'db hash_store_ops \<Rightarrow> (bytes \<Rightarrow> bytes option) \<Rightarrow> assertion \<Rightarrow> ('db trie_mut, 'a) action \<Rightarrow>
     ('a \<Rightarrow> assertion) \<Rightarrow> bool" where
  "triple D get P m Q \<longleftrightarrow>
     (\<forall>s F. hs_get D (tm_db s) = get \<longrightarrow> st_ok (tm_storage s) \<longrightarrow> F \<subseteq> live (tm_storage s) \<longrightarrow>
        P (st_nodes (tm_storage s)) F \<longrightarrow>
        (\<exists>x s' F'. m s = Some (Ok x, s') \<and> tm_db s' = tm_db s \<and> condemned get s s' \<and> step F (tm_storage s) F' (tm_storage s') \<and>
           Q x (st_nodes (tm_storage s')) F'))"

lemma st_tripleD:
  assumes "st_triple P f Q" and "st_ok st" and "F \<subseteq> live st" and "P (st_nodes st) F"
  obtains x st' F' where "f st = Some (x, st')" and "step F st F' st'" and "Q x (st_nodes st') F'"
  using assms unfolding st_triple_def by blast

lemma tripleD:
  assumes "triple D get P m Q" and "hs_get D (tm_db s) = get" and "st_ok (tm_storage s)"
    and "F \<subseteq> live (tm_storage s)" and "P (st_nodes (tm_storage s)) F"
  obtains x s' F' where "m s = Some (Ok x, s')" and "tm_db s' = tm_db s" and "condemned get s s'"
    and "step F (tm_storage s) F' (tm_storage s')" and "Q x (st_nodes (tm_storage s')) F'"
  using assms unfolding triple_def by blast

lemma st_tripleI:
  assumes "\<And>st F. st_ok st \<Longrightarrow> F \<subseteq> live st \<Longrightarrow> P (st_nodes st) F \<Longrightarrow>
    \<exists>x st' F'. f st = Some (x, st') \<and> step F st F' st' \<and> Q x (st_nodes st') F'"
  shows "st_triple P f Q"
  unfolding st_triple_def using assms by simp

lemma tripleI:
  assumes "\<And>s F. hs_get D (tm_db s) = get \<Longrightarrow> st_ok (tm_storage s) \<Longrightarrow> F \<subseteq> live (tm_storage s) \<Longrightarrow>
    P (st_nodes (tm_storage s)) F \<Longrightarrow>
    \<exists>x s' F'. m s = Some (Ok x, s') \<and> tm_db s' = tm_db s \<and> condemned get s s' \<and> step F (tm_storage s) F' (tm_storage s') \<and>
      Q x (st_nodes (tm_storage s')) F'"
  shows "triple D get P m Q"
  unfolding triple_def using assms by simp

lemma st_triple_bind:
  assumes "st_triple P f Q" and "\<And>x. st_triple (Q x) (g x) R"
  shows "st_triple P (\<lambda>st. Option.bind (f st) (\<lambda>(x, st). g x st)) R"
  unfolding st_triple_def
proof (intro allI impI)
  fix st F assume st: "st_ok st" "F \<subseteq> live st" "P (st_nodes st) F"
  obtain x st' F' where 1: "f st = Some (x, st')" "step F st F' st'" "Q x (st_nodes st') F'"
    by (rule st_tripleD [OF assms(1) st])
  obtain y st'' F'' where 2: "g x st' = Some (y, st'')" "step F' st' F'' st''" "R y (st_nodes st'') F''"
    by (rule st_tripleD [OF assms(2) stepD(1,2) [OF 1(2)] 1(3)])
  show "\<exists>y st'' F''. Option.bind (f st) (\<lambda>(x, st). g x st) = Some (y, st'') \<and> step F st F'' st'' \<and>
      R y (st_nodes st'') F''"
    using 1(1) 2(1,3) step_trans [OF 1(2) 2(2)] by auto
qed

lemma st_triple_return: "st_triple (Q x) (\<lambda>st. Some (x, st)) Q"
  by (rule st_tripleI) (auto intro: step_refl)

lemma st_triple_frame:
  assumes "st_triple P f Q" and "stable R"
  shows "st_triple (sep P R) f (\<lambda>x. sep (Q x) R)"
  unfolding st_triple_def
proof (intro allI impI)
  fix st F assume st: "st_ok st" "F \<subseteq> live st" "sep P R (st_nodes st) F"
  then obtain A B where F: "F = A \<union> B" "A \<inter> B = {}" "P (st_nodes st) A" "R (st_nodes st) B"
    unfolding sep_def by blast
  have live: "A \<subseteq> live st" "B \<subseteq> live st" using F(1) st(2) by simp_all
  obtain x st' A' where 1: "f st = Some (x, st')" "step A st A' st'" "Q x (st_nodes st') A'"
    by (rule st_tripleD [OF assms(1) st(1) live(1) F(3)])
  note frame = step_frame [OF 1(2) live(2) F(2)]
  have "R (st_nodes st') B"
    using assms(2) F(4) frame(3) stepD(3) [OF 1(2)] unfolding stable_def by blast
  then show "\<exists>x st' F'. f st = Some (x, st') \<and> step F st F' st' \<and> sep (Q x) R (st_nodes st') F'"
    using 1 frame(1,2) F(1) unfolding sep_def by blast
qed

lemma triple_bind:
  fixes m :: "('db trie_mut, 'a) action"
  assumes "triple D get P m Q" and "\<And>x. triple D get (Q x) (f x) R"
  shows "triple D get P (act_bind m f) R"
  unfolding triple_def
proof (intro allI impI)
  fix s :: "'db trie_mut" and F
  assume s: "hs_get D (tm_db s) = get" "st_ok (tm_storage s)" "F \<subseteq> live (tm_storage s)"
    "P (st_nodes (tm_storage s)) F"
  obtain x s' F' where 1: "m s = Some (Ok x, s')" "tm_db s' = tm_db s" "condemned get s s'"
    "step F (tm_storage s) F' (tm_storage s')" "Q x (st_nodes (tm_storage s')) F'"
    by (rule tripleD [OF assms(1) s])
  have "hs_get D (tm_db s') = get" using s(1) 1(2) by simp
  then obtain y s'' F'' where 2: "f x s' = Some (Ok y, s'')" "tm_db s'' = tm_db s'" "condemned get s' s''"
    "step F' (tm_storage s') F'' (tm_storage s'')" "R y (st_nodes (tm_storage s'')) F''"
    by (rule tripleD [OF assms(2) _ stepD(1,2) [OF 1(4)] 1(5)])
  show "\<exists>y s'' F''. act_bind m f s = Some (Ok y, s'') \<and> tm_db s'' = tm_db s \<and> condemned get s s'' \<and>
      step F (tm_storage s) F'' (tm_storage s'') \<and> R y (st_nodes (tm_storage s'')) F''"
    using 1(1,2) 2(1,2,5) step_trans [OF 1(4) 2(4)] condemned_trans [OF 1(3) 2(3)] by (auto simp: act_bind_def)
qed

lemma triple_return: "triple D get (Q x) (act_return x) Q"
  by (rule tripleI) (auto simp: act_return_def intro: step_refl)

lemma triple_opt: "e = Some x \<Longrightarrow> triple D get (Q x) (act_opt e) Q"
  by (rule tripleI) (auto simp: act_opt_def intro: step_refl)

lemma triple_condemn: "get h \<noteq> None \<Longrightarrow> triple D get P (condemn h) (\<lambda>_. P)"
  by (rule tripleI) (auto simp: condemn_def condemned_def intro: step_refl)

lemma triple_storage:
  fixes D :: "'db hash_store_ops"
  assumes f: "st_triple P f Q"
  shows "triple D get P (on_storage f) Q"
  unfolding triple_def
proof (intro allI impI)
  fix s :: "'db trie_mut" and F
  assume s: "hs_get D (tm_db s) = get" "st_ok (tm_storage s)"
    "F \<subseteq> live (tm_storage s)" "P (st_nodes (tm_storage s)) F"
  obtain x st' F' where "f (tm_storage s) = Some (x, st')" "step F (tm_storage s) F' st'" "Q x (st_nodes st') F'"
    by (rule st_tripleD [OF f s(2-4)])
  then show "\<exists>x s' F'. on_storage f s = Some (Ok x, s') \<and> tm_db s' = tm_db s \<and> condemned get s s' \<and>
      step F (tm_storage s) F' (tm_storage s') \<and> Q x (st_nodes (tm_storage s')) F'"
    by (auto simp: on_storage_def)
qed

lemma triple_frame:
  fixes m :: "('db trie_mut, 'a) action"
  assumes "triple D get P m Q" and "stable R"
  shows "triple D get (sep P R) m (\<lambda>x. sep (Q x) R)"
  unfolding triple_def
proof (intro allI impI)
  fix s :: "'db trie_mut" and F
  assume s: "hs_get D (tm_db s) = get" "st_ok (tm_storage s)" "F \<subseteq> live (tm_storage s)"
    "sep P R (st_nodes (tm_storage s)) F"
  then obtain A B where F: "F = A \<union> B" "A \<inter> B = {}" "P (st_nodes (tm_storage s)) A"
    "R (st_nodes (tm_storage s)) B" unfolding sep_def by blast
  have live: "A \<subseteq> live (tm_storage s)" "B \<subseteq> live (tm_storage s)" using F(1) s(3) by simp_all
  obtain x s' A' where 1: "m s = Some (Ok x, s')" "tm_db s' = tm_db s" "condemned get s s'"
    "step A (tm_storage s) A' (tm_storage s')" "Q x (st_nodes (tm_storage s')) A'"
    by (rule tripleD [OF assms(1) s(1,2) live(1) F(3)])
  note frame = step_frame [OF 1(4) live(2) F(2)]
  have "R (st_nodes (tm_storage s')) B"
    using assms(2) F(4) frame(3) stepD(3) [OF 1(4)] unfolding stable_def by blast
  then show "\<exists>x s' F'. m s = Some (Ok x, s') \<and> tm_db s' = tm_db s \<and> condemned get s s' \<and>
      step F (tm_storage s) F' (tm_storage s') \<and> sep (Q x) R (st_nodes (tm_storage s')) F'"
    using 1 frame(1,2) F(1) unfolding sep_def by blast
qed

lemma triple_pre: "triple D get P' m Q \<Longrightarrow> (\<And>nodes F. P nodes F \<Longrightarrow> P' nodes F) \<Longrightarrow> triple D get P m Q"
  unfolding triple_def by simp

lemma triple_post:
  fixes m :: "('db trie_mut, 'a) action"
  assumes "triple D get P m Q'" and "\<And>x nodes F. Q' x nodes F \<Longrightarrow> Q x nodes F"
  shows "triple D get P m Q"
proof (rule tripleI)
  fix s :: "'db trie_mut" and F
  assume s: "hs_get D (tm_db s) = get" "st_ok (tm_storage s)" "F \<subseteq> live (tm_storage s)"
    "P (st_nodes (tm_storage s)) F"
  show "\<exists>x s' F'. m s = Some (Ok x, s') \<and> tm_db s' = tm_db s \<and> condemned get s s' \<and>
      step F (tm_storage s) F' (tm_storage s') \<and> Q x (st_nodes (tm_storage s')) F'"
    by (rule tripleD [OF assms(1) s]) (metis assms(2))
qed

lemma triple_pure: "(\<And>nodes F. P nodes F \<Longrightarrow> b) \<Longrightarrow> (b \<Longrightarrow> triple D get P m Q) \<Longrightarrow> triple D get P m Q"
  unfolding triple_def by metis

lemma triple_false: "(\<And>nodes F. \<not> P nodes F) \<Longrightarrow> triple D get P m Q"
  unfolding triple_def by simp

section \<open>Slots: putting a node in and taking it out\<close>

lemma alloc_triple: "st_triple (slot ok x t) (st_alloc x) (\<lambda>i. handle ok (InMemory i) t)"
proof (rule st_tripleI)
  fix st F
  assume st: "st_ok st" "F \<subseteq> live st" "slot ok x t (st_nodes st) F"
  obtain i st' where 1: "st_alloc x st = Some (i, st')" "step {} st {i} st'" "st_nodes st' ! i = x" "i \<notin> live st"
    using alloc_step [OF st(1)] by blast
  note frame = step_frame [OF 1(2) st(2) Int_empty_left]
  have "body_rep ok (st_nodes st') (stored_node x) t F"
    using st(3) rep_other_nodes(2) frame(3) stepD(3) [OF 1(2)] by (auto simp: slot_def)
  moreover have "i < length (st_nodes st')" using stepD(2) [OF 1(2)] by (simp add: live_def)
  moreover have "i \<notin> F" using 1(4) st(2) by blast
  ultimately have "handle ok (InMemory i) t (st_nodes st') (insert i F)"
    using st(3) 1(3) by (simp add: handle_def slot_def H_Mem)
  then show "\<exists>i st' F'. st_alloc x st = Some (i, st') \<and> step F st F' st' \<and>
      handle ok (InMemory i) t (st_nodes st') F'"
    using 1(1) frame(1) by auto
qed

lemma destroy_triple: "st_triple (handle ok (InMemory i) t) (st_destroy i) (\<lambda>x. slot ok x t)"
proof (rule st_tripleI)
  fix st F
  assume st: "st_ok st" "F \<subseteq> live st" "handle ok (InMemory i) t (st_nodes st) F"
  obtain G where G: "F = insert i G" "i < length (st_nodes st)"
    "body_rep ok (st_nodes st) (stored_node (st_nodes st ! i)) t G" "i \<notin> G" "stored_ok ok (st_nodes st ! i) t"
    using st(3) unfolding handle_def by (rule handle_MemE) blast
  have live: "i \<in> live st" "G \<subseteq> live st" using st(2) G(1) by simp_all
  obtain st' where 1: "st_destroy i st = Some (st_nodes st ! i, st')" "step {i} st {} st'"
    using destroy_step [OF st(1) live(1)] by blast
  note frame = step_frame [OF 1(2) live(2)]
  have "slot ok (st_nodes st ! i) t (st_nodes st') G"
    using G rep_other_nodes(2) frame(3) stepD(3) [OF 1(2)] by (auto simp: slot_def)
  then show "\<exists>x st' F'. st_destroy i st = Some (x, st') \<and> step F st F' st' \<and> slot ok x t (st_nodes st') F'"
    using 1(1) frame(1) G by auto
qed

lemma slot_New: "slot ok (New n) t = body ok n t"
  by (simp add: fun_eq_iff slot_def body_def stored_ok_def)

section \<open>Loading a node\<close>

text \<open>
  The bytes of a node of the trie \<open>t\<close>, when \<open>ok h t\<close> says what the hash \<open>h\<close> of a child may stand for.
\<close>

inductive load_rep :: "(bytes \<Rightarrow> ptrie \<Rightarrow> bool) \<Rightarrow> bytes \<Rightarrow> ptrie \<Rightarrow> bool"
  and load_item :: "(bytes \<Rightarrow> ptrie \<Rightarrow> bool) \<Rightarrow> bytes \<Rightarrow> ptrie \<Rightarrow> bool"
  for ok where
  load_Empty: "node_decoded d = Some Empty \<Longrightarrow> load_rep ok d PEmpty"
| load_Leaf: "node_decoded d = Some (Leaf k v) \<Longrightarrow> load_rep ok d (PLeaf (ns_nibs k) v)"
| load_Ext: "node_decoded d = Some (Extension k c) \<Longrightarrow> load_item ok c t \<Longrightarrow>
    load_rep ok d (PExt (ns_nibs k) t)"
| load_Branch: "node_decoded d = Some (Branch cs v) \<Longrightarrow> list_all2 (load_item ok) cs ts \<Longrightarrow>
    load_rep ok d (PBranch ts v)"
| load_Inline: "item_hash c = Some None \<Longrightarrow> is_empty c \<longleftrightarrow> t = PEmpty \<Longrightarrow> load_rep ok c t \<Longrightarrow>
    load_item ok c t"
| load_Hash: "item_hash c = Some (Some h) \<Longrightarrow> t \<noteq> PEmpty \<Longrightarrow> ok h t \<Longrightarrow> load_item ok c t"

text \<open>What the mutable trie needs of the store: a hash it may meet has its node there.\<close>

locale node_source =
  fixes get :: "bytes \<Rightarrow> bytes option" and ok :: "bytes \<Rightarrow> ptrie \<Rightarrow> bool"
  assumes load: "ok h t \<Longrightarrow> \<exists>d. get h = Some d \<and> load_rep ok d t"
    and read: "ok h t \<Longrightarrow> \<exists>d. get h = Some d \<and> node_rep get d t"

lemma hash_not_empty: "item_hash c = Some (Some h) \<Longrightarrow> \<not> is_empty c"
  by (cases c) (auto simp: item_hash_def is_empty_def is_data_def is_null_def rlp_size_def basic_payload_info_def
      payload_info_from_def new_payload_info_def checked_add_def split: if_splits)

lemma st_triple_eq: "st_triple P f Q \<Longrightarrow> f = g \<Longrightarrow> st_triple P g Q"
  by simp

lemma kids_Nil_assertion: "kids ok [] [] = nothing"
  by (simp add: fun_eq_iff kids_Nil nothing_def)

lemma st_triple_post:
  assumes "st_triple P f Q'" and "\<And>x nodes F. Q' x nodes F \<Longrightarrow> Q x nodes F"
  shows "st_triple P f Q"
proof (rule st_tripleI)
  fix st F
  assume st: "st_ok st" "F \<subseteq> live st" "P (st_nodes st) F"
  show "\<exists>x st' F'. f st = Some (x, st') \<and> step F st F' st' \<and> Q x (st_nodes st') F'"
    by (rule st_tripleD [OF assms(1) st]) (metis assms(2))
qed

lemma load_children_triple:
  assumes "list_all2 (\<lambda>c t. st_triple nothing (inline_or_hash rec c) (\<lambda>h. handle ok h t) \<and>
    (is_empty c \<longleftrightarrow> t = PEmpty)) cs ts"
  shows "st_triple nothing (load_children rec cs) (\<lambda>hs. kids ok hs ts)"
  using assms
proof (induction cs ts rule: list_all2_induct)
  case Nil
  show ?case using st_triple_return [of "\<lambda>hs. kids ok hs []" "[]"] by (simp add: kids_Nil_assertion)
next
  case (Cons c cs t ts)
  have child: "st_triple nothing (\<lambda>st. if \<not> is_empty c
      then map_option (\<lambda>(h, st). (Some h, st)) (inline_or_hash rec c st) else Some (None, st)) (\<lambda>c. kid ok c t)"
  proof (cases "is_empty c")
    case True
    then have "kid ok None t = nothing" using Cons.hyps(1) by (simp add: fun_eq_iff nothing_def)
    then show ?thesis using True st_triple_return [of "\<lambda>c. kid ok c t" None] by simp
  next
    case False
    have "st_triple nothing (\<lambda>st. Option.bind (inline_or_hash rec c st) (\<lambda>(h, st). Some (Some h, st)))
        (\<lambda>c. kid ok c t)"
    proof (rule st_triple_bind)
      show "st_triple nothing (inline_or_hash rec c) (\<lambda>h. handle ok h t)" using Cons.hyps(1) by blast
      fix h
      have "kid ok (Some h) t = handle ok h t" using False Cons.hyps(1) by (simp add: fun_eq_iff)
      then show "st_triple (handle ok h t) (\<lambda>st. Some (Some h, st)) (\<lambda>c. kid ok c t)"
        using st_triple_return [of "\<lambda>c. kid ok c t" "Some h"] by simp
    qed
    then show ?thesis using False by (simp add: map_conv_bind_option case_prod_beta' comp_def)
  qed
  show ?case
    unfolding load_children.simps
  proof (rule st_triple_bind [OF child])
    fix k
    have "st_triple (kid ok k t) (load_children rec cs) (\<lambda>hs. sep (kids ok hs ts) (kid ok k t))"
      using st_triple_frame [OF Cons.IH stable_kid] by simp
    then show "st_triple (kid ok k t)
        (\<lambda>st. Option.bind (load_children rec cs st) (\<lambda>(children, st). Some (k # children, st)))
        (\<lambda>hs. kids ok hs (t # ts))"
    proof (rule st_triple_bind)
      fix hs
      have "sep (kids ok hs ts) (kid ok k t) = kids ok (k # hs) (t # ts)"
        by (auto simp: fun_eq_iff kids_Cons dest: sep_commute)
      then show "st_triple (sep (kids ok hs ts) (kid ok k t)) (\<lambda>st. Some (k # hs, st)) (\<lambda>hs. kids ok hs (t # ts))"
        using st_triple_return [of "\<lambda>hs. kids ok hs (t # ts)" "k # hs"] by simp
    qed
  qed
qed

lemma inline_or_hash_inline:
  assumes "item_hash c = Some None" and "st_triple nothing (rec c) (\<lambda>n. body ok n t)"
  shows "st_triple nothing (inline_or_hash rec c) (\<lambda>h. handle ok h t)"
proof -
  have "st_triple (body ok n t) (\<lambda>st. Option.bind (st_alloc (New n) st) (\<lambda>(h, st). Some (InMemory h, st)))
      (\<lambda>h. handle ok h t)" for n
    using st_triple_bind [OF alloc_triple [of ok "New n" t] st_triple_return [of "\<lambda>h. handle ok h t"]]
    by (simp add: slot_New)
  from st_triple_bind [OF assms(2) this] show ?thesis
    using assms(1) by (simp add: inline_or_hash_def [abs_def])
qed

lemma inline_or_hash_hash:
  assumes "item_hash c = Some (Some h)" and "ok h t"
  shows "st_triple nothing (inline_or_hash rec c) (\<lambda>h. handle ok h t)"
proof -
  have "handle ok (Hash h) t = nothing"
    using assms by (auto simp: fun_eq_iff handle_def nothing_def intro: H_Hash elim: handle_HashE)
  then show ?thesis
    using assms(1) st_triple_return [of "\<lambda>h. handle ok h t" "Hash h"] by (simp add: inline_or_hash_def [abs_def])
qed

lemma nibs_ok_ns_nibs: "nibs_ok (ns_nibs s)"
  using ns_nibs_less by blast

lemma body_Empty [simp]: "body ok MEmpty PEmpty = nothing"
  by (auto simp: fun_eq_iff body_def nothing_def intro: B_Empty elim: body_EmptyE)

lemma body_Leaf [simp]: "nibs_ok ns \<Longrightarrow> body ok (MLeaf (hex_prefix ns True) v) (PLeaf ns v) = nothing"
  by (auto simp: fun_eq_iff body_def nothing_def intro: B_Leaf elim: body_LeafE)

lemma body_Ext [simp]: "nibs_ok ns \<Longrightarrow> body ok (MExtension (hex_prefix ns False) h) (PExt ns t) = handle ok h t"
  by (auto simp: fun_eq_iff body_def handle_def intro: B_Ext elim: body_ExtE)

lemma body_Branch [simp]: "length hs = 16 \<Longrightarrow> body ok (MBranch hs v) (PBranch ts v) = kids ok hs ts"
  by (auto simp: fun_eq_iff body_def kids_def intro: B_Branch elim: body_BranchE)

lemma from_rlp_cases:
  "node_decoded d = Some Empty \<Longrightarrow> from_rlp d = (\<lambda>st. Some (MEmpty, st))"
  "node_decoded d = Some (Leaf k v) \<Longrightarrow>
     from_rlp d = (\<lambda>st. map_option (\<lambda>k. (MLeaf k v, st)) (ns_encoded k True))"
  "node_decoded d = Some (Extension k c) \<Longrightarrow> from_rlp d = (\<lambda>st. Option.bind (ns_encoded k False) (\<lambda>k.
     Option.bind (inline_or_hash from_rlp c st) (\<lambda>(h, st). Some (MExtension k h, st))))"
  "node_decoded d = Some (Branch cs u) \<Longrightarrow> from_rlp d = (\<lambda>st.
     Option.bind (load_children from_rlp cs st) (\<lambda>(children, st). Some (MBranch children u, st)))"
  by (rule ext, subst from_rlp.simps, simp)+

lemma from_rlp_triple:
  "load_rep ok d t \<Longrightarrow> st_triple nothing (from_rlp d) (\<lambda>n. body ok n t)"
  "load_item ok c t \<Longrightarrow>
     st_triple nothing (inline_or_hash from_rlp c) (\<lambda>h. handle ok h t) \<and> (is_empty c \<longleftrightarrow> t = PEmpty)"
proof (induction rule: load_rep_load_item.inducts)
  case (load_Empty d)
  then show ?case
    using st_triple_return [of "\<lambda>n. body ok n PEmpty" MEmpty] by (simp add: from_rlp_cases)
next
  case (load_Leaf d k v)
  have "ns_ok k" using node_decoded_wf [OF load_Leaf] by (simp add: node_wf_def)
  then show ?case
    using load_Leaf nibs_ok_ns_nibs [of k]
      st_triple_return [of "\<lambda>n. body ok n (PLeaf (ns_nibs k) v)" "MLeaf (hex_prefix (ns_nibs k) True) v"]
    by (simp add: from_rlp_cases ns_encoded_hex_prefix)
next
  case (load_Ext d k c t)
  have k: "ns_ok k" using node_decoded_wf [OF load_Ext.hyps(1)] by (simp add: node_wf_def)
  let ?n = "MExtension (hex_prefix (ns_nibs k) False)" and ?Q = "\<lambda>n. body ok n (PExt (ns_nibs k) t)"
  have "st_triple (handle ok h t) (\<lambda>st. Some (?n h, st)) ?Q" for h
    using nibs_ok_ns_nibs [of k] st_triple_return [of ?Q "?n h"] by simp
  from st_triple_bind [OF conjunct1 [OF load_Ext.IH(2)] this] show ?case
    using load_Ext.hyps(1) k by (simp add: from_rlp_cases ns_encoded_hex_prefix)
next
  case (load_Branch d cs v ts)
  have "list_all2 (\<lambda>c t. st_triple nothing (inline_or_hash from_rlp c) (\<lambda>h. handle ok h t) \<and>
      (is_empty c \<longleftrightarrow> t = PEmpty)) cs ts"
    using load_Branch.IH by (rule list.rel_mono_strong) simp
  note load = load_children_triple [OF this]
  have "length ts = 16"
    using node_decoded_wf [OF load_Branch.hyps(1)] list_all2_lengthD [OF load_Branch.IH] by (simp add: node_wf_def)
  then have "st_triple (kids ok hs ts) (\<lambda>st. Some (MBranch hs v, st)) (\<lambda>n. body ok n (PBranch ts v))" for hs
    using kids_length [of ok hs ts] step_refl by (intro st_tripleI) (metis body_Branch)
  from st_triple_bind [OF load this] show ?case
    using load_Branch.hyps(1) by (simp add: from_rlp_cases)
next
  case (load_Inline c t)
  then show ?case using inline_or_hash_inline [of c from_rlp ok t] by simp
next
  case (load_Hash c h t)
  then show ?case using inline_or_hash_hash hash_not_empty by blast
qed

lemma slot_Cached: "ok h t \<Longrightarrow> slot ok (Cached n h) t = body ok n t"
  by (auto simp: fun_eq_iff slot_def body_def stored_ok_def)

lemma triple_cong:
  fixes m :: "('db trie_mut, 'a) action"
  assumes "triple D get P m' Q" and "\<And>s. hs_get D (tm_db s) = get \<Longrightarrow> m s = m' s"
  shows "triple D get P m Q"
  using assms by (simp add: triple_def)

context node_source
begin

lemma cache_node_triple:
  assumes "ok h t"
  shows "triple D get nothing (cache_node D h) (\<lambda>i. handle ok (InMemory i) t)"
proof -
  obtain d where d: "get h = Some d" "load_rep ok d t" using load [OF assms] by blast
  show ?thesis
  proof (rule triple_cong)
    have "st_triple (body ok n t) (st_alloc (Cached n h)) (\<lambda>i. handle ok (InMemory i) t)" for n
      using alloc_triple [of ok "Cached n h" t] slot_Cached [of ok, OF assms] by simp
    then show "triple D get nothing (on_storage (\<lambda>st. Option.bind (from_rlp d st)
        (\<lambda>(n, st). st_alloc (Cached n h) st))) (\<lambda>i. handle ok (InMemory i) t)"
      by (intro triple_storage st_triple_bind [OF from_rlp_triple(1) [OF d(2)]])
  qed (simp add: cache_node_def d)
qed

lemma take_node_triple: "triple D get (handle ok h t) (take_node D h) (\<lambda>x. slot ok x t)"
proof (cases h)
  case (InMemory i)
  have "triple D get (handle ok h t) (act_return i) (\<lambda>i. handle ok (InMemory i) t)"
    using triple_return [of D get "\<lambda>i. handle ok (InMemory i) t" i] InMemory by simp
  then show ?thesis
    unfolding take_node_def InMemory by (auto intro: triple_bind triple_storage destroy_triple)
next
  case (Hash hash)
  have "triple D get (handle ok h t) (cache_node D hash) (\<lambda>i. handle ok (InMemory i) t)"
  proof (rule triple_pure [where b = "ok hash t"])
    show "ok hash t" if "handle ok h t nodes F" for nodes F
      using that unfolding Hash handle_def by (rule handle_HashE)
  next
    assume ok: "ok hash t"
    have "handle ok h t = nothing"
      using ok by (auto simp: fun_eq_iff handle_def nothing_def Hash intro: H_Hash elim: handle_HashE)
    then show "triple D get (handle ok h t) (cache_node D hash) (\<lambda>i. handle ok (InMemory i) t)"
      using cache_node_triple [OF ok] by simp
  qed
  then show ?thesis
    unfolding take_node_def Hash by (auto intro: triple_bind triple_storage destroy_triple)
qed

end

lemma alloc_slot_triple: "triple D get (slot ok x t) (on_storage (st_alloc x)) (\<lambda>i. handle ok (InMemory i) t)"
  by (intro triple_storage alloc_triple)

lemma alloc_new_triple: "triple D get (body ok n t) (on_storage (st_alloc (New n))) (\<lambda>i. handle ok (InMemory i) t)"
  using alloc_slot_triple [of D get ok "New n"] by (simp add: slot_New)

section \<open>Inspecting a node\<close>

text \<open>What an inspector's verdict on a node of \<open>t\<close> means when the trie is to become \<open>t'\<close>.\<close>

definition verdict :: "(bytes \<Rightarrow> ptrie \<Rightarrow> bool) \<Rightarrow> ptrie \<Rightarrow> ptrie \<Rightarrow> act \<Rightarrow> assertion" where
  "verdict ok t t' a nodes F \<longleftrightarrow>
     (case a of
        Restore n \<Rightarrow> t' = t \<and> t' \<noteq> PEmpty \<and> body ok n t' nodes F
      | Replace n \<Rightarrow> t' \<noteq> PEmpty \<and> body ok n t' nodes F
      | Delete \<Rightarrow> t' = PEmpty \<and> F = {})"

definition inspected :: "(bytes \<Rightarrow> ptrie \<Rightarrow> bool) \<Rightarrow> ptrie \<Rightarrow> ptrie \<Rightarrow> (stored \<times> bool) option \<Rightarrow> assertion" where
  "inspected ok t t' r nodes F \<longleftrightarrow>
     (case r of
        None \<Rightarrow> t' = PEmpty \<and> F = {}
      | Some (x, changed) \<Rightarrow> t' \<noteq> PEmpty \<and> slot ok x t' nodes F \<and> (changed \<or> t' = t))"

context node_source
begin

lemma inspect_triple:
  assumes "triple D get (body ok (stored_node x) t) (insp (stored_node x))
    (\<lambda>r nodes F. snd r = y \<and> verdict ok t t' (fst r) nodes F)"
  shows "triple D get (slot ok x t) (inspect x insp)
    (\<lambda>r nodes F. snd r = y \<and> inspected ok t t' (fst r) nodes F)"
proof (cases x)
  case (New n)
  show ?thesis
    unfolding inspect_def New stored.case slot_New
  proof (rule triple_bind [OF assms [unfolded New stored_node.simps]])
    fix r :: "act \<times> 'b"
    obtain a z where r: "r = (a, z)" by (cases r)
    show "triple D get (\<lambda>nodes F. snd r = y \<and> verdict ok t t' (fst r) nodes F)
        (case r of (a, x) \<Rightarrow> (case a of
               Restore node \<Rightarrow> act_return (Some (New node, False), x)
             | Replace node \<Rightarrow> act_return (Some (New node, True), x)
             | Delete \<Rightarrow> act_return (None, x)))
        (\<lambda>r nodes F. snd r = y \<and> inspected ok t t' (fst r) nodes F)"
      unfolding r by (cases a)
        (auto intro!: triple_pre [OF triple_return] simp: verdict_def inspected_def slot_New)
  qed
next
  case (Cached n h)
  have body: "triple D get (slot ok x t) (insp n) (\<lambda>r nodes F. (snd r = y \<and> verdict ok t t' (fst r) nodes F) \<and>
      stored_ok ok x t)"
    by (rule triple_pure [where b = "stored_ok ok x t"])
      (auto simp: slot_def body_def Cached intro!: triple_pre [OF assms [unfolded Cached stored_node.simps]])
  show ?thesis
    unfolding inspect_def Cached stored.case
  proof (rule triple_bind [OF body [unfolded Cached]])
    fix r :: "act \<times> 'b"
    obtain a z where r: "r = (a, z)" by (cases r)
    show "triple D get (\<lambda>nodes F. (snd r = y \<and> verdict ok t t' (fst r) nodes F) \<and> stored_ok ok (Cached n h) t)
        (case r of (a, x) \<Rightarrow> (case a of
               Restore node \<Rightarrow> act_return (Some (Cached node h, False), x)
             | Replace node \<Rightarrow> act_bind (condemn h) (\<lambda>_. act_return (Some (New node, True), x))
             | Delete \<Rightarrow> act_bind (condemn h) (\<lambda>_. act_return (None, x))))
        (\<lambda>r nodes F. snd r = y \<and> inspected ok t t' (fst r) nodes F)"
    proof (rule triple_pure [where b = "get h \<noteq> None"])
      show "get h \<noteq> None" if "(snd r = y \<and> verdict ok t t' (fst r) nodes F) \<and> stored_ok ok (Cached n h) t" for nodes F
        using that load [of h t] by (auto simp: stored_ok_def)
    next
      assume known: "get h \<noteq> None"
      show "triple D get (\<lambda>nodes F. (snd r = y \<and> verdict ok t t' (fst r) nodes F) \<and> stored_ok ok (Cached n h) t)
          (case r of (a, x) \<Rightarrow> (case a of
               Restore node \<Rightarrow> act_return (Some (Cached node h, False), x)
             | Replace node \<Rightarrow> act_bind (condemn h) (\<lambda>_. act_return (Some (New node, True), x))
             | Delete \<Rightarrow> act_bind (condemn h) (\<lambda>_. act_return (None, x))))
          (\<lambda>r nodes F. snd r = y \<and> inspected ok t t' (fst r) nodes F)"
        unfolding r by (cases a)
          (auto intro!: triple_bind [OF triple_condemn [of get h, OF known]] triple_pre [OF triple_return]
            simp: verdict_def inspected_def slot_New slot_def body_def stored_ok_def)
    qed
  qed
qed

end

end
