(* ===== verification/Trie_Refine.thy ===== *)
theory Trie_Refine
  imports Trie_Heap
begin

text \<open>
  The mutable trie of \<open>patricia_trie/src/triedbmut.rs\<close> implements a map.

  \<open>insert_inspector\<close> and \<open>remove_inspector\<close> are followed through all their cases with the triples of
  \<open>Trie_Heap\<close>: an action that owns a node of the trie \<open>t\<close> ends owning a node of \<open>pt_insert t ns v\<close>
  or \<open>pt_remove t ns\<close>, and \<open>Restore\<close> is answered only where the trie did not change.  With the map
  of \<open>Trie_Map\<close> this gives what \<open>insert\<close>, \<open>remove\<close> and \<open>ok\<close> promise of the keys.
\<close>

section \<open>More rules\<close>

lemma triple_opt_bind: "e = Some x \<Longrightarrow> triple D get P (f x) R \<Longrightarrow> triple D get P (act_bind (act_opt e) f) R"
  by (rule triple_cong) (simp_all add: act_bind_def act_opt_def)

lemma triple_return_bind: "triple D get P (f x) R \<Longrightarrow> triple D get P (act_bind (act_return x) f) R"
  by (rule triple_cong) (simp_all add: act_bind_def act_return_def)

lemma act_opt_Some [simp]: "act_bind (act_opt (Some x)) f = f x"
  by (simp add: fun_eq_iff act_bind_def act_opt_def)

lemma act_return_bind [simp]: "act_bind (act_return x) f = f x"
  by (simp add: fun_eq_iff act_bind_def act_return_def)

lemma act_bind_assoc: "act_bind (act_bind m f) g = act_bind m (\<lambda>x. act_bind (f x) g)"
  by (auto simp: fun_eq_iff act_bind_def split: bind_split outcome.splits)

lemma triple_value: "(\<And>nodes F. P nodes F \<Longrightarrow> Q x nodes F) \<Longrightarrow> triple D get P (act_return x) Q"
  by (rule triple_pre [OF triple_return])

lemma triple_split:
  assumes "\<And>nodes F. P nodes F \<Longrightarrow> b \<and> P' nodes F" and "b \<Longrightarrow> triple D get P' m Q"
  shows "triple D get P m Q"
proof (rule triple_pure [where b = b])
  show b if "P nodes F" for nodes F using assms(1) [OF that] by simp
  show "triple D get P m Q" if b
    using assms(2) [OF that] by (rule triple_pre) (simp add: assms(1))
qed

lemma body_EmptyD: "body ok n PEmpty nodes F \<Longrightarrow> n = MEmpty"
  unfolding body_def by (auto elim: body_EmptyE)

lemma body_LeafD: "body ok n (PLeaf k u) nodes F \<Longrightarrow> nibs_ok k \<and> n = MLeaf (hex_prefix k True) u"
  unfolding body_def by (auto elim: body_LeafE)

lemma body_ExtD: "body ok n (PExt k t) nodes F \<Longrightarrow> \<exists>h. nibs_ok k \<and> n = MExtension (hex_prefix k False) h"
  unfolding body_def by (auto elim: body_ExtE)

lemma body_BranchD:
  "body ok n (PBranch ts u) nodes F \<Longrightarrow> \<exists>hs. n = MBranch hs u \<and> length hs = 16 \<and> length ts = 16"
  unfolding body_def by (erule body_BranchE) (auto dest: children_length)

lemma triple_Empty:
  "(n = MEmpty \<Longrightarrow> triple D get (body ok n PEmpty) m Q) \<Longrightarrow> triple D get (body ok n PEmpty) m Q"
  by (rule triple_pure) (erule body_EmptyD)

lemma triple_Leaf:
  "(nibs_ok k \<and> n = MLeaf (hex_prefix k True) u \<Longrightarrow> triple D get (body ok n (PLeaf k u)) m Q) \<Longrightarrow>
     triple D get (body ok n (PLeaf k u)) m Q"
  by (rule triple_pure) (erule body_LeafD)

lemma triple_Ext:
  "(\<exists>h. nibs_ok k \<and> n = MExtension (hex_prefix k False) h \<Longrightarrow> triple D get (body ok n (PExt k t)) m Q) \<Longrightarrow>
     triple D get (body ok n (PExt k t)) m Q"
  by (rule triple_pure) (erule body_ExtD)

lemma triple_Branch:
  "(\<exists>hs. n = MBranch hs u \<and> length hs = 16 \<and> length ts = 16 \<Longrightarrow> triple D get (body ok n (PBranch ts u)) m Q) \<Longrightarrow>
     triple D get (body ok n (PBranch ts u)) m Q"
  by (rule triple_pure) (erule body_BranchD)

lemma kids_put:
  assumes "length hs = length ts" and "i < length hs" and "t \<noteq> PEmpty"
  shows "sep (handle ok h t) (kids ok (hs[i := None]) (ts[i := PEmpty])) = kids ok (hs[i := Some h]) (ts[i := t])"
proof -
  have "kid ok (Some h) t = handle ok h t" using assms(3) by (simp add: fun_eq_iff)
  then show ?thesis using kids_at [of "hs[i := Some h]" "ts[i := t]" i ok] assms by simp
qed

lemma kids_clear:
  assumes "length hs = length ts" and "i < length hs" and "hs ! i = None" and "kids ok hs ts nodes F"
  shows "ts ! i = PEmpty" and "hs[i := None] = hs" and "ts[i := PEmpty] = ts"
proof -
  show "ts ! i = PEmpty" using kids_at [OF assms(1,2), of ok] assms(3,4) by (auto simp: sep_def)
  then show "ts[i := PEmpty] = ts" by (metis list_update_id)
  show "hs[i := None] = hs" using assms(3) by (metis list_update_id)
qed

lemma kids_take:
  assumes "length hs = length ts" and "i < length hs" and "hs ! i = Some h" and "kids ok hs ts nodes F"
  shows "ts ! i \<noteq> PEmpty" and "sep (handle ok h (ts ! i)) (kids ok (hs[i := None]) (ts[i := PEmpty])) nodes F"
  using kids_at [OF assms(1,2), of ok] assms(3,4) by (auto simp: sep_def)

lemma kids_empty [simp]: "kids ok empty_children no_children = nothing"
proof -
  have "kids ok (replicate n None) (replicate n PEmpty) = nothing" for n
    by (induction n) (auto simp: kids_Nil_assertion kids_Cons fun_eq_iff sep_def nothing_def)
  then show ?thesis by (simp add: empty_children_def no_children_def)
qed

lemma length_empty_children [simp]: "length empty_children = 16"
  by (simp add: empty_children_def)

lemma kids_single:
  assumes "i < 16" and "t \<noteq> PEmpty"
  shows "kids ok (empty_children[i := Some h]) (no_children[i := t]) = handle ok h t"
proof -
  have "empty_children[i := None] = empty_children" "no_children[i := PEmpty] = no_children"
    using assms(1) by (simp_all add: empty_children_def no_children_def list_update_same_conv)
  then show ?thesis
    using kids_put [of empty_children no_children i t ok h] assms by simp
qed

section \<open>Insertion\<close>

definition ins_done :: "(bytes \<Rightarrow> ptrie \<Rightarrow> bool) \<Rightarrow> ptrie \<Rightarrow> byte list \<Rightarrow> bytes \<Rightarrow> insert_act \<times> bytes option \<Rightarrow> assertion" where
  "ins_done ok t ns v r nodes F \<longleftrightarrow>
     snd r = pt_lookup t ns \<and> verdict ok t (pt_insert t ns v) (into_action (fst r)) nodes F"

definition ins_at_done ::
  "(bytes \<Rightarrow> ptrie \<Rightarrow> bool) \<Rightarrow> ptrie \<Rightarrow> byte list \<Rightarrow> bytes \<Rightarrow> (nat \<times> bool) \<times> bytes option \<Rightarrow> assertion" where
  "ins_at_done ok t ns v r nodes F \<longleftrightarrow>
     snd r = pt_lookup t ns \<and> handle ok (InMemory (fst (fst r))) (pt_insert t ns v) nodes F \<and>
     (snd (fst r) \<or> pt_insert t ns v = t)"

text \<open>The inserter is correct on the tries below a node.\<close>

definition inserts :: "'db hash_store_ops \<Rightarrow> (bytes \<Rightarrow> bytes option) \<Rightarrow> (bytes \<Rightarrow> ptrie \<Rightarrow> bool) \<Rightarrow> 'db inserter \<Rightarrow> ptrie \<Rightarrow> byte list \<Rightarrow> bytes \<Rightarrow> bool" where
  "inserts D get ok rec t ns v \<longleftrightarrow>
     (\<forall>n part. plain_key part \<longrightarrow> ns_nibs part = ns \<longrightarrow>
        triple D get (body ok n t) (rec n part v None) (ins_done ok t ns v))"

lemma insertsD:
  "inserts D get ok rec t ns v \<Longrightarrow> plain_key part \<Longrightarrow> ns_nibs part = ns \<Longrightarrow>
     triple D get (body ok n t) (rec n part v None) (ins_done ok t ns v)"
  by (simp add: inserts_def)

context node_source
begin

lemma insert_at_triple:
  assumes "inserts D get ok rec t ns v" and "plain_key part" and "ns_nibs part = ns"
    and "pt_insert t ns v \<noteq> PEmpty"
  shows "triple D get (handle ok h t) (insert_at D rec h part v None) (ins_at_done ok t ns v)"
  unfolding insert_at_def
proof (rule triple_bind [OF take_node_triple])
  fix x
  let ?insp = "\<lambda>node. act_bind (rec node part v None) (\<lambda>(a, old). act_return (into_action a, old))"
  have "triple D get (body ok n t) (?insp n)
      (\<lambda>r nodes F. snd r = pt_lookup t ns \<and> verdict ok t (pt_insert t ns v) (fst r) nodes F)" for n
    by (rule triple_bind [OF insertsD [OF assms(1-3)]]) (auto intro!: triple_value simp: ins_done_def split: prod.split)
  note inspected = inspect_triple [of D x t ?insp, OF this]
  show "triple D get (slot ok x t) (act_bind (inspect x ?insp) (\<lambda>(r, old).
     (case r of
        None \<Rightarrow> act_opt None
      | Some (new_stored, changed) \<Rightarrow>
          act_bind (on_storage (st_alloc new_stored)) (\<lambda>h. act_return ((h, changed), old))))) (ins_at_done ok t ns v)"
  proof (rule triple_bind [OF inspected])
    fix r :: "(stored \<times> bool) option \<times> bytes option"
    obtain res old where r: "r = (res, old)" by (cases r)
    show "triple D get (\<lambda>nodes F. snd r = pt_lookup t ns \<and> inspected ok t (pt_insert t ns v) (fst r) nodes F)
      (case r of (r, old) \<Rightarrow> (case r of
        None \<Rightarrow> act_opt None
      | Some (new_stored, changed) \<Rightarrow>
          act_bind (on_storage (st_alloc new_stored)) (\<lambda>h. act_return ((h, changed), old)))) (ins_at_done ok t ns v)"
    proof (cases res)
      case None
      then show ?thesis using assms(4) by (intro triple_false) (simp add: r inspected_def)
    next
      case (Some xc)
      obtain x' c where xc: "xc = (x', c)" by (cases xc)
      let ?b = "old = pt_lookup t ns \<and> (c \<or> pt_insert t ns v = t)"
      have "triple D get (slot ok x' (pt_insert t ns v))
          (act_bind (on_storage (st_alloc x')) (\<lambda>h. act_return ((h, c), old))) (ins_at_done ok t ns v)" if ?b
        using that by (intro triple_bind [OF alloc_slot_triple] triple_value) (simp add: ins_at_done_def)
      then show ?thesis
        unfolding r Some xc prod.case option.case
        by (rule_tac b = ?b in triple_pure) (auto simp: inspected_def elim!: triple_pre)
    qed
  qed
qed

end

lemma insert_inspector_cases:
  "insert_inspector D MEmpty part v old =
     act_bind (act_opt (ns_encoded part True)) (\<lambda>k. act_return (InsReplace (MLeaf k v), old))"
  "insert_inspector D (MBranch hs u) part v old = insert_branch D (insert_inspector D) hs u part v old"
  "insert_inspector D (MLeaf k x) part v old = insert_leaf (insert_inspector D) k x part v old"
  "insert_inspector D (MExtension k h) part v old = insert_extension D (insert_inspector D) k h part v old"
  by (rule ext, subst insert_inspector.simps, simp)+

lemma plain_keyD: "plain_key part \<Longrightarrow> ns_ok part" "plain_key part \<Longrightarrow> ns_suffix part = []"
  by (simp_all add: plain_key_def)

lemma plain_key_views:
  assumes "plain_key part"
  shows "ns_is_empty part = Some (ns_nibs part = [])" and "ns_len part = Some (length (ns_nibs part))"
    and "ns_encoded part leaf = Some (hex_prefix (ns_nibs part) leaf)"
    and "ns_nibs part = x # ns \<Longrightarrow> ns_at part 0 = Some x"
    and "l \<le> length (ns_nibs part) \<Longrightarrow> ns_encoded_leftmost part l leaf = Some (hex_prefix (take l (ns_nibs part)) leaf)"
    and "plain_key q \<Longrightarrow> ns_common_prefix part q = Some (lcp (ns_nibs part) (ns_nibs q))"
    and "plain_key q \<Longrightarrow> ns_eq part q = Some (ns_nibs part = ns_nibs q)"
  using assms plain_keyD ns_at_nibs [of part 0]
  by (simp_all add: ns_is_empty_def length_ns_nibs ns_encoded_hex_prefix ns_encoded_leftmost_hex_prefix
      ns_common_prefix_nibs ns_eq_nibs)

lemma from_encoded_plain:
  assumes "nibs_ok k"
  obtains s where "ns_from_encoded (hex_prefix k leaf) = Some (s, leaf)" and "plain_key s" and "ns_nibs s = k"
  using from_encoded_hex_prefix [OF assms, of leaf] unfolding plain_key_def by blast

lemma ins_done_unwrap:
  "ins_done ok t ns v (a, y) nodes F \<Longrightarrow> y = pt_lookup t ns \<and> pt_insert t ns v \<noteq> PEmpty \<and>
     body ok (unwrap_node a) (pt_insert t ns v) nodes F"
  by (cases a) (auto simp: ins_done_def verdict_def)

lemma insert_branch_end:
  assumes "plain_key part" and "ns_nibs part = []" and "length hs = 16"
  shows "triple D get (kids ok hs ts) (insert_branch D rec hs u part v None) (ins_done ok (PBranch ts u) [] v)"
  unfolding insert_branch_def using assms
  by (intro triple_opt_bind [OF plain_key_views(1) [OF assms(1)]])
    (auto simp: Let_def ins_done_def verdict_def intro!: triple_value)

context node_source
begin

lemma insert_branch_child:
  assumes part: "plain_key part" "ns_nibs part = x # ns" and hs: "length hs = 16" "length ts = 16"
    and rec: "inserts D get ok rec (ts ! unat x) ns v"
    and ne: "pt_insert (ts ! unat x) ns v \<noteq> PEmpty"
  shows "triple D get (kids ok hs ts) (insert_branch D rec hs u part v None) (ins_done ok (PBranch ts u) (x # ns) v)"
proof -
  have x: "unat x < 16" using ns_nibs_less [of x part] part(2) by simp
  have mid: "plain_key (ns_mid part 1)" "ns_nibs (ns_mid part 1) = ns"
    using plain_key_mid [OF part(1), of 1] part(2) by simp_all
  have idx: "do { x \<leftarrow> ns_at part 0; child \<leftarrow> nth_checked hs (unat x); Some (unat x, child) } = Some (unat x, hs ! unat x)"
    using plain_key_views(4) [OF part] x hs by (simp add: nth_checked_def)
  let ?put = "\<lambda>i. MBranch (hs[unat x := Some (InMemory i)]) u" and ?t = "pt_insert (ts ! unat x) ns v"
  have filled: "body ok (?put i) (pt_insert (PBranch ts u) (x # ns) v) nodes F"
    if "sep (handle ok (InMemory i) ?t) (kids ok (hs[unat x := None]) (ts[unat x := PEmpty])) nodes F" for i nodes F
    using that kids_put [of hs ts "unat x" ?t ok] ne x hs by simp
  show ?thesis
  proof (cases "hs ! unat x")
    case None
    let ?leaf = "MLeaf (hex_prefix ns True) v"
    have eq: "insert_branch D rec hs u part v None = act_bind (on_storage (st_alloc (New ?leaf)))
        (\<lambda>leaf. act_return (InsReplace (?put leaf), None))"
      using part mid None plain_key_views(1) [OF part(1)] plain_key_views(3) [OF mid(1)]
      by (simp add: insert_branch_def idx del: One_nat_def)
    show ?thesis
    proof (rule triple_pure [where b = "ts ! unat x = PEmpty \<and> hs[unat x := None] = hs \<and> ts[unat x := PEmpty] = ts"])
      fix nodes F assume "kids ok hs ts nodes F"
      then show "ts ! unat x = PEmpty \<and> hs[unat x := None] = hs \<and> ts[unat x := PEmpty] = ts"
        using kids_clear [OF _ _ None] hs x by simp
    next
      assume clear: "ts ! unat x = PEmpty \<and> hs[unat x := None] = hs \<and> ts[unat x := PEmpty] = ts"
      have "nibs_ok ns" using nibs_ok_ns_nibs [of "ns_mid part 1"] mid(2) by simp
      then have "triple D get nothing (on_storage (st_alloc (New ?leaf))) (\<lambda>i. handle ok (InMemory i) (PLeaf ns v))"
        using alloc_new_triple [of D get ok ?leaf "PLeaf ns v"] by simp
      from triple_frame [OF this, of "kids ok hs ts"]
      have "triple D get (kids ok hs ts) (on_storage (st_alloc (New ?leaf)))
          (\<lambda>i. sep (handle ok (InMemory i) (PLeaf ns v)) (kids ok hs ts))" by simp
      then show ?thesis
        unfolding eq using clear filled
        by (elim triple_bind) (auto intro!: triple_value simp: ins_done_def verdict_def)
    qed
  next
    case (Some h)
    have eq: "insert_branch D rec hs u part v None = act_bind (insert_at D rec h (ns_mid part 1) v None)
        (\<lambda>((i, changed), old). act_return (if changed then InsReplace (?put i) else InsRestore (?put i), old))"
      using part Some plain_key_views(1) [OF part(1)]
      by (simp add: insert_branch_def idx Let_def del: One_nat_def)
    let ?rest = "kids ok (hs[unat x := None]) (ts[unat x := PEmpty])"
    have at: "triple D get (handle ok h (ts ! unat x)) (insert_at D rec h (ns_mid part 1) v None)
        (ins_at_done ok (ts ! unat x) ns v)"
      by (rule insert_at_triple [OF rec mid ne])
    have "triple D get (kids ok hs ts) (insert_at D rec h (ns_mid part 1) v None)
        (\<lambda>r. sep (ins_at_done ok (ts ! unat x) ns v r) ?rest)"
      using kids_take(2) [OF _ _ Some] hs x by (intro triple_pre [OF triple_frame [OF at]]) simp_all
    then show ?thesis
      unfolding eq
    proof (rule triple_bind)
      fix r :: "(nat \<times> bool) \<times> bytes option"
      obtain i c y where r: "r = ((i, c), y)" by (metis surj_pair)
      let ?b = "y = pt_lookup (ts ! unat x) ns \<and> (c \<or> ?t = ts ! unat x)"
      have "ins_done ok (PBranch ts u) (x # ns) v (if c then InsReplace (?put i) else InsRestore (?put i), y) nodes F"
        if at: "sep (ins_at_done ok (ts ! unat x) ns v r) ?rest nodes F" for nodes F
      proof -
        have "?b" "sep (handle ok (InMemory i) ?t) ?rest nodes F"
          using at unfolding r ins_at_done_def sep_def by auto
        then show ?thesis using filled [of i nodes F] x hs by (cases c) (auto simp: ins_done_def verdict_def)
      qed
      then show "triple D get (sep (ins_at_done ok (ts ! unat x) ns v r) ?rest)
          ((\<lambda>((i, changed), old). act_return (if changed then InsReplace (?put i) else InsRestore (?put i), old)) r)
          (ins_done ok (PBranch ts u) (x # ns) v)"
        by (simp add: r triple_value)
    qed
  qed
qed

text \<open>What follows a recursive call whose node becomes the whole, or the child of an extension.\<close>

lemma replace_whole:
  assumes "\<And>ms. pt_lookup t ms = pt_lookup t' ms" and "pt_insert t ns v = pt_insert t' ns v"
  shows "triple D get (ins_done ok t' ns v r)
    (case r of (a, old) \<Rightarrow> act_return (InsReplace (unwrap_node a), old)) (ins_done ok t ns v)"
  using assms by (cases r) (auto intro!: triple_value dest!: ins_done_unwrap simp: ins_done_def verdict_def)

lemma replace_below:
  assumes "nibs_ok k" and "pt_lookup t ns = pt_lookup t' ns'" and "pt_insert t ns v = PExt k (pt_insert t' ns' v)"
  shows "triple D get (ins_done ok t' ns' v r)
    (case r of (low, old) \<Rightarrow>
       act_bind (on_storage (st_alloc (New (unwrap_node low)))) (\<lambda>h.
         act_return (InsReplace (MExtension (hex_prefix k False) (InMemory h)), old)))
    (ins_done ok t ns v)"
proof -
  obtain a y where r: "r = (a, y)" by (cases r)
  show ?thesis
    unfolding r prod.case
  proof (rule triple_pure [where b = "y = pt_lookup t' ns' \<and> pt_insert t' ns' v \<noteq> PEmpty"])
    assume y: "y = pt_lookup t' ns' \<and> pt_insert t' ns' v \<noteq> PEmpty"
    have "triple D get (ins_done ok t' ns' v (a, y)) (on_storage (st_alloc (New (unwrap_node a))))
        (\<lambda>i. handle ok (InMemory i) (pt_insert t' ns' v))"
      by (rule triple_pre [OF alloc_new_triple]) (auto dest!: ins_done_unwrap)
    then show "triple D get (ins_done ok t' ns' v (a, y))
        (act_bind (on_storage (st_alloc (New (unwrap_node a)))) (\<lambda>h.
           act_return (InsReplace (MExtension (hex_prefix k False) (InMemory h)), y))) (ins_done ok t ns v)"
      using y assms by (elim triple_bind) (auto intro!: triple_value simp: ins_done_def verdict_def)
  qed (auto dest!: ins_done_unwrap)
qed

lemma lookup_split:
  assumes "lcp ns k = length k"
  shows "pt_lookup (PExt k t) ns = pt_lookup t (drop (length k) ns)"
  using take_lcp [of ns k] assms by simp

lemma insert_leaf_triple:
  assumes part: "plain_key part" "ns_nibs part = ns" and k: "nibs_ok k"
    and apart: "lcp ns k = 0 \<Longrightarrow> k \<noteq> [] \<or> ns \<noteq> [] \<Longrightarrow> inserts D get ok rec (leaf_branch k u) ns v"
    and longer: "lcp ns k = length k \<Longrightarrow> lcp ns k \<noteq> length ns \<Longrightarrow> lcp ns k \<noteq> 0 \<Longrightarrow>
      inserts D get ok rec (PBranch no_children (Some u)) (drop (lcp ns k) ns) v"
    and fork: "lcp ns k \<noteq> length k \<Longrightarrow> lcp ns k \<noteq> 0 \<Longrightarrow>
      inserts D get ok rec (PLeaf (drop (lcp ns k) k) u) (drop (lcp ns k) ns) v"
  shows "triple D get nothing (insert_leaf rec (hex_prefix k True) u part v None) (ins_done ok (PLeaf k u) ns v)"
proof -
  obtain s where s: "ns_from_encoded (hex_prefix k True) = Some (s, True)" "plain_key s" "ns_nibs s = k"
    by (rule from_encoded_plain [OF k])
  note views = plain_key_views [OF part(1)] plain_key_views [OF s(2)]
  let ?cp = "lcp ns k"
  have start: "do { (k, _) \<leftarrow> ns_from_encoded (hex_prefix k True); cp \<leftarrow> ns_common_prefix part k;
      klen \<leftarrow> ns_len k; plen \<leftarrow> ns_len part; Some (k, cp, klen, plen) } = Some (s, ?cp, length k, length ns)"
    using s part views(2,6,9) by simp
  note run = insert_leaf_def [of rec "hex_prefix k True" u part v None, unfolded start act_opt_Some prod.case]
  have cp: "?cp \<le> length ns" "?cp \<le> length k" by (rule lcp_le)+
  have mid: "plain_key (ns_mid part ?cp)" "ns_nibs (ns_mid part ?cp) = drop ?cp ns"
    "plain_key (ns_mid s ?cp)" "ns_nibs (ns_mid s ?cp) = drop ?cp k"
    using plain_key_mid [OF part(1), of ?cp] plain_key_mid [OF s(2), of ?cp] cp part(2) s(3) by simp_all
  consider (same) "?cp = length k" "?cp = length ns" | (apart) "?cp = 0" "k \<noteq> [] \<or> ns \<noteq> []"
    | (longer) "?cp = length k" "?cp \<noteq> length ns" "?cp \<noteq> 0" | (fork) "?cp \<noteq> length k" "?cp \<noteq> 0"
    by (metis length_0_conv)
  then show ?thesis
  proof cases
    case same
    then have "k = ns" using take_lcp [of ns k] by simp
    then show ?thesis
      using same insert_leaf_cases(1) [OF same, of u v] k unfolding run
      by (auto simp: Let_def ins_done_def verdict_def intro!: triple_value)
  next
    case apart
    have whole: "triple D get (ins_done ok (leaf_branch k u) ns v r)
        ((\<lambda>(a, old). act_return (InsReplace (unwrap_node a), old)) r) (ins_done ok (PLeaf k u) ns v)" for r
      by (rule replace_whole) (simp_all only: lookup_leaf_branch [OF k] insert_leaf_cases(2) [OF apart])
    note rec = triple_bind [OF insertsD [OF assms(4) [OF apart] part] whole]
    show ?thesis
    proof (cases k)
      case Nil
      then show ?thesis
        using apart rec [of "MBranch empty_children (Some u)"] unfolding run by simp
    next
      case (Cons x k')
      have x: "unat x < 16" "nibs_ok k'" using k Cons by simp_all
      let ?leaf = "MLeaf (hex_prefix k' True) u" and ?b = "\<lambda>i. MBranch (empty_children[unat x := Some (InMemory i)]) None"
      have key: "do { x \<leftarrow> ns_at s 0; k \<leftarrow> ns_encoded (ns_mid s 1) True;
          _ \<leftarrow> nth_checked empty_children (unat x); Some (unat x, k) } = Some (unat x, hex_prefix k' True)"
        using views(11) [of x k'] s(3) Cons plain_key_mid [OF s(2), of 1] plain_key_views(3) [of "ns_mid s 1" True] x
        by (simp add: nth_checked_def)
      have eq: "insert_leaf rec (hex_prefix k True) u part v None = act_bind (on_storage (st_alloc (New ?leaf)))
          (\<lambda>i. act_bind (rec (?b i) part v None) (\<lambda>(a, old). act_return (InsReplace (unwrap_node a), old)))"
        using apart Cons unfolding run key by (simp add: act_bind_assoc)
      have "triple D get nothing (on_storage (st_alloc (New ?leaf))) (\<lambda>i. body ok (?b i) (leaf_branch k u))"
        using alloc_new_triple [of D get ok ?leaf "PLeaf k' u"] x by (simp add: Cons kids_single)
      then show ?thesis unfolding eq by (rule triple_bind) (rule rec)
    qed
  next
    case longer
    have "pt_lookup (PBranch no_children (Some u)) (drop ?cp ns) = None"
      using longer cp(1) no_children_nth by (cases "drop ?cp ns") (auto simp: no_children_def)
    moreover have "k \<noteq> ns" using longer by (metis lcp_le(1) le_antisym)
    ultimately have below: "pt_lookup (PLeaf k u) ns = pt_lookup (PBranch no_children (Some u)) (drop ?cp ns)"
      by simp
    show ?thesis
      using longer k views(10) s(3) triple_bind [OF insertsD [OF assms(5) [OF longer] mid(1,2)]
          replace_below [OF k below insert_leaf_cases(3) [OF longer]], of "MBranch empty_children (Some u)"]
      unfolding run by simp
  next
    case fork
    have take: "take ?cp ns = take ?cp k" by (rule take_lcp)
    have below: "pt_lookup (PLeaf k u) ns = pt_lookup (PLeaf (drop ?cp k) u) (drop ?cp ns)"
      using eq_take_drop [of k ns ?cp] take by simp
    have keys: "ns_encoded (ns_mid s ?cp) True = Some (hex_prefix (drop ?cp k) True)"
      "ns_encoded_leftmost s ?cp False = Some (hex_prefix (take ?cp k) False)"
      using plain_key_views(3) [OF mid(3)] mid(4) plain_key_views(5) [OF s(2), of ?cp] s(3) cp(2) by simp_all
    show ?thesis
      using fork nibs_ok_drop [OF k, of ?cp] triple_bind [OF insertsD [OF assms(6) [OF fork] mid(1,2)]
          replace_below [OF nibs_ok_take [OF k, of ?cp] below insert_leaf_cases(4) [OF fork]],
          of "MLeaf (hex_prefix (drop ?cp k) True) u"]
      unfolding run keys act_opt_Some by simp
  qed
qed

lemma insert_extension_triple:
  assumes part: "plain_key part" "ns_nibs part = ns" and k: "nibs_ok k" "k \<noteq> []" and t: "t \<noteq> PEmpty"
    and apart: "lcp ns k = 0 \<Longrightarrow> inserts D get ok rec (ext_branch k t) ns v"
    and along: "lcp ns k \<noteq> 0 \<Longrightarrow> lcp ns k = length k \<Longrightarrow>
      inserts D get ok rec t (drop (lcp ns k) ns) v \<and> pt_insert t (drop (lcp ns k) ns) v \<noteq> PEmpty"
    and fork: "lcp ns k \<noteq> 0 \<Longrightarrow> lcp ns k \<noteq> length k \<Longrightarrow>
      inserts D get ok rec (PExt (drop (lcp ns k) k) t) (drop (lcp ns k) ns) v"
  shows "triple D get (handle ok h t) (insert_extension D rec (hex_prefix k False) h part v None)
    (ins_done ok (PExt k t) ns v)"
proof -
  obtain s where s: "ns_from_encoded (hex_prefix k False) = Some (s, False)" "plain_key s" "ns_nibs s = k"
    by (rule from_encoded_plain [OF k(1)])
  note views = plain_key_views [OF part(1)] plain_key_views [OF s(2)]
  let ?cp = "lcp ns k"
  have start: "do { (k, _) \<leftarrow> ns_from_encoded (hex_prefix k False); cp \<leftarrow> ns_common_prefix part k;
      klen \<leftarrow> ns_len k; Some (k, cp, klen) } = Some (s, ?cp, length k)"
    using s part views(2,6,9) by simp
  note run = insert_extension_def [of D rec "hex_prefix k False" h part v None, unfolded start act_opt_Some prod.case]
  have cp: "?cp \<le> length ns" "?cp \<le> length k" by (rule lcp_le)+
  have mid: "plain_key (ns_mid part ?cp)" "ns_nibs (ns_mid part ?cp) = drop ?cp ns"
    "plain_key (ns_mid s ?cp)" "ns_nibs (ns_mid s ?cp) = drop ?cp k"
    using plain_key_mid [OF part(1), of ?cp] plain_key_mid [OF s(2), of ?cp] cp part(2) s(3) by simp_all
  consider (apart) "?cp = 0" | (along) "?cp \<noteq> 0" "?cp = length k" | (fork) "?cp \<noteq> 0" "?cp \<noteq> length k" by blast
  then show ?thesis
  proof cases
    case apart
    obtain x k' where k': "k = x # k'" using k(2) by (cases k) auto
    have x: "unat x < 16" "nibs_ok k'" using k(1) k' by simp_all
    have whole: "triple D get (ins_done ok (ext_branch k t) ns v r)
        ((\<lambda>(a, old). act_return (InsReplace (unwrap_node a), old)) r) (ins_done ok (PExt k t) ns v)" for r
      by (rule replace_whole) (simp_all only: lookup_ext_branch [OF k] insert_ext_cases(1) [OF k(2) apart])
    note rec = triple_bind [OF insertsD [OF assms(6) [OF apart] part] whole]
    have idx: "(if length k = 0 then None else do { x \<leftarrow> ns_at s 0; _ \<leftarrow> nth_checked empty_children (unat x);
        Some (unat x) }) = Some (unat x)"
      using views(11) [of x k'] s(3) k' x by (simp add: nth_checked_def)
    let ?b = "\<lambda>c. MBranch (empty_children[unat x := Some c]) None"
    show ?thesis
    proof (cases k')
      case Nil
      have "body ok (?b h) (ext_branch k t) = handle ok h t" using k' Nil x t by (simp add: kids_single)
      then show ?thesis
        using apart k' Nil rec [of "?b h"] unfolding run idx by simp
    next
      case (Cons y k'')
      let ?e = "MExtension (hex_prefix k' False) h"
      have key: "ns_encoded (ns_mid s 1) False = Some (hex_prefix k' False)"
        using plain_key_mid [OF s(2), of 1] plain_key_views(3) [of "ns_mid s 1" False] s(3) k' by simp
      have eq: "insert_extension D rec (hex_prefix k False) h part v None =
          act_bind (on_storage (st_alloc (New ?e))) (\<lambda>i. act_bind (rec (?b (InMemory i)) part v None)
            (\<lambda>(a, old). act_return (InsReplace (unwrap_node a), old)))"
        using apart k' Cons unfolding run idx key by (simp add: act_bind_assoc)
      have "triple D get (handle ok h t) (on_storage (st_alloc (New ?e)))
          (\<lambda>i. body ok (?b (InMemory i)) (ext_branch k t))"
        using alloc_new_triple [of D get ok ?e "PExt k' t"] x by (simp add: k' Cons kids_single)
      then show ?thesis unfolding eq by (rule triple_bind) (rule rec)
    qed
  next
    case along
    have key: "ns_encoded s False = Some (hex_prefix k False)" using views(10) s(3) by simp
    have eq: "insert_extension D rec (hex_prefix k False) h part v None =
        act_bind (insert_at D rec h (ns_mid part ?cp) v None) (\<lambda>((i, changed), old).
          act_return (if changed then InsReplace (MExtension (hex_prefix k False) (InMemory i))
            else InsRestore (MExtension (hex_prefix k False) (InMemory i)), old))"
      using along unfolding run key act_opt_Some Let_def by simp
    show ?thesis
      unfolding eq
    proof (rule triple_bind [OF insert_at_triple [OF conjunct1 [OF assms(7) [OF along]] mid(1,2)
            conjunct2 [OF assms(7) [OF along]]]])
      fix r :: "(nat \<times> bool) \<times> bytes option"
      obtain i c y where r: "r = ((i, c), y)" by (metis surj_pair)
      have "pt_lookup (PExt k t) ns = pt_lookup t (drop ?cp ns)" using lookup_split along by metis
      then have "ins_done ok (PExt k t) ns v (if c then InsReplace (MExtension (hex_prefix k False) (InMemory i))
            else InsRestore (MExtension (hex_prefix k False) (InMemory i)), y) nodes F"
        if "ins_at_done ok t (drop ?cp ns) v r nodes F" for nodes F
        using that k(1) unfolding r ins_done_def insert_ext_cases(2) [OF k(2) along]
        by (cases c) (auto simp: ins_at_done_def verdict_def)
      then show "triple D get (ins_at_done ok t (drop ?cp ns) v r)
          ((\<lambda>((i, changed), old).
          act_return (if changed then InsReplace (MExtension (hex_prefix k False) (InMemory i))
            else InsRestore (MExtension (hex_prefix k False) (InMemory i)), old)) r) (ins_done ok (PExt k t) ns v)"
        by (simp add: r triple_value)
    qed
  next
    case fork
    have "take (length k) ns = k \<longleftrightarrow> take ?cp ns = take ?cp k \<and> take (length k - ?cp) (drop ?cp ns) = drop ?cp k"
      using cp eq_take_drop [of "take (length k) ns" k ?cp] by (auto simp: min_absorb1 drop_take)
    then have below: "pt_lookup (PExt k t) ns = pt_lookup (PExt (drop ?cp k) t) (drop ?cp ns)"
      using take_lcp [of ns k] cp by simp
    have keys: "ns_encoded (ns_mid s ?cp) False = Some (hex_prefix (drop ?cp k) False)"
      "ns_encoded_leftmost s ?cp False = Some (hex_prefix (take ?cp k) False)"
      using plain_key_views(3) [OF mid(3)] mid(4) plain_key_views(5) [OF s(2), of ?cp] s(3) cp(2) by simp_all
    show ?thesis
      using fork nibs_ok_drop [OF k(1), of ?cp] triple_bind [OF insertsD [OF assms(8) [OF fork] mid(1,2)]
          replace_below [OF nibs_ok_take [OF k(1), of ?cp] below insert_ext_cases(3) [OF k(2) fork]],
          of "MExtension (hex_prefix (drop ?cp k) False) h"]
      unfolding run keys act_opt_Some by simp
  qed
qed

lemma insertsI:
  assumes "\<And>n part. plain_key part \<Longrightarrow> ns_nibs part = ns \<Longrightarrow>
    triple D get (body ok n t) (rec n part v None) (ins_done ok t ns v)"
  shows "inserts D get ok rec t ns v"
  using assms by (simp add: inserts_def)

lemma canon_ext_child: "canon (PExt k t) \<Longrightarrow> t \<noteq> PEmpty"
  by auto

lemma insert_inspector_triple:
  "pre t \<Longrightarrow> nibs_ok ns \<Longrightarrow> inserts D get ok (insert_inspector D) t ns v"
proof (induction t ns v rule: pt_insert.induct)
  case (1 ns v)
  show ?case
  proof (rule insertsI)
    fix n part assume part: "plain_key part" "ns_nibs part = ns"
    show "triple D get (body ok n PEmpty) (insert_inspector D n part v None) (ins_done ok PEmpty ns v)"
      by (rule triple_Empty) (use nibs_ok_ns_nibs [of part] part in
        \<open>auto simp: insert_inspector_cases plain_key_views(3) ins_done_def verdict_def intro!: triple_value\<close>)
  qed
next
  case (2 ts u v)
  show ?case
  proof (rule insertsI)
    fix n part assume part: "plain_key part" "ns_nibs part = []"
    show "triple D get (body ok n (PBranch ts u)) (insert_inspector D n part v None) (ins_done ok (PBranch ts u) [] v)"
      by (rule triple_Branch) (auto simp: insert_inspector_cases insert_branch_end [OF part])
  qed
next
  case (3 ts u x ns v)
  have child: "length ts = 16" "canon (ts ! unat x)" using pre_child [OF 3(2), of x] 3(3) by auto
  then have "pre (ts ! unat x)" by (simp add: pre_def)
  note child = child(1) 3(1) [OF this] insert_not_empty [OF this, of ns v]
  show ?case
  proof (rule insertsI)
    fix n part assume part: "plain_key part" "ns_nibs part = x # ns"
    show "triple D get (body ok n (PBranch ts u)) (insert_inspector D n part v None)
        (ins_done ok (PBranch ts u) (x # ns) v)"
      by (rule triple_Branch) (use 3(3) child in
        \<open>auto simp: insert_inspector_cases intro: insert_branch_child [OF part]\<close>)
  qed
next
  case (4 k u ns v)
  have k: "nibs_ok k" "u \<noteq> []" using 4(4) by (auto simp: pre_def)
  show ?case
  proof (rule insertsI)
    fix n part assume part: "plain_key part" "ns_nibs part = ns"
    have "triple D get nothing (insert_leaf (insert_inspector D) (hex_prefix k True) u part v None)
        (ins_done ok (PLeaf k u) ns v)"
    proof (rule insert_leaf_triple [OF part k(1)])
      assume "lcp ns k = 0" "k \<noteq> [] \<or> ns \<noteq> []"
      then show "inserts D get ok (insert_inspector D) (leaf_branch k u) ns v"
        using 4(1) [OF refl _ _ _ 4(5)] branch_ok_leaf_branch [OF k] by (auto simp: pre_def)
    next
      assume "lcp ns k = length k" "lcp ns k \<noteq> length ns" "lcp ns k \<noteq> 0"
      then show "inserts D get ok (insert_inspector D) (PBranch no_children (Some u)) (drop (lcp ns k) ns) v"
        using 4(2) [OF refl _ _ _ _ nibs_ok_drop [OF 4(5)]] branch_ok_no_children [OF k(2)] by (auto simp: pre_def)
    next
      assume "lcp ns k \<noteq> length k" "lcp ns k \<noteq> 0"
      then show "inserts D get ok (insert_inspector D) (PLeaf (drop (lcp ns k) k) u) (drop (lcp ns k) ns) v"
        using 4(3) [OF refl _ _ _ _ nibs_ok_drop [OF 4(5)]] k nibs_ok_drop [OF k(1)] by (auto simp: pre_def)
    qed
    then show "triple D get (body ok n (PLeaf k u)) (insert_inspector D n part v None) (ins_done ok (PLeaf k u) ns v)"
      by - (rule triple_Leaf, auto simp: insert_inspector_cases)
  qed
next
  case (5 k t ns v)
  have ct: "canon (PExt k t)" using 5(4) by (auto simp: pre_def)
  then have k: "nibs_ok k" "k \<noteq> []" "pre t" by (auto simp: pre_def)
  show ?case
  proof (rule insertsI)
    fix n part assume part: "plain_key part" "ns_nibs part = ns"
    have "triple D get (handle ok h t) (insert_extension D (insert_inspector D) (hex_prefix k False) h part v None)
        (ins_done ok (PExt k t) ns v)" for h
    proof (rule insert_extension_triple [OF part k(1,2) canon_ext_child [OF ct]])
      assume "lcp ns k = 0"
      then show "inserts D get ok (insert_inspector D) (ext_branch k t) ns v"
        using 5(1) [OF refl k(2) _ _ 5(5)] branch_ok_ext_branch [OF ct] by (auto simp: pre_def)
    next
      assume "lcp ns k \<noteq> 0" "lcp ns k = length k"
      then show "inserts D get ok (insert_inspector D) t (drop (lcp ns k) ns) v \<and> pt_insert t (drop (lcp ns k) ns) v \<noteq> PEmpty"
        using 5(2) [OF refl k(2) _ _ k(3) nibs_ok_drop [OF 5(5)]] insert_not_empty [OF k(3)] by auto
    next
      assume *: "lcp ns k \<noteq> 0" "lcp ns k \<noteq> length k"
      then have "pre (PExt (drop (lcp ns k) k) t)"
        using ct nibs_ok_drop [OF k(1)] lcp_le(2) [of ns k] by (simp add: pre_def)
      then show "inserts D get ok (insert_inspector D) (PExt (drop (lcp ns k) k) t) (drop (lcp ns k) ns) v"
        using 5(3) [OF refl k(2) * _ nibs_ok_drop [OF 5(5)]] by simp
    qed
    then show "triple D get (body ok n (PExt k t)) (insert_inspector D n part v None) (ins_done ok (PExt k t) ns v)"
      using k(1) by - (rule triple_Ext, auto simp: insert_inspector_cases)
  qed
qed

end

section \<open>Fixing a node after a removal\<close>

fun some_from :: "'a option list \<Rightarrow> nat \<Rightarrow> nat list" where
  "some_from [] i = []"
| "some_from (None # cs) i = some_from cs (i + 1)"
| "some_from (Some c # cs) i = i # some_from cs (i + 1)"

lemma used_from_some:
  "used_from cs i UsedMany = UsedMany"
  "used_from cs i (UsedOne a) = (if some_from cs i = [] then UsedOne a else UsedMany)"
  "used_from cs i UsedNone =
     (case some_from cs i of [] \<Rightarrow> UsedNone | [a] \<Rightarrow> UsedOne a | _ \<Rightarrow> UsedMany)"
proof -
  have many: "used_from cs i UsedMany = UsedMany" for cs :: "node_handle option list" and i
    by (induction cs i rule: some_from.induct) auto
  show "used_from cs i UsedMany = UsedMany" by (rule many)
  have one: "used_from cs i (UsedOne a) = (if some_from cs i = [] then UsedOne a else UsedMany)"
    for cs :: "node_handle option list" and i a
    by (induction cs i rule: some_from.induct) (auto simp: many)
  show "used_from cs i (UsedOne a) = (if some_from cs i = [] then UsedOne a else UsedMany)" by (rule one)
  show "used_from cs i UsedNone =
     (case some_from cs i of [] \<Rightarrow> UsedNone | [a] \<Rightarrow> UsedOne a | _ \<Rightarrow> UsedMany)"
    by (induction cs i rule: some_from.induct) (auto simp: one split: list.split)
qed

lemma some_from_filter: "some_from cs i = map (\<lambda>j. i + j) (filter (\<lambda>j. cs ! j \<noteq> None) [0..<length cs])"
proof (induction cs i rule: some_from.induct)
  case (2 cs i)
  have "filter (\<lambda>j. (None # cs) ! j \<noteq> None) [0..<length (None # cs)] =
      map Suc (filter (\<lambda>j. cs ! j \<noteq> None) [0..<length cs])"
    by (simp add: upt_conv_Cons map_Suc_upt [symmetric] filter_map comp_def del: upt_Suc)
  then show ?case using 2 by simp
next
  case (3 c cs i)
  have "filter (\<lambda>j. (Some c # cs) ! j \<noteq> None) [0..<length (Some c # cs)] =
      0 # map Suc (filter (\<lambda>j. cs ! j \<noteq> None) [0..<length cs])"
    by (simp add: upt_conv_Cons map_Suc_upt [symmetric] filter_map comp_def del: upt_Suc)
  then show ?case using 3 by simp
qed simp

lemma kids_none_iff:
  assumes "kids ok hs ts nodes F" and "i < length hs"
  shows "hs ! i = None \<longleftrightarrow> ts ! i = PEmpty"
  using kids_at [OF kids_length [OF assms(1), symmetric] assms(2), of ok] assms(1)
  by (cases "hs ! i") (auto simp: sep_def)

lemma kids_used:
  assumes "kids ok hs ts nodes F"
  shows "some_from hs 0 = used ts"
proof -
  have "filter (\<lambda>j. hs ! j \<noteq> None) [0..<length hs] = filter (\<lambda>j. ts ! j \<noteq> PEmpty) [0..<length hs]"
    by (rule filter_cong) (use kids_none_iff [OF assms] in \<open>simp_all del: not_None_eq\<close>)
  then show ?thesis using kids_length [OF assms] by (simp add: some_from_filter used_def del: not_None_eq)
qed

lemma kids_unused: "kids ok hs ts nodes F \<Longrightarrow> used ts = [] \<Longrightarrow> F = {}"
proof (induction hs arbitrary: ts F)
  case Nil
  then show ?case by (simp add: kids_Nil)
next
  case (Cons c hs)
  from Cons.prems(1) obtain t ts' where ts: "ts = t # ts'" "sep (kid ok c t) (kids ok hs ts') nodes F"
    by (rule kids_ConsE)
  have all: "i < length ts \<Longrightarrow> ts ! i = PEmpty" for i
    using Cons.prems(2) used_iff [of i ts] by simp
  then have "t = PEmpty" "used ts' = []"
    using all [of 0] all [of "Suc i" for i] by (auto simp: ts used_def filter_empty_conv)
  then show ?case using ts(2) Cons.IH [of ts'] by (cases c) (auto simp: sep_def)
qed

lemma fix_node_cases:
  "fix_node D (MExtension k h) = fix_extension D (fix_node D) k h"
  "fix_node D (MBranch hs u) =
     (case used_from hs 0 UsedNone of
        UsedNone \<Rightarrow>
          (case u of
             None \<Rightarrow> (\<lambda>s. Some (Panic, s))
           | Some v \<Rightarrow> act_bind (act_opt (ns_encoded (ns_new []) True)) (\<lambda>k. act_return (MLeaf k v)))
      | UsedOne a \<Rightarrow>
          (case u of
             None \<Rightarrow>
               act_bind (act_opt (do { k \<leftarrow> ns_encoded (ns_new_offset [word_of_nat a] 1) False;
                                       child \<leftarrow> nth_checked hs a; child \<leftarrow> child; Some (MExtension k child) }))
                 (fix_node D)
           | Some v \<Rightarrow> act_return (MBranch hs (Some v)))
      | UsedMany \<Rightarrow> act_return (MBranch hs u))"
  by (rule ext, subst fix_node.simps, simp split: used_index.split option.split)+

lemma joined_key_append:
  assumes "nibs_ok k" and "nibs_ok k'"
  shows "joined_key (hex_prefix k a) (hex_prefix k' b) leaf = Some (hex_prefix (k @ k') leaf)"
proof -
  obtain p where p: "ns_from_encoded (hex_prefix k a) = Some (p, a)" "plain_key p" "ns_nibs p = k"
    by (rule from_encoded_plain [OF assms(1)])
  obtain q where q: "ns_from_encoded (hex_prefix k' b) = Some (q, b)" "plain_key q" "ns_nibs q = k'"
    by (rule from_encoded_plain [OF assms(2)])
  show ?thesis
    using ns_new_composed_nibs [of p q] plain_keyD p q by (simp add: joined_key_def ns_encoded_hex_prefix)
qed

lemma slot_triple: "(stored_ok ok x t \<Longrightarrow> triple D get (body ok (stored_node x) t) m Q) \<Longrightarrow> triple D get (slot ok x t) m Q"
  by (rule triple_pure [where b = "stored_ok ok x t"]) (auto simp: slot_def body_def elim: triple_pre)

lemma slot_body: "stored_ok ok x t \<Longrightarrow> slot ok x t = body ok (stored_node x) t"
  by (simp add: fun_eq_iff slot_def body_def)

lemma nibs_ok_append: "nibs_ok k \<Longrightarrow> nibs_ok k' \<Longrightarrow> nibs_ok (k @ k')"
  by auto

context node_source
begin

lemma triple_condemn_cached: "stored_ok ok x t \<Longrightarrow> triple D get P (condemn_cached x) (\<lambda>_. P)"
  using load by (cases x) (auto simp: condemn_cached_def stored_ok_def intro!: triple_condemn triple_value)

lemma fix_extension_step:
  assumes k: "nibs_ok k"
    and rec: "\<And>k' t' h'. t = PExt k' t' \<Longrightarrow> nibs_ok k' \<Longrightarrow> triple D get (handle ok h' t')
      (rec (MExtension (hex_prefix (k @ k') False) h')) (\<lambda>n. body ok n (fix_ext (k @ k') t'))"
  shows "triple D get (handle ok h t) (fix_extension D rec (hex_prefix k False) h) (\<lambda>n. body ok n (fix_ext k t))"
proof -
  have keep: "triple D get (slot ok x t)
      (act_bind (on_storage (st_alloc x)) (\<lambda>h. act_return (MExtension (hex_prefix k False) (InMemory h))))
      (\<lambda>n. body ok n (PExt k t))" for x
    using k by (intro triple_bind [OF alloc_slot_triple]) (simp add: triple_value)
  show ?thesis
    unfolding fix_extension_def
    apply (rule triple_bind [OF take_node_triple])
    apply (rule slot_triple)
    subgoal premises ok for x
    proof (cases t)
      case PEmpty
      show ?thesis
        unfolding PEmpty by (rule triple_Empty)
          (use keep [of x, unfolded slot_body [OF ok], unfolded PEmpty] in simp)
    next
      case (PLeaf k' v)
      show ?thesis
        unfolding PLeaf by (rule triple_Leaf)
          (use k nibs_ok_append [OF k] in
            \<open>auto simp: joined_key_append intro!: triple_bind [OF triple_condemn_cached [OF ok]] triple_value\<close>)
    next
      case (PExt k' t')
      show ?thesis
        unfolding PExt by (rule triple_Ext)
          (use k rec [OF PExt] in \<open>auto simp: joined_key_append intro!: triple_bind [OF triple_condemn_cached [OF ok]]\<close>)
    next
      case (PBranch ts u)
      show ?thesis
        unfolding PBranch by (rule triple_Branch)
          (use keep [of x, unfolded slot_body [OF ok], unfolded PBranch] in auto)
    qed
    done
qed

lemma fix_extension_triple:
  "nibs_ok k \<Longrightarrow> triple D get (handle ok h t) (fix_node D (MExtension (hex_prefix k False) h))
     (\<lambda>n. body ok n (fix_ext k t))"
proof (induction k t arbitrary: h rule: fix_ext.induct [case_names joins ends void splits])
  case (joins k k' t)
  show ?case
    unfolding fix_node_cases(1) using joins by (intro fix_extension_step) auto
next
  case (ends k k' v)
  then show ?case unfolding fix_node_cases(1) by (intro fix_extension_step) auto
next
  case (void k)
  then show ?case unfolding fix_node_cases(1) by (intro fix_extension_step) auto
next
  case (splits k ts u)
  then show ?case unfolding fix_node_cases(1) by (intro fix_extension_step) auto
qed

end

lemma fix_ext_not_empty [simp]: "fix_ext k t \<noteq> PEmpty"
  by (induction k t rule: fix_ext.induct) auto

lemma fix_branch_not_empty: "used ts \<noteq> [] \<or> v \<noteq> None \<Longrightarrow> fix_branch ts v \<noteq> PEmpty"
  by (auto simp: fix_branch_def split: list.splits option.splits)

lemma kids_only:
  assumes "used ts = [a]" and "a < length hs" and "kids ok hs ts nodes F"
  shows "\<exists>h. hs ! a = Some h \<and> handle ok h (ts ! a) nodes F"
proof -
  have len: "length hs = length ts" using kids_length [OF assms(3)] by simp
  have ne: "ts ! a \<noteq> PEmpty" using used_iff [of a ts] assms(1) by simp
  then obtain h where h: "hs ! a = Some h" using kids_none_iff [OF assms(3,2)] by auto
  from kids_take(2) [OF len assms(2) h assms(3)] obtain A B where AB: "F = A \<union> B" "handle ok h (ts ! a) nodes A"
    "kids ok (hs[a := None]) (ts[a := PEmpty]) nodes B" by (auto simp: sep_def)
  have "used (ts[a := PEmpty]) = []" using used_clear [of a ts] ne assms(1,2) len by simp
  then have "B = {}" using kids_unused AB(3) by blast
  then show ?thesis using h AB by simp
qed

context node_source
begin

lemma fix_branch_triple:
  assumes hs: "length hs = 16" "length ts = 16" and ne: "used ts \<noteq> [] \<or> u \<noteq> None"
  shows "triple D get (kids ok hs ts) (fix_node D (MBranch hs u)) (\<lambda>n. body ok n (fix_branch ts u))"
proof (rule triple_pure [where b = "some_from hs 0 = used ts"])
  assume used: "some_from hs 0 = used ts"
  consider (leaf) v where "used ts = []" "u = Some v" | (one) a where "used ts = [a]" "u = None"
    | (same) "used ts \<noteq> []" "\<not> (\<exists>a. used ts = [a] \<and> u = None)"
    using ne by (cases u) auto
  then show "triple D get (kids ok hs ts) (fix_node D (MBranch hs u)) (\<lambda>n. body ok n (fix_branch ts u))"
  proof cases
    case leaf
    have "ns_encoded (ns_new []) True = Some (hex_prefix [] True)"
      using plain_key_views(3) [OF plain_key_new, of "[]"] by simp
    then have eq: "fix_node D (MBranch hs u) = act_return (MLeaf (hex_prefix [] True) v)"
      using leaf used by (simp add: fix_node_cases used_from_some)
    show ?thesis
      unfolding eq by (rule triple_value) (use leaf kids_unused in \<open>auto simp: fix_branch_def nothing_def\<close>)
  next
    case one
    then have a: "a < 16" using used_iff [of a ts] hs by simp
    let ?x = "word_of_nat a :: byte"
    have x: "unat ?x = a" using a by (simp add: unat_of_nat)
    have plain: "plain_key (ns_new_offset [?x] 1)" by (simp add: plain_key_def) (simp add: ns_new_offset_def)
    have "ns_nibs (ns_new_offset [?x] 1) = [?x]"
      using x a unat_and_15 [of ?x] by (simp add: byte_eq_iff)
    then have key: "ns_encoded (ns_new_offset [?x] 1) False = Some (hex_prefix [?x] False)"
      using plain_key_views(3) [OF plain, of False] by simp
    show ?thesis
    proof (rule triple_pure [where b = "\<exists>h. hs ! a = Some h"])
      fix nodes F assume kids: "kids ok hs ts nodes F"
      show "\<exists>h. hs ! a = Some h" using kids_only [OF one(1) _ kids] a hs by auto
    next
      assume "\<exists>h. hs ! a = Some h"
      then obtain h where h: "hs ! a = Some h" by blast
      have eq: "fix_node D (MBranch hs u) = fix_node D (MExtension (hex_prefix [?x] False) h)"
        using one used key h a hs by (simp add: fix_node_cases(2) used_from_some nth_checked_def)
      have "triple D get (handle ok h (ts ! a)) (fix_node D (MBranch hs u)) (\<lambda>n. body ok n (fix_ext [?x] (ts ! a)))"
        unfolding eq by (rule fix_extension_triple) (use a in \<open>simp add: unat_of_nat\<close>)
      moreover have "handle ok h (ts ! a) nodes F" if "kids ok hs ts nodes F" for nodes F
        using kids_only [OF one(1) _ that] h a hs by auto
      ultimately show ?thesis using one by (auto simp: fix_branch_def elim!: triple_pre)
    qed
  next
    case same
    then have "used_from hs 0 UsedNone = UsedMany \<or> (\<exists>a v. used_from hs 0 UsedNone = UsedOne a \<and> u = Some v)"
      and "fix_branch ts u = PBranch ts u"
      using used by (auto simp: used_from_some fix_branch_def split: list.splits)
    then show ?thesis using hs by (auto simp: fix_node_cases(2) intro!: triple_value)
  qed
qed (rule kids_used)

end

section \<open>Removal\<close>

definition rem_done :: "(bytes \<Rightarrow> ptrie \<Rightarrow> bool) \<Rightarrow> ptrie \<Rightarrow> byte list \<Rightarrow> act \<times> bytes option \<Rightarrow> assertion" where
  "rem_done ok t ns r nodes F \<longleftrightarrow> snd r = pt_lookup t ns \<and> verdict ok t (pt_remove t ns) (fst r) nodes F"

definition rem_at_done ::
  "(bytes \<Rightarrow> ptrie \<Rightarrow> bool) \<Rightarrow> ptrie \<Rightarrow> byte list \<Rightarrow> (nat \<times> bool) option \<times> bytes option \<Rightarrow> assertion" where
  "rem_at_done ok t ns r nodes F \<longleftrightarrow> snd r = pt_lookup t ns \<and>
     (case fst r of
        None \<Rightarrow> pt_remove t ns = PEmpty \<and> F = {}
      | Some (i, changed) \<Rightarrow> pt_remove t ns \<noteq> PEmpty \<and> handle ok (InMemory i) (pt_remove t ns) nodes F \<and>
          (changed \<or> pt_remove t ns = t))"

definition removes :: "'db hash_store_ops \<Rightarrow> (bytes \<Rightarrow> bytes option) \<Rightarrow> (bytes \<Rightarrow> ptrie \<Rightarrow> bool) \<Rightarrow> 'db remover \<Rightarrow> ptrie \<Rightarrow> byte list \<Rightarrow> bool" where
  "removes D get ok rec t ns \<longleftrightarrow>
     (\<forall>n part. plain_key part \<longrightarrow> ns_nibs part = ns \<longrightarrow>
        triple D get (body ok n t) (rec n part None) (rem_done ok t ns))"

lemma removesD:
  "removes D get ok rec t ns \<Longrightarrow> plain_key part \<Longrightarrow> ns_nibs part = ns \<Longrightarrow>
     triple D get (body ok n t) (rec n part None) (rem_done ok t ns)"
  by (simp add: removes_def)

lemma removesI:
  assumes "\<And>n part. plain_key part \<Longrightarrow> ns_nibs part = ns \<Longrightarrow>
    triple D get (body ok n t) (rec n part None) (rem_done ok t ns)"
  shows "removes D get ok rec t ns"
  using assms by (simp add: removes_def)

context node_source
begin

lemma remove_at_triple:
  assumes "removes D get ok rec t ns" and "plain_key part" and "ns_nibs part = ns"
  shows "triple D get (handle ok h t) (remove_at D rec h part None) (rem_at_done ok t ns)"
  unfolding remove_at_def
proof (rule triple_bind [OF take_node_triple])
  fix x
  have "triple D get (body ok n t) (rec n part None)
      (\<lambda>r nodes F. snd r = pt_lookup t ns \<and> verdict ok t (pt_remove t ns) (fst r) nodes F)" for n
    using removesD [OF assms, of n] unfolding rem_done_def [abs_def] .
  note inspected = inspect_triple [of D x t "\<lambda>node. rec node part None", OF this]
  show "triple D get (slot ok x t) (act_bind (inspect x (\<lambda>node. rec node part None)) (\<lambda>(opt, old).
     (case opt of
        None \<Rightarrow> act_return (None, old)
      | Some (new, changed) \<Rightarrow>
          act_bind (on_storage (st_alloc new)) (\<lambda>h. act_return (Some (h, changed), old))))) (rem_at_done ok t ns)"
  proof (rule triple_bind [OF inspected])
    fix r :: "(stored \<times> bool) option \<times> bytes option"
    obtain res old where r: "r = (res, old)" by (cases r)
    show "triple D get (\<lambda>nodes F. snd r = pt_lookup t ns \<and> inspected ok t (pt_remove t ns) (fst r) nodes F)
      (case r of (opt, old) \<Rightarrow> (case opt of
        None \<Rightarrow> act_return (None, old)
      | Some (new, changed) \<Rightarrow>
          act_bind (on_storage (st_alloc new)) (\<lambda>h. act_return (Some (h, changed), old)))) (rem_at_done ok t ns)"
    proof (cases res)
      case None
      then show ?thesis by (auto simp: r inspected_def rem_at_done_def intro!: triple_value)
    next
      case (Some xc)
      obtain x' c where xc: "xc = (x', c)" by (cases xc)
      let ?b = "old = pt_lookup t ns \<and> pt_remove t ns \<noteq> PEmpty \<and> (c \<or> pt_remove t ns = t)"
      have "triple D get (slot ok x' (pt_remove t ns))
          (act_bind (on_storage (st_alloc x')) (\<lambda>h. act_return (Some (h, c), old))) (rem_at_done ok t ns)" if ?b
        using that by (intro triple_bind [OF alloc_slot_triple] triple_value) (simp add: rem_at_done_def)
      then show ?thesis
        unfolding r Some xc prod.case option.case
        by (rule_tac b = ?b in triple_pure) (auto simp: inspected_def elim!: triple_pre)
    qed
  qed
qed

lemma remove_inspector_cases:
  "remove_inspector D MEmpty part old = act_return (Delete, old)"
  "remove_inspector D (MBranch hs u) part old = remove_branch D (remove_inspector D) hs u part old"
  "remove_inspector D (MLeaf k x) part old =
     act_bind (act_opt (do { (k, _) \<leftarrow> ns_from_encoded k; ns_eq k part }))
       (\<lambda>eq. act_return (if eq then (Delete, Some x) else (Restore (MLeaf k x), old)))"
  "remove_inspector D (MExtension k h) part old = remove_extension D (remove_inspector D) k h part old"
  by (rule ext, subst remove_inspector.simps, simp)+

lemma replace_fixed:
  assumes "triple D get P m (\<lambda>n. body ok n t')" and "pt_remove t ns = t'" and "t' \<noteq> PEmpty" and "pt_lookup t ns = y"
  shows "triple D get P (act_bind m (\<lambda>n. act_return (Replace n, y))) (rem_done ok t ns)"
  using assms by (intro triple_bind [OF assms(1)] triple_value) (simp add: rem_done_def verdict_def)

lemma remove_branch_end:
  assumes "plain_key part" and "ns_nibs part = []" and hs: "length hs = 16" "length ts = 16" and ne: "2 \<le> entries ts u"
  shows "triple D get (kids ok hs ts) (remove_branch D rec hs u part None) (rem_done ok (PBranch ts u) [])"
proof (cases u)
  case None
  have "remove_branch D rec hs u part None = act_return (Restore (MBranch hs None), None)"
    using plain_key_views(1) [OF assms(1)] assms(2) None by (simp add: remove_branch_def)
  then show ?thesis using hs None by (auto simp: rem_done_def verdict_def intro!: triple_value)
next
  case (Some v)
  have used: "used ts \<noteq> []" using ne Some by (auto simp: entries_def)
  have "remove_branch D rec hs u part None =
      act_bind (fix_node D (MBranch hs None)) (\<lambda>n. act_return (Replace n, Some v))"
    using plain_key_views(1) [OF assms(1)] assms(2) Some by (simp add: remove_branch_def)
  then show ?thesis
    using replace_fixed [OF fix_branch_triple [OF hs, of None], of "PBranch ts u" "[]" "Some v"]
      fix_branch_not_empty [of ts None] used Some by simp
qed

lemma remove_branch_child:
  assumes part: "plain_key part" "ns_nibs part = x # ns" and hs: "length hs = 16" "length ts = 16"
    and rec: "ts ! unat x \<noteq> PEmpty \<Longrightarrow> removes D get ok rec (ts ! unat x) ns"
    and ne: "2 \<le> entries ts u"
  shows "triple D get (kids ok hs ts) (remove_branch D rec hs u part None) (rem_done ok (PBranch ts u) (x # ns))"
proof -
  have x: "unat x < 16" using ns_nibs_less [of x part] part(2) by simp
  have mid: "plain_key (ns_mid part 1)" "ns_nibs (ns_mid part 1) = ns"
    using plain_key_mid [OF part(1), of 1] part(2) by simp_all
  have idx: "do { x \<leftarrow> ns_at part 0; child \<leftarrow> nth_checked hs (unat x); Some (unat x, child) } = Some (unat x, hs ! unat x)"
    using plain_key_views(4) [OF part] x hs by (simp add: nth_checked_def)
  have start: "ns_is_empty part = Some False" using plain_key_views(1) [OF part(1)] part(2) by simp
  note run = remove_branch_def [of D rec hs u part None, unfolded start idx act_opt_Some if_False prod.case]
  let ?t = "pt_remove (ts ! unat x) ns" and ?rest = "kids ok (hs[unat x := None]) (ts[unat x := PEmpty])"
  let ?put = "\<lambda>i. MBranch (hs[unat x := Some (InMemory i)]) u"
  show ?thesis
  proof (cases "hs ! unat x")
    case None
    have empty: "ts ! unat x = PEmpty" if "kids ok hs ts nodes F" for nodes F
      using kids_clear(1) [OF _ _ None that] hs x by simp
    have eq: "remove_branch D rec hs u part None = act_return (Restore (MBranch hs u), None)"
      unfolding run None by simp
    show ?thesis
      unfolding eq by (rule triple_value) (use empty hs x in \<open>auto simp: rem_done_def verdict_def\<close>)
  next
    case (Some h)
    let ?after = "\<lambda>(r, old). (case r of
                  Some (new, changed) \<Rightarrow>
                    (let branch = ?put new in
                     act_return (if changed then Replace branch else Restore branch, old))
                | None \<Rightarrow>
                    act_bind (fix_node D (MBranch (hs[unat x := None]) u)) (\<lambda>n.
                      act_return (Replace n, old)))"
    have eq: "remove_branch D rec hs u part None = act_bind (remove_at D rec h (ns_mid part 1) None) ?after"
      unfolding run Some by simp
    show ?thesis
    proof (rule triple_pure [where b = "ts ! unat x \<noteq> PEmpty"])
      fix nodes F assume "kids ok hs ts nodes F"
      from kids_take(1) [OF _ _ Some this] show "ts ! unat x \<noteq> PEmpty" using hs x by simp
    next
      assume child: "ts ! unat x \<noteq> PEmpty"
      have at: "triple D get (kids ok hs ts) (remove_at D rec h (ns_mid part 1) None)
          (\<lambda>r. sep (rem_at_done ok (ts ! unat x) ns r) ?rest)"
        using kids_take(2) [OF _ _ Some] hs x
        by (intro triple_pre [OF triple_frame [OF remove_at_triple [OF rec [OF child] mid]]]) simp_all
      show ?thesis
        unfolding eq
      proof (rule triple_bind [OF at])
        fix r :: "(nat \<times> bool) option \<times> bytes option"
        obtain res y where r: "r = (res, y)" by (cases r)
        show "triple D get (sep (rem_at_done ok (ts ! unat x) ns r) ?rest) (?after r)
            (rem_done ok (PBranch ts u) (x # ns))"
        proof (cases res)
          case None
          let ?b = "y = pt_lookup (ts ! unat x) ns \<and> ?t = PEmpty"
          have left: "?b \<and> ?rest nodes F" if "sep (rem_at_done ok (ts ! unat x) ns r) ?rest nodes F" for nodes F
            using that unfolding r None by (auto simp: sep_def rem_at_done_def)
          have "1 \<le> entries (ts[unat x := PEmpty]) u"
            using ne used_clear [of "unat x" ts] child hs x by (simp add: entries_def)
          then have used: "used (ts[unat x := PEmpty]) \<noteq> [] \<or> u \<noteq> None"
            by (cases u) (auto simp: entries_def)
          have main: "triple D get ?rest (act_bind (fix_node D (MBranch (hs[unat x := None]) u)) (\<lambda>n. act_return (Replace n, y)))
              (rem_done ok (PBranch ts u) (x # ns))" if ?b
            using that child hs x fix_branch_not_empty [OF used]
            by (intro replace_fixed [OF fix_branch_triple [OF _ _ used]]) simp_all
          show ?thesis
            unfolding r None prod.case option.case
            by (rule triple_split [where b = ?b and P' = ?rest, OF left [unfolded r None] main])
        next
          case (Some ic)
          obtain i c where ic: "ic = (i, c)" by (cases ic)
          have "rem_done ok (PBranch ts u) (x # ns) (if c then Replace (?put i) else Restore (?put i), y) nodes F"
            if at: "sep (rem_at_done ok (ts ! unat x) ns r) ?rest nodes F" for nodes F
          proof -
            have b: "y = pt_lookup (ts ! unat x) ns" "?t \<noteq> PEmpty" "c \<or> ?t = ts ! unat x"
              "sep (handle ok (InMemory i) ?t) ?rest nodes F"
              using at unfolding r Some ic rem_at_done_def sep_def by auto
            then have "body ok (?put i) (pt_remove (PBranch ts u) (x # ns)) nodes F"
              using kids_put [of hs ts "unat x" ?t ok] child x hs by (simp add: Let_def)
            then show ?thesis
              using b x hs child by (cases c) (auto simp: rem_done_def verdict_def)
          qed
          then show ?thesis
            unfolding r Some ic Let_def by (simp add: triple_value)
        qed
      qed
    qed
  qed
qed

lemma remove_extension_triple:
  assumes part: "plain_key part" "ns_nibs part = ns" and ct: "canon (PExt k t)"
    and rec: "lcp k ns = length k \<Longrightarrow> removes D get ok rec t (drop (length k) ns)"
  shows "triple D get (handle ok h t) (remove_extension D rec (hex_prefix k False) h part None)
    (rem_done ok (PExt k t) ns)"
proof -
  have k: "nibs_ok k" using ct by simp
  obtain s where s: "ns_from_encoded (hex_prefix k False) = Some (s, False)" "plain_key s" "ns_nibs s = k"
    by (rule from_encoded_plain [OF k])
  let ?cp = "lcp k ns"
  have start: "do { (k, _) \<leftarrow> ns_from_encoded (hex_prefix k False); cp \<leftarrow> ns_common_prefix k part; l \<leftarrow> ns_len k;
      Some (cp, l) } = Some (?cp, length k)"
    using s part plain_key_views(2,6) [OF s(2)] by simp
  note run = remove_extension_def [of D rec "hex_prefix k False" h part None, unfolded start act_opt_Some prod.case]
  show ?thesis
  proof (cases "?cp = length k")
    case False
    then have "take (length k) ns \<noteq> k"
      by (metis append_take_drop_id lcp_greatest lcp_le(1) le_antisym length_take min.cobounded1 order_refl take_all)
    then show ?thesis
      using False k unfolding run by (auto simp: rem_done_def verdict_def intro!: triple_value)
  next
    case True
    have ns: "take (length k) ns = k" using take_lcp [of k ns] True by simp
    let ?t = "pt_remove t (drop (length k) ns)" and ?ext = "\<lambda>i. MExtension (hex_prefix k False) (InMemory i)"
    have mid: "plain_key (ns_mid part (length k))" "ns_nibs (ns_mid part (length k)) = drop (length k) ns"
      using plain_key_mid [OF part(1), of "length k"] part(2) True lcp_le(2) [of k ns] by simp_all
    let ?after = "\<lambda>(r, old). (case r of
             Some (new_child, changed) \<Rightarrow>
               (let ext = ?ext new_child in
                if changed then act_bind (fix_node D ext) (\<lambda>n. act_return (Replace n, old))
                else act_return (Restore ext, old))
           | None \<Rightarrow> act_return (Delete, old))"
    have eq: "remove_extension D rec (hex_prefix k False) h part None =
        act_bind (remove_at D rec h (ns_mid part (length k)) None) ?after"
      unfolding run using True by simp
    show ?thesis
      unfolding eq
    proof (rule triple_bind [OF remove_at_triple [OF rec [OF True] mid]])
      fix r :: "(nat \<times> bool) option \<times> bytes option"
      obtain res y where r: "r = (res, y)" by (cases r)
      show "triple D get (rem_at_done ok t (drop (length k) ns) r) (?after r) (rem_done ok (PExt k t) ns)"
      proof (cases res)
        case None
        then show ?thesis
          using True ns by (auto simp: r rem_at_done_def rem_done_def verdict_def intro!: triple_value)
      next
        case (Some ic)
        obtain i c where ic: "ic = (i, c)" by (cases ic)
        let ?b = "y = pt_lookup t (drop (length k) ns) \<and> ?t \<noteq> PEmpty \<and> (c \<or> ?t = t)"
        have left: "?b \<and> handle ok (InMemory i) ?t nodes F"
          if "rem_at_done ok t (drop (length k) ns) r nodes F" for nodes F
          using that unfolding r Some ic rem_at_done_def by auto
        have main: "triple D get (handle ok (InMemory i) ?t) (?after r) (rem_done ok (PExt k t) ns)" if b: ?b
        proof (cases c)
          case True
          then show ?thesis
            using replace_fixed [OF fix_extension_triple [OF k], of "PExt k t" ns ?t y] b ns \<open>?cp = length k\<close>
            unfolding r Some ic by (simp add: Let_def)
        next
          case False
          then have "?t = t" using b by simp
          moreover have "fix_ext k t = PExt k t" using ct by (cases t) auto
          ultimately show ?thesis
            using False b k ns \<open>?cp = length k\<close> unfolding r Some ic
            by (auto simp: Let_def rem_done_def verdict_def intro!: triple_value)
        qed
        show ?thesis
          by (rule triple_split [where b = ?b and P' = "handle ok (InMemory i) ?t", OF left main])
      qed
    qed
  qed
qed

lemma remove_inspector_triple: "canon t \<Longrightarrow> removes D get ok (remove_inspector D) t ns"
proof (induction t ns rule: pt_remove.induct)
  case (1 ns)
  show ?case
    by (rule removesI, rule triple_Empty)
      (auto simp: remove_inspector_cases rem_done_def verdict_def nothing_def intro!: triple_value)
next
  case (2 k u ns)
  show ?case
  proof (rule removesI, rule triple_Leaf)
    fix n part assume part: "plain_key part" "ns_nibs part = ns"
      and n: "nibs_ok k \<and> n = MLeaf (hex_prefix k True) u"
    obtain s where s: "ns_from_encoded (hex_prefix k True) = Some (s, True)" "plain_key s" "ns_nibs s = k"
      by (rule from_encoded_plain [OF conjunct1 [OF n]])
    then have "do { (k, _) \<leftarrow> ns_from_encoded (hex_prefix k True); ns_eq k part } = Some (k = ns)"
      using plain_key_views(7) [OF s(2) part(1)] part(2) by simp
    then show "triple D get (body ok n (PLeaf k u)) (remove_inspector D n part None) (rem_done ok (PLeaf k u) ns)"
      using n by (auto simp: remove_inspector_cases rem_done_def verdict_def nothing_def intro!: triple_value)
  qed
next
  case (3 ts u)
  show ?case
    by (rule removesI, rule triple_Branch) (use 3 in \<open>auto simp: remove_inspector_cases intro: remove_branch_end\<close>)
next
  case (4 ts u x ns)
  show ?case
  proof (rule removesI, rule triple_Branch)
    fix n part assume part: "plain_key part" "ns_nibs part = x # ns"
      and "\<exists>hs. n = MBranch hs u \<and> length hs = 16 \<and> length ts = 16"
    then obtain hs where n: "n = MBranch hs u" "length hs = 16" "length ts = 16" by blast
    have "unat x < 16" using ns_nibs_less [of x part] part(2) by simp
    then have "ts ! unat x \<noteq> PEmpty \<Longrightarrow> removes D get ok (remove_inspector D) (ts ! unat x) ns"
      using 4 n(3) by simp
    then show "triple D get (body ok n (PBranch ts u)) (remove_inspector D n part None) (rem_done ok (PBranch ts u) (x # ns))"
      using remove_branch_child [OF part n(2,3), of D "remove_inspector D" u] n 4(2)
      by (simp add: remove_inspector_cases)
  qed
next
  case (5 k t ns)
  show ?case
  proof (rule removesI, rule triple_Ext)
    fix n part assume part: "plain_key part" "ns_nibs part = ns"
      and "\<exists>h. nibs_ok k \<and> n = MExtension (hex_prefix k False) h"
    then obtain h where n: "n = MExtension (hex_prefix k False) h" by blast
    show "triple D get (body ok n (PExt k t)) (remove_inspector D n part None) (rem_done ok (PExt k t) ns)"
      using remove_extension_triple [OF part 5(2), of D "remove_inspector D" h] 5 n by (simp add: remove_inspector_cases)
  qed
qed

end

end
