(* ===== verification/Trie_Mut_Map.thy ===== *)
theory Trie_Mut_Map
  imports Trie_Refine
begin

text \<open>
  What the trait \<open>TrieMut\<close> promises of \<open>TrieDBMut\<close> (\<open>patricia_trie/src/triedbmut.rs\<close>), over a store
  that has every node: \<open>insert\<close>, \<open>remove\<close>, \<open>get\<close>, \<open>contains\<close> and \<open>is_empty\<close> are those of a map
  from keys to nonempty values, and the trie in memory depends on the contents of that map alone.

  \<open>trie_rep D t s\<close> relates the state \<open>s\<close> to the canonical trie \<open>t\<close> its root handle stands for;
  \<open>of_keys m\<close> is the map \<open>m\<close> with its keys spelled in nibbles.
\<close>

section \<open>Lookup in memory\<close>

lemma lookup_in_cases:
  "lookup_in D s part (Hash hash) =
     map_option fst (look_up (query_fn (\<lambda>v. v)) (hs_get D (tm_db s)) hash part ())"
  "st_index (tm_storage s) i = Some MEmpty \<Longrightarrow> lookup_in D s part (InMemory i) = Some (Ok None)"
  "st_index (tm_storage s) i = Some (MLeaf key v) \<Longrightarrow> lookup_in D s part (InMemory i) =
     (case do { (k, _) \<leftarrow> ns_from_encoded key; ns_eq k part } of
        None \<Rightarrow> Some Panic | Some eq \<Rightarrow> Some (Ok (if eq then Some v else None)))"
  "st_index (tm_storage s) i = Some (MExtension key child) \<Longrightarrow> lookup_in D s part (InMemory i) =
     (case do { (k, _) \<leftarrow> ns_from_encoded key; b \<leftarrow> ns_starts_with part k; l \<leftarrow> ns_len k; Some (b, l) } of
        None \<Rightarrow> Some Panic
      | Some (b, l) \<Rightarrow> if b then lookup_in D s (ns_mid part l) child else Some (Ok None))"
  "st_index (tm_storage s) i = Some (MBranch children u) \<Longrightarrow> lookup_in D s part (InMemory i) =
     (case ns_is_empty part of
        None \<Rightarrow> Some Panic
      | Some at_end \<Rightarrow>
          if at_end then Some (Ok u)
          else (case do { idx \<leftarrow> ns_at part 0; nth_checked children (unat idx) } of
                  None \<Rightarrow> Some Panic
                | Some None \<Rightarrow> Some (Ok None)
                | Some (Some child) \<Rightarrow> lookup_in D s (ns_mid part 1) child))"
  by (subst lookup_in.simps, simp)+

lemma lookup_in_rep:
  assumes "node_source (hs_get D (tm_db s)) ok"
  shows "handle_rep ok nodes h t F \<Longrightarrow> nodes = st_nodes (tm_storage s) \<Longrightarrow>
      (\<And>part. plain_key part \<Longrightarrow> lookup_in D s part h = Some (Ok (pt_lookup t (ns_nibs part))))"
    and "body_rep ok nodes n t F \<Longrightarrow> nodes = st_nodes (tm_storage s) \<Longrightarrow>
      (\<And>i part. plain_key part \<Longrightarrow> st_index (tm_storage s) i = Some n \<Longrightarrow>
         lookup_in D s part (InMemory i) = Some (Ok (pt_lookup t (ns_nibs part))))"
    and "children_rep ok nodes hs ts F \<Longrightarrow> nodes = st_nodes (tm_storage s) \<Longrightarrow>
      list_all2 (\<lambda>c t. case c of None \<Rightarrow> t = PEmpty
        | Some h \<Rightarrow> \<forall>part. plain_key part \<longrightarrow> lookup_in D s part h = Some (Ok (pt_lookup t (ns_nibs part)))) hs ts"
proof (induction rule: handle_rep_body_rep_children_rep.inducts)
  case (H_Hash h t)
  let ?get = "hs_get D (tm_db s)"
  obtain d where d: "?get h = Some d" "node_rep ?get d t" using node_source.read [OF assms H_Hash(1)] by blast
  have "\<exists>r. look_up (query_fn (\<lambda>v. v)) ?get h part () = Some (r, ()) \<and>
      (if ?get h = None then r = Err (InvalidStateRoot h)
       else answers ?get ?get (map_option (\<lambda>v. v) (pt_lookup t (ns_nibs part))) r)"
    by (rule look_up_rep [OF map_le_refl d H_Hash(3)])
  then show ?case
    using d(1) by (auto simp: lookup_in_cases answers_def option.map_ident)
next
  case (H_Mem i t F)
  then show ?case by (simp add: st_index_def)
next
  case B_Empty
  then show ?case by (simp add: lookup_in_cases)
next
  case (B_Leaf ns v)
  obtain k where "ns_from_encoded (hex_prefix ns True) = Some (k, True)" "plain_key k" "ns_nibs k = ns"
    by (rule from_encoded_plain [OF B_Leaf(1)])
  then show ?case
    using B_Leaf plain_key_views(7) [of k part] by (simp add: lookup_in_cases)
next
  case (B_Ext ns h t F)
  obtain k where k: "ns_from_encoded (hex_prefix ns False) = Some (k, False)" "plain_key k" "ns_nibs k = ns"
    by (rule from_encoded_plain [OF B_Ext(1)])
  show ?case
  proof (cases "take (length ns) (ns_nibs part) = ns")
    case True
    note mid = plain_key_mid [OF B_Ext.prems(2) length_take_prefix [OF True]]
    show ?thesis
      using True B_Ext.IH(2) [OF B_Ext.prems(1) mid(1)] mid(2) B_Ext.prems k plain_key_views(2) [OF k(2)]
      by (simp add: lookup_in_cases ns_starts_with_nibs plain_keyD take_prefix_iff)
  next
    case False
    then show ?thesis
      using B_Ext.prems k plain_key_views(2) [OF k(2)]
      by (simp add: lookup_in_cases ns_starts_with_nibs plain_keyD take_prefix_iff)
  qed
next
  case (B_Branch hs ts F v)
  have len: "length ts = 16" using children_length [OF B_Branch.IH(1)] B_Branch.hyps by simp
  show ?case
  proof (cases "ns_nibs part")
    case Nil
    then show ?thesis using B_Branch plain_key_views(1) [of part] by (simp add: lookup_in_cases)
  next
    case (Cons x ns)
    have x: "unat x < 16" using ns_nibs_less [of x part] Cons by simp
    have mid: "plain_key (ns_mid part 1)" "ns_nibs (ns_mid part 1) = ns"
      using plain_key_mid [OF B_Branch.prems(2), of 1] Cons by simp_all
    from list_all2_nthD [OF B_Branch.IH(2) [OF B_Branch.prems(1)], of "unat x"] x B_Branch.hyps
    have "case hs ! unat x of None \<Rightarrow> ts ! unat x = PEmpty
        | Some h \<Rightarrow> \<forall>part. plain_key part \<longrightarrow> lookup_in D s part h = Some (Ok (pt_lookup (ts ! unat x) (ns_nibs part)))"
      by simp
    then show ?thesis
      using Cons x mid len B_Branch.hyps B_Branch.prems plain_key_views(1,4) [of part]
      by (cases "hs ! unat x") (simp_all add: lookup_in_cases nth_checked_def del: One_nat_def)
  qed
qed auto

section \<open>The state and the trie it stands for\<close>

definition trie_rep :: "'db hash_store_ops \<Rightarrow> (bytes \<Rightarrow> ptrie \<Rightarrow> bool) \<Rightarrow> ptrie \<Rightarrow> 'db trie_mut \<Rightarrow> bool" where
  "trie_rep D ok t s \<longleftrightarrow>
     canon t \<and> st_ok (tm_storage s) \<and> node_source (hs_get D (tm_db s)) ok \<and> ok BLAKE2B_NULL_RLP PEmpty \<and>
     (\<exists>F \<subseteq> live (tm_storage s). handle ok (tm_root_handle s) t (st_nodes (tm_storage s)) F) \<and>
     (\<forall>h. tm_root_handle s = Hash h \<longrightarrow> tm_root s = h \<and> (h = BLAKE2B_NULL_RLP \<longleftrightarrow> t = PEmpty))"

lemma storage_empty_ok [simp]: "st_ok storage_empty" "live storage_empty = {}"
  by (simp_all add: st_ok_def live_def storage_empty_def)

lemma handle_hash: "ok h t \<Longrightarrow> handle ok (Hash h) t nodes {}"
  unfolding handle_def by (rule H_Hash)

lemma trie_rep_at:
  assumes "node_source (hs_get D db) ok" and "ok BLAKE2B_NULL_RLP PEmpty" and "ok root t" and "canon t"
    and "root = BLAKE2B_NULL_RLP \<longleftrightarrow> t = PEmpty"
  shows "trie_rep D ok t (trie_mut_at db root)"
  using assms handle_hash [of ok root t] by (auto simp: trie_rep_def trie_mut_at_def)

lemma trie_rep_get:
  assumes "trie_rep D ok t s"
  shows "trie_mut_get D s key = Some (Ok (pt_lookup t (nibbles key)))"
proof -
  obtain F where "handle_rep ok (st_nodes (tm_storage s)) (tm_root_handle s) t F"
    using assms by (auto simp: trie_rep_def handle_def)
  moreover have "node_source (hs_get D (tm_db s)) ok" using assms by (simp add: trie_rep_def)
  ultimately show ?thesis
    unfolding trie_mut_get_def using lookup_in_rep(1) [of D s ok _ _ t F "ns_new key"] by simp
qed

lemma trie_rep_is_empty:
  assumes "trie_rep D ok t s"
  shows "trie_mut_is_empty s = Some (t = PEmpty)"
proof (cases "tm_root_handle s")
  case (Hash h)
  then show ?thesis using assms by (simp add: trie_rep_def trie_mut_is_empty_def)
next
  case (InMemory i)
  then obtain F where "handle_rep ok (st_nodes (tm_storage s)) (InMemory i) t F"
    using assms by (auto simp: trie_rep_def handle_def)
  then obtain G where "i < length (st_nodes (tm_storage s))"
    "body_rep ok (st_nodes (tm_storage s)) (stored_node (st_nodes (tm_storage s) ! i)) t G"
    by (rule handle_MemE) blast
  moreover have "n = MEmpty \<longleftrightarrow> t = PEmpty" if "body_rep ok nodes n t G" for nodes n
    using that by (cases rule: body_rep.cases) auto
  ultimately show ?thesis by (simp add: InMemory trie_mut_is_empty_def st_index_def)
qed

lemma trie_rep_update:
  assumes m: "triple D (hs_get D (tm_db s)) (handle ok (tm_root_handle s) t) m Q" and s: "trie_rep D ok t s"
  obtains x s' F where "m s = Some (Ok x, s')" and "tm_db s' = tm_db s" and
    "condemned (hs_get D (tm_db s)) s s'" and "st_ok (tm_storage s')"
    and "F \<subseteq> live (tm_storage s')" and "Q x (st_nodes (tm_storage s')) F"
proof -
  obtain F where F: "F \<subseteq> live (tm_storage s)"
    "handle ok (tm_root_handle s) t (st_nodes (tm_storage s)) F" "st_ok (tm_storage s)"
    using s by (auto simp: trie_rep_def)
  obtain x s' F' where r: "m s = Some (Ok x, s')" "tm_db s' = tm_db s" "condemned (hs_get D (tm_db s)) s s'"
    "step F (tm_storage s) F' (tm_storage s')" "Q x (st_nodes (tm_storage s')) F'"
    by (rule tripleD [OF m refl F(3,1,2)])
  show ?thesis by (rule that [OF r(1-3) stepD(1,2) [OF r(4)] r(5)])
qed

lemma trie_rep_remove:
  assumes "trie_rep D ok t s"
  shows "\<exists>s'. trie_mut_remove D key s = Some (Ok (pt_lookup t (nibbles key)), s') \<and> tm_db s' = tm_db s \<and>
    condemned (hs_get D (tm_db s)) s s' \<and> trie_rep D ok (pt_remove t (nibbles key)) s'"
proof -
  have t: "canon t" "canon (pt_remove t (nibbles key))" using assms remove_form by (auto simp: trie_rep_def)
  have src: "node_source (hs_get D (tm_db s)) ok" using assms by (simp add: trie_rep_def)
  note at = node_source.remove_at_triple [OF src node_source.remove_inspector_triple [OF src t(1)]
      plain_key_new ns_new_ok(2)]
  obtain r s' F where r: "remove_at D (remove_inspector D) (tm_root_handle s) (ns_new key) None s = Some (Ok r, s')"
    "tm_db s' = tm_db s" "condemned (hs_get D (tm_db s)) s s'" "st_ok (tm_storage s')" "F \<subseteq> live (tm_storage s')"
    "rem_at_done ok t (nibbles key) r (st_nodes (tm_storage s')) F"
    by (rule trie_rep_update [OF at assms])
  obtain res old where res: "r = (res, old)" by (cases r)
  show ?thesis
  proof (cases res)
    case None
    then show ?thesis
      using r t handle_hash [of ok BLAKE2B_NULL_RLP PEmpty] assms
      by (auto simp: trie_mut_remove_def act_bind_def res rem_at_done_def trie_rep_def condemned_def)
  next
    case (Some ic)
    then show ?thesis
      using r t assms
      by (cases ic) (auto simp: trie_mut_remove_def act_bind_def res rem_at_done_def trie_rep_def condemned_def)
  qed
qed

lemma trie_rep_insert:
  assumes "trie_rep D ok t s" and "v \<noteq> []"
  shows "\<exists>s'. trie_mut_insert D key v s = Some (Ok (pt_lookup t (nibbles key)), s') \<and> tm_db s' = tm_db s \<and>
    condemned (hs_get D (tm_db s)) s s' \<and> trie_rep D ok (pt_insert t (nibbles key) v) s'"
proof -
  have t: "pre t" "nibs_ok (nibbles key)" using assms nibbles_less by (auto simp: trie_rep_def pre_def)
  have c: "canon (pt_insert t (nibbles key) v)" using insert_form [OF t assms(2)] assms(1) by (simp add: trie_rep_def)
  have src: "node_source (hs_get D (tm_db s)) ok" using assms by (simp add: trie_rep_def)
  note at = node_source.insert_at_triple [OF src node_source.insert_inspector_triple [OF src t]
      plain_key_new ns_new_ok(2) insert_not_empty [OF t(1)]]
  obtain r s' F where r: "insert_at D (insert_inspector D) (tm_root_handle s) (ns_new key) v None s = Some (Ok r, s')"
    "tm_db s' = tm_db s" "condemned (hs_get D (tm_db s)) s s'" "st_ok (tm_storage s')" "F \<subseteq> live (tm_storage s')"
    "ins_at_done ok t (nibbles key) v r (st_nodes (tm_storage s')) F"
    by (rule trie_rep_update [OF at assms(1)])
  obtain i ch old where "r = ((i, ch), old)" by (metis surj_pair)
  then show ?thesis
    using r c assms by (auto simp: trie_mut_insert_def act_bind_def ins_at_done_def trie_rep_def condemned_def)
qed

section \<open>Stores\<close>

text \<open>A store that has every node below a hash, whatever its encoding.\<close>

definition stored_at :: "(bytes \<Rightarrow> bytes option) \<Rightarrow> bytes \<Rightarrow> ptrie \<Rightarrow> bool" where
  "stored_at get h t \<longleftrightarrow> (\<exists>d. get h = Some d \<and> node_rep get d t)"

lemma node_rep_load:
  "node_rep get d t \<Longrightarrow> load_rep (stored_at get) d t"
  "item_rep get c t \<Longrightarrow> load_item (stored_at get) c t"
proof (induction rule: node_rep_item_rep.inducts)
  case (rep_Branch d cs v ts)
  then have "list_all2 (load_item (stored_at get)) cs ts" by (simp add: list_all2_conv_all_nth)
  then show ?case using rep_Branch by (intro load_Branch)
next
  case (rep_Hash c h t d)
  then show ?case by (intro load_Hash) (auto simp: stored_at_def)
qed (auto intro: load_rep_load_item.intros)

interpretation stored: node_source get "stored_at get" for get :: "bytes \<Rightarrow> bytes option"
  by unfold_locales (auto simp: stored_at_def node_rep_load)

text \<open>A trie that began empty meets one hash only.\<close>

definition null_at :: "bytes \<Rightarrow> ptrie \<Rightarrow> bool" where
  "null_at h t \<longleftrightarrow> h = BLAKE2B_NULL_RLP \<and> t = PEmpty"

lemma null_source:
  assumes "get BLAKE2B_NULL_RLP = Some NULL_RLP"
  shows "node_source get null_at"
  by unfold_locales (auto simp: null_at_def assms NULL_RLP_def intro: load_Empty rep_Empty node_decoded_Empty)

interpretation mdb_null: node_source "mdb_get m" null_at for m :: memory_db
  by (rule null_source) (simp add: mdb_get_def)

section \<open>Sequences of updates\<close>

text \<open>A map with keys in bytes, seen with its keys in nibbles.\<close>

definition of_keys :: "(bytes \<rightharpoonup> bytes) \<Rightarrow> (byte list \<rightharpoonup> bytes)" where
  "of_keys m ns = (if even (length ns) \<and> nibs_ok ns then m (pack ns) else None)"

lemma of_keys_nibbles [simp]: "of_keys m (nibbles key) = m key"
  using nibbles_less by (auto simp: of_keys_def)

lemma of_keys_update: "of_keys (m(key := x)) = (of_keys m)(nibbles key := x)"
proof
  fix ns
  show "of_keys (m(key := x)) ns = ((of_keys m)(nibbles key := x)) ns"
  proof (cases "even (length ns) \<and> nibs_ok ns")
    case True
    then have "pack ns = key \<longleftrightarrow> ns = nibbles key" using nibbles_pack [of ns] pack_nibbles by metis
    then show ?thesis using True by (auto simp: of_keys_def)
  next
    case False
    then have "ns \<noteq> nibbles key" using nibbles_less by auto
    then show ?thesis using False by (auto simp: of_keys_def)
  qed
qed

lemma of_keys_empty [simp]: "of_keys Map.empty = Map.empty"
  by (simp add: of_keys_def fun_eq_iff)

lemma of_keys_inject: "of_keys m = of_keys m' \<longleftrightarrow> m = m'"
  by (metis ext of_keys_nibbles)

text \<open>An insertion of the empty value is a removal, in the code as in the specification.\<close>

fun mut_step :: "'db hash_store_ops \<Rightarrow> map_op \<Rightarrow> ('db trie_mut, bytes option) action" where
  "mut_step D (Put key v) = trie_mut_insert D key v"
| "mut_step D (Del key) = trie_mut_remove D key"

fun mut_run :: "'db hash_store_ops \<Rightarrow> map_op list \<Rightarrow> ('db trie_mut, bytes option list) action" where
  "mut_run D [] = act_return []"
| "mut_run D (op # ops) =
     act_bind (mut_step D op) (\<lambda>old. act_bind (mut_run D ops) (\<lambda>olds. act_return (old # olds)))"

fun op_key :: "map_op \<Rightarrow> bytes" where
  "op_key (Put key v) = key"
| "op_key (Del key) = key"

fun kv_step :: "map_op \<Rightarrow> (bytes \<rightharpoonup> bytes) \<Rightarrow> (bytes \<rightharpoonup> bytes)" where
  "kv_step (Put key v) m = (if v = [] then m(key := None) else m(key \<mapsto> v))"
| "kv_step (Del key) m = m(key := None)"

fun kv_olds :: "map_op list \<Rightarrow> (bytes \<rightharpoonup> bytes) \<Rightarrow> bytes option list" where
  "kv_olds [] m = []"
| "kv_olds (op # ops) m = m (op_key op) # kv_olds ops (kv_step op m)"

definition map_rep :: "'db hash_store_ops \<Rightarrow> (bytes \<Rightarrow> ptrie \<Rightarrow> bool) \<Rightarrow> (bytes \<rightharpoonup> bytes) \<Rightarrow> 'db trie_mut \<Rightarrow> bool" where
  "map_rep D ok m s \<longleftrightarrow> (\<exists>t. trie_rep D ok t s \<and> pt_lookup t = of_keys m)"

lemma map_rep_step:
  assumes "map_rep D ok m s"
  shows "\<exists>s'. mut_step D op s = Some (Ok (m (op_key op)), s') \<and> tm_db s' = tm_db s \<and>
    condemned (hs_get D (tm_db s)) s s' \<and> map_rep D ok (kv_step op m) s'"
proof -
  obtain t where t: "trie_rep D ok t s" "pt_lookup t = of_keys m" using assms by (auto simp: map_rep_def)
  have canon: "canon t" using t(1) by (simp add: trie_rep_def)
  have removed: "pt_lookup (pt_remove t (nibbles key)) = of_keys (m(key := None))" for key
    using remove_lookup [OF canon] t(2) by (simp add: fun_eq_iff of_keys_update)
  have inserted: "pt_lookup (pt_insert t (nibbles key) v) = of_keys (m(key \<mapsto> v))" for key v
    using insert_lookup [of t "nibbles key"] canon t(2) nibbles_less
    by (auto simp: fun_eq_iff of_keys_update pre_def)
  have del: "\<exists>s'. trie_mut_remove D key s = Some (Ok (m key), s') \<and> tm_db s' = tm_db s \<and>
      condemned (hs_get D (tm_db s)) s s' \<and> map_rep D ok (m(key := None)) s'" for key
    using trie_rep_remove [OF t(1), of key] removed [of key] t(2) by (auto simp: map_rep_def)
  show ?thesis
  proof (cases op)
    case (Put key v)
    show ?thesis
    proof (cases "v = []")
      case True
      then show ?thesis using del [of key] Put by (simp add: trie_mut_insert_def)
    next
      case False
      then show ?thesis
        using trie_rep_insert [OF t(1) False, of key] inserted [of key v] t(2) Put by (auto simp: map_rep_def)
    qed
  next
    case (Del key)
    then show ?thesis using del [of key] by simp
  qed
qed

lemma map_rep_run:
  "map_rep D ok m s \<Longrightarrow> \<exists>s'. mut_run D ops s = Some (Ok (kv_olds ops m), s') \<and> tm_db s' = tm_db s \<and>
     condemned (hs_get D (tm_db s)) s s' \<and> map_rep D ok (fold kv_step ops m) s'"
proof (induction ops arbitrary: m s)
  case Nil
  then show ?case by (simp add: act_return_def)
next
  case (Cons op ops)
  obtain s1 where 1: "mut_step D op s = Some (Ok (m (op_key op)), s1)" "tm_db s1 = tm_db s"
    "condemned (hs_get D (tm_db s)) s s1" "map_rep D ok (kv_step op m) s1" using map_rep_step [OF Cons.prems] by blast
  show ?case
    using Cons.IH [OF 1(4)] 1 condemned_trans [OF 1(3)] by (fastforce simp: act_bind_def act_return_def)
qed

lemma map_rep_get: "map_rep D ok m s \<Longrightarrow> trie_mut_get D s key = Some (Ok (m key))"
  unfolding map_rep_def by (elim exE conjE, subst trie_rep_get) auto

lemma map_rep_contains: "map_rep D ok m s \<Longrightarrow> trie_mut_contains D s key = Some (Ok (m key \<noteq> None))"
  by (simp add: trie_mut_contains_def map_rep_get)

lemma map_rep_is_empty:
  assumes "map_rep D ok m s"
  shows "trie_mut_is_empty s = Some (m = Map.empty)"
proof -
  obtain t where t: "trie_rep D ok t s" "pt_lookup t = of_keys m" using assms by (auto simp: map_rep_def)
  then have "t = PEmpty \<longleftrightarrow> m = Map.empty"
    using canon_empty_iff [of t] of_keys_inject [of m Map.empty] by (simp add: trie_rep_def)
  then show ?thesis using trie_rep_is_empty [OF t(1)] by simp
qed

lemma map_rep_new:
  assumes "hs_get D db BLAKE2B_NULL_RLP = Some NULL_RLP"
  shows "map_rep D null_at Map.empty (trie_mut_new db)"
  unfolding map_rep_def
proof (intro exI conjI)
  show "trie_rep D null_at PEmpty (trie_mut_new db)"
    unfolding trie_mut_new_def using null_source [of "hs_get D db", OF assms] by (intro trie_rep_at) (auto simp: null_at_def)
qed (simp add: fun_eq_iff)

lemma run_new:
  assumes "hs_get D db BLAKE2B_NULL_RLP = Some NULL_RLP"
  obtains s where "mut_run D ops (trie_mut_new db) = Some (Ok (kv_olds ops Map.empty), s)" and "tm_db s = db"
    and "tm_death_row s \<subseteq> dom (hs_get D db)" and "map_rep D null_at (fold kv_step ops Map.empty) s"
  using map_rep_run [OF map_rep_new [OF assms], of ops]
  by (auto simp: trie_mut_new_def trie_mut_at_def condemned_def)

section \<open>Properties\<close>

text \<open>C2. A new \<open>TrieDBMut\<close> is a map. Any sequence of \<open>insert\<close> and \<open>remove\<close> on it, an insertion of
  the empty value being a removal as in the code, terminates without a panic or an error and leaves
  the store untouched; each call returns the value the key had before it. Afterwards \<open>get\<close> and
  \<open>contains\<close> answer for every key what the map with the same updates holds, and \<open>is_empty\<close> is true
  exactly when that map is empty. The store only has to answer for the hash of the empty trie, as
  every store of this library does.\<close>

theorem trie_mut_is_map:
  assumes "hs_get D db BLAKE2B_NULL_RLP = Some NULL_RLP"
  shows "\<exists>s. mut_run D ops (trie_mut_new db) = Some (Ok (kv_olds ops Map.empty), s) \<and> tm_db s = db \<and>
    (\<forall>key. trie_mut_get D s key = Some (Ok (fold kv_step ops Map.empty key)) \<and>
       trie_mut_contains D s key = Some (Ok (fold kv_step ops Map.empty key \<noteq> None))) \<and>
    trie_mut_is_empty s = Some (fold kv_step ops Map.empty = Map.empty)"
proof -
  obtain s where "mut_run D ops (trie_mut_new db) = Some (Ok (kv_olds ops Map.empty), s)" "tm_db s = db"
    "map_rep D null_at (fold kv_step ops Map.empty) s"
    by (rule run_new [OF assms])
  then show ?thesis
    by (intro exI [of _ s]) (simp add: map_rep_get [of D null_at] map_rep_contains [of D null_at]
        map_rep_is_empty [of D null_at])
qed

lemma memory_ops_get [simp]: "hs_get (memory_ops hash) = mdb_get"
  by (simp add: memory_ops_def)

lemma mdb_get_null [simp]: "mdb_get m BLAKE2B_NULL_RLP = Some NULL_RLP"
  by (simp add: mdb_get_def)

theorem trie_mut_is_map_witness:
  "\<exists>s. mut_run (memory_ops id) [Put [1] [2], Put [1, 2] [3], Put [1] [], Del [7]] (trie_mut_new mdb_new) =
      Some (Ok [None, None, Some [2], None], s) \<and>
    trie_mut_get (memory_ops id) s [1] = Some (Ok None) \<and> trie_mut_get (memory_ops id) s [1, 2] = Some (Ok (Some [3])) \<and>
    trie_mut_is_empty s = Some False"
  using trie_mut_is_map [of "memory_ops id" mdb_new "[Put [1] [2], Put [1, 2] [3], Put [1] [], Del [7]]"]
  by (auto simp: fun_eq_iff simp del: mut_run.simps)

text \<open>C19. The same for \<open>from_existing\<close>: over a store whose node at \<open>root\<close> and the nodes below it
  decode to a canonical trie, the opened trie is the map which that trie denotes. Updates load the
  nodes they meet, return the old values, and afterwards every key reads as in the updated map.\<close>

theorem trie_mut_existing_is_map:
  assumes "trie_mut_from_existing D db root = Ok s" and "hs_get D db BLAKE2B_NULL_RLP = Some NULL_RLP"
    and "hs_get D db root = Some d" and "node_rep (hs_get D db) d t" and "canon t" and "pt_lookup t = of_keys m"
    and "root = BLAKE2B_NULL_RLP \<longleftrightarrow> t = PEmpty"
  shows "\<exists>s'. mut_run D ops s = Some (Ok (kv_olds ops m), s') \<and>
    (\<forall>key. trie_mut_get D s' key = Some (Ok (fold kv_step ops m key))) \<and>
    trie_mut_is_empty s' = Some (fold kv_step ops m = Map.empty)"
proof -
  have s: "s = trie_mut_at db root" using assms(1) by (auto simp: trie_mut_from_existing_def split: if_splits)
  have null: "stored_at (hs_get D db) BLAKE2B_NULL_RLP PEmpty"
    using assms(2) by (auto simp: stored_at_def NULL_RLP_def intro: rep_Empty node_decoded_Empty)
  have "stored_at (hs_get D db) root t" using assms(3,4) by (auto simp: stored_at_def)
  then have "map_rep D (stored_at (hs_get D db)) m s"
    unfolding map_rep_def s using trie_rep_at [OF stored.node_source_axioms null _ assms(5,7)] assms(6) by blast
  from map_rep_run [OF this, of ops] obtain s' where
    "mut_run D ops s = Some (Ok (kv_olds ops m), s')" "map_rep D (stored_at (hs_get D db)) (fold kv_step ops m) s'" by blast
  then show ?thesis
    by (intro exI [of _ s']) (simp add: map_rep_get [of D "stored_at (hs_get D db)"]
        map_rep_is_empty [of D "stored_at (hs_get D db)"])
qed

lemma single_leaf_keys: "pt_lookup (PLeaf (nibbles key) v) = of_keys [key \<mapsto> v]"
  by (auto simp: of_keys_update fun_eq_iff)

theorem trie_mut_existing_is_map_witness:
  "\<exists>s'. mut_run ((memory_ops id)\<lparr>hs_get := \<lambda>m k. if k = [1] then Some leaf_node else mdb_get m k,
      hs_contains := \<lambda>m k. True\<rparr>) [Put [0xab, 0xcd] [8], Del [0xab]] (trie_mut_at mdb_new [1]) =
      Some (Ok [None, Some [7]], s')"
proof -
  let ?D = "(memory_ops id)\<lparr>hs_get := \<lambda>m k. if k = [1] then Some leaf_node else mdb_get m k, hs_contains := \<lambda>m k. True\<rparr>"
  have "[1] \<noteq> BLAKE2B_NULL_RLP" by (simp add: BLAKE2B_NULL_RLP_def)
  then show ?thesis
    using trie_mut_existing_is_map [of ?D mdb_new "[1]" "trie_mut_at mdb_new [1]" leaf_node "PLeaf (nibbles [0xab]) [7]"
        "[[0xab] \<mapsto> [7]]" "[Put [0xab, 0xcd] [8], Del [0xab]]"]
      leaf_trie_rep(1) single_leaf_keys [of "[0xab]" "[7]"] nibbles_less [of _ "[0xab]"]
    by (auto simp: trie_mut_from_existing_def simp del: nibbles.simps mut_run.simps)
qed

text \<open>C20. The shape of the storage after any sequence of updates: the free list has no duplicates,
  stays inside the vector of nodes and is disjoint from the slots \<open>F\<close> that the trie under the root
  handle owns, each slot once; the trie is canonical (no branch with fewer than two entries, no
  extension above anything but a branch), so \<open>fix\<close> has restored the form after every removal; and
  the death row holds only hashes that the store had.\<close>

theorem trie_mut_keeps_form:
  assumes "hs_get D db BLAKE2B_NULL_RLP = Some NULL_RLP"
  shows "\<exists>s t F. mut_run D ops (trie_mut_new db) = Some (Ok (kv_olds ops Map.empty), s) \<and> canon t \<and>
    distinct (st_free (tm_storage s)) \<and> set (st_free (tm_storage s)) \<subseteq> {..<length (st_nodes (tm_storage s))} \<and>
    F \<inter> set (st_free (tm_storage s)) = {} \<and>
    handle_rep null_at (st_nodes (tm_storage s)) (tm_root_handle s) t F \<and> tm_death_row s \<subseteq> dom (hs_get D db)"
proof -
  obtain s where s: "mut_run D ops (trie_mut_new db) = Some (Ok (kv_olds ops Map.empty), s)"
    "tm_death_row s \<subseteq> dom (hs_get D db)" "map_rep D null_at (fold kv_step ops Map.empty) s"
    by (rule run_new [OF assms])
  then obtain t F where "trie_rep D null_at t s" "F \<subseteq> live (tm_storage s)"
    "handle_rep null_at (st_nodes (tm_storage s)) (tm_root_handle s) t F"
    by (auto simp: map_rep_def trie_rep_def handle_def)
  then show ?thesis
    using s(1,2) by (intro exI [of _ s] exI [of _ t] exI [of _ F]) (auto simp: trie_rep_def st_ok_def live_def)
qed

theorem trie_mut_keeps_form_witness:
  "\<exists>s t F. mut_run (memory_ops id) [Put [1] [2], Put [1, 2] [3], Del [1]] (trie_mut_new mdb_new) =
      Some (Ok [None, None, Some [2]], s) \<and> canon t \<and>
    handle_rep null_at (st_nodes (tm_storage s)) (tm_root_handle s) t F"
  using trie_mut_keeps_form [of "memory_ops id" mdb_new "[Put [1] [2], Put [1, 2] [3], Del [1]]"]
  by (auto simp del: mut_run.simps)

end
