(* ===== verification/Trie_Commit.thy ===== *)
theory Trie_Commit
  imports Trie_Mut_Map
begin

text \<open>
  \<open>commit\<close> of \<open>patricia_trie/src/triedbmut.rs\<close>: the nodes in memory are written to the store and
  their slots given back; the root is the hash of the node at the root.

  \<open>pt_node hash t\<close> is the canonical encoding of a trie: a node is a list of its parts, and a node
  of 32 bytes or more is in its parent as its hash (\<open>pt_ref\<close>).  It is what \<open>into_rlp\<close> and
  \<open>commit_node\<close> write for the trie a handle stands for, whichever nodes were loaded, created or
  left in the store before.
\<close>

section \<open>The canonical encoding of a trie\<close>

definition node_ref :: "(bytes \<Rightarrow> bytes) \<Rightarrow> bytes \<Rightarrow> bytes" where
  "node_ref hash e = (if 32 \<le> length e then code_enc (RData (hash e)) else e)"

definition own_bytes :: "bytes \<Rightarrow> bytes list" where
  "own_bytes e = (if 32 \<le> length e then [e] else [])"

definition value_part :: "bytes option \<Rightarrow> bytes" where
  "value_part v = (case v of Some v \<Rightarrow> code_enc (RData v) | None \<Rightarrow> [0x80])"

fun pt_node :: "(bytes \<Rightarrow> bytes) \<Rightarrow> ptrie \<Rightarrow> bytes" where
  "pt_node hash PEmpty = [0x80]"
| "pt_node hash (PLeaf k v) = enc_parts [code_enc (RData (hex_prefix k True)), code_enc (RData v)]"
| "pt_node hash (PExt k t) =
     enc_parts [code_enc (RData (hex_prefix k False)), node_ref hash (pt_node hash t)]"
| "pt_node hash (PBranch ts v) = enc_parts (map (\<lambda>t. node_ref hash (pt_node hash t)) ts @ [value_part v])"

text \<open>The values written to the store, children before parents; \<open>pt_below\<close> leaves the node itself out.\<close>

fun pt_below :: "(bytes \<Rightarrow> bytes) \<Rightarrow> ptrie \<Rightarrow> bytes list" where
  "pt_below hash PEmpty = []"
| "pt_below hash (PLeaf k v) = []"
| "pt_below hash (PExt k t) = pt_below hash t @ own_bytes (pt_node hash t)"
| "pt_below hash (PBranch ts v) = concat (map (\<lambda>t. pt_below hash t @ own_bytes (pt_node hash t)) ts)"

declare code_enc.simps [simp del]

section \<open>What a commit relies on\<close>

text \<open>A hash the trie meets below its root is that of a node of 32 bytes or more.\<close>

locale canonical_source = node_source get ok
  for get :: "bytes \<Rightarrow> bytes option" and ok :: "bytes \<Rightarrow> ptrie \<Rightarrow> bool" +
  fixes hash :: "bytes \<Rightarrow> bytes"
  assumes canonical: "ok h t \<Longrightarrow> t \<noteq> PEmpty \<Longrightarrow> h = hash (pt_node hash t) \<and> 32 \<le> length (pt_node hash t)"
    and empty_hash: "ok h PEmpty \<Longrightarrow> h = BLAKE2B_NULL_RLP"

definition insert_all :: "'db hash_store_ops \<Rightarrow> bytes list \<Rightarrow> 'db \<Rightarrow> 'db" where
  "insert_all D vals db = fold (\<lambda>v db. snd (hs_insert D db v)) vals db"

definition hash_law :: "'db hash_store_ops \<Rightarrow> (bytes \<Rightarrow> bytes) \<Rightarrow> bool" where
  "hash_law D hash \<longleftrightarrow> (\<forall>db v. fst (hs_insert D db v) = hash v)"

text \<open>What committing the node a handle owns does to the rest of the state.\<close>

definition committed :: "'db hash_store_ops \<Rightarrow> 'db trie_mut \<Rightarrow> nat set \<Rightarrow> bytes list \<Rightarrow> 'db trie_mut \<Rightarrow> bool" where
  "committed D s F vals s' \<longleftrightarrow>
     step F (tm_storage s) {} (tm_storage s') \<and> tm_db s' = insert_all D vals (tm_db s) \<and>
     tm_death_row s' = tm_death_row s"

lemma committed_trans:
  assumes "committed D s F vals s'" and "committed D s' G vals' s''" and "F \<inter> G = {}" and "G \<subseteq> live (tm_storage s)"
  shows "committed D s (F \<union> G) (vals @ vals') s''"
proof -
  have "step (F \<union> G) (tm_storage s) ({} \<union> G) (tm_storage s')"
    using step_frame(1) [of F "tm_storage s" "{}" "tm_storage s'" G] assms by (simp add: committed_def)
  then have "step (F \<union> G) (tm_storage s) {} (tm_storage s'')"
    using assms(2) step_trans by (auto simp: committed_def)
  then show ?thesis using assms by (simp add: committed_def insert_all_def)
qed

lemma committed_refl: "st_ok (tm_storage s) \<Longrightarrow> committed D s {} [] s"
  by (simp add: committed_def insert_all_def step_refl)

section \<open>Writing a node\<close>

text \<open>The callback of \<open>into_rlp\<close> appends one item and changes the state whatever the stream.\<close>

definition appends :: "(rlp_stream \<Rightarrow> 's \<Rightarrow> (rlp_stream \<times> 's) option) \<Rightarrow> 's \<Rightarrow> bytes \<Rightarrow> 's \<Rightarrow> bool" where
  "appends cb s e s' \<longleftrightarrow>
     (\<exists>f. pushes f e \<and> (\<forall>stream. cb stream s = map_option (\<lambda>stream. (stream, s')) (f stream)))"

lemma appendsE:
  assumes "appends cb s e s'"
  obtains f where "pushes f e" and "\<And>stream. cb stream s = map_option (\<lambda>stream. (stream, s')) (f stream)"
  using assms unfolding appends_def by blast

lemma drain_list:
  assumes "list_all2 pushes fs es" and "es \<noteq> []"
  shows "Option.bind (new_list (length es)) (\<lambda>s. Option.bind (run_each fs s) drain) = Some (enc_parts es)"
  using encoded_list [OF assms refl] unfolding enc_parts_def out_def drain_def .

lemma into_rlp_Leaf: "into_rlp (MLeaf k v) cb s = Some (enc_parts [code_enc (RData k), code_enc (RData v)], s)"
proof -
  have "list_all2 pushes [append_with (rlp_append_bytes k), append_with (rlp_append_bytes v)]
      [code_enc (RData k), code_enc (RData v)]" by simp
  from drain_list [OF this] show ?thesis
    by (simp add: into_rlp_def numeral_2_eq_2 bind_eq_Some_conv)
qed

lemma into_rlp_Extension:
  assumes "appends (cb h) s e s'"
  shows "into_rlp (MExtension k h) cb s = Some (enc_parts [code_enc (RData k), e], s')"
proof -
  obtain f where f: "pushes f e" "\<And>stream. cb h stream s = map_option (\<lambda>stream. (stream, s')) (f stream)"
    using assms by (rule appendsE) blast
  have "list_all2 pushes [append_with (rlp_append_bytes k), f] [code_enc (RData k), e]" using f(1) by simp
  from drain_list [OF this] show ?thesis
    by (simp add: into_rlp_def f(2) numeral_2_eq_2 bind_eq_Some_conv)
qed

definition appends_list ::
  "(node_handle \<Rightarrow> rlp_stream \<Rightarrow> 's \<Rightarrow> (rlp_stream \<times> 's) option) \<Rightarrow> node_handle option list \<Rightarrow> 's \<Rightarrow> bytes list \<Rightarrow> 's \<Rightarrow> bool" where
  "appends_list cb hs s es s' \<longleftrightarrow>
     (\<exists>fs. list_all2 pushes fs es \<and>
       (\<forall>stream. children_rlp cb hs stream s = map_option (\<lambda>stream. (stream, s')) (run_each fs stream)))"

lemma appends_list_Nil: "appends_list cb [] s [] s"
  unfolding appends_list_def by (rule exI [of _ "[]"]) simp

lemma appends_list_None:
  assumes "appends_list cb hs s es s'"
  shows "appends_list cb (None # hs) s ([0x80] # es) s'"
proof -
  obtain fs where fs: "list_all2 pushes fs es"
    "\<And>stream. children_rlp cb hs stream s = map_option (\<lambda>stream. (stream, s')) (run_each fs stream)"
    using assms unfolding appends_list_def by blast
  have "children_rlp cb (None # hs) stream s =
      map_option (\<lambda>stream. (stream, s')) (run_each (append_empty_data # fs) stream)" for stream
    by (cases "append_empty_data stream") (simp_all add: fs(2))
  then show ?thesis
    unfolding appends_list_def using fs(1) by (intro exI [of _ "append_empty_data # fs"]) simp
qed

lemma appends_list_Some:
  assumes "appends (cb h) s e s'" and "appends_list cb hs s' es s''"
  shows "appends_list cb (Some h # hs) s (e # es) s''"
proof -
  obtain f where f: "pushes f e" "\<And>stream. cb h stream s = map_option (\<lambda>stream. (stream, s')) (f stream)"
    using assms(1) by (rule appendsE) blast
  obtain fs where fs: "list_all2 pushes fs es"
    "\<And>stream. children_rlp cb hs stream s' = map_option (\<lambda>stream. (stream, s'')) (run_each fs stream)"
    using assms(2) unfolding appends_list_def by blast
  have "children_rlp cb (Some h # hs) stream s =
      map_option (\<lambda>stream. (stream, s'')) (run_each (f # fs) stream)" for stream
    by (cases "f stream") (simp_all add: f(2) fs(2))
  then show ?thesis
    unfolding appends_list_def using fs(1) f(1) by (intro exI [of _ "f # fs"]) simp
qed

lemma into_rlp_Branch:
  assumes "appends_list cb hs s es s'" and "length es = 16"
  shows "into_rlp (MBranch hs v) cb s = Some (enc_parts (es @ [value_part v]), s')"
proof -
  obtain fs where fs: "list_all2 pushes fs es"
    "\<And>stream. children_rlp cb hs stream s = map_option (\<lambda>stream. (stream, s')) (run_each fs stream)"
    using assms(1) unfolding appends_list_def by blast
  let ?f = "case v of Some v \<Rightarrow> append_with (rlp_append_bytes v) | None \<Rightarrow> append_empty_data"
  have "pushes ?f (value_part v)" by (simp add: value_part_def split: option.split)
  then have "list_all2 pushes (fs @ [?f]) (es @ [value_part v])" using fs(1) by (intro list_all2_appendI) simp_all
  from drain_list [OF this] show ?thesis
    using assms(2)
    by (cases v) (auto simp: into_rlp_def fs(2) run_each_append bind_eq_Some_conv)
qed

lemma into_rlp_Empty: "into_rlp MEmpty cb s = Some ([0x80], s)"
  using node_encoded_Empty by (auto simp: into_rlp_def out_def drain_def bind_eq_Some_conv split: if_splits)

section \<open>Committing a node\<close>

lemma commit_node_cases:
  "commit_node D (Hash h) stream s = map_option (\<lambda>stream. (stream, s)) (append_with (rlp_append_hash h) stream)"
  "st_destroy i (tm_storage s) = Some (Cached n h, st) \<Longrightarrow> commit_node D (InMemory i) stream s =
     map_option (\<lambda>stream. (stream, s\<lparr>tm_storage := st\<rparr>)) (append_with (rlp_append_hash h) stream)"
  "st_destroy i (tm_storage s) = Some (New n, st) \<Longrightarrow> commit_node D (InMemory i) stream s =
     Option.bind (into_rlp n (commit_node D) (s\<lparr>tm_storage := st\<rparr>))
       (\<lambda>(node_rlp, s).
          if 32 \<le> length node_rlp then
            (case hs_insert D (tm_db s) node_rlp of (hash, db) \<Rightarrow>
               map_option (\<lambda>stream. (stream, s\<lparr>tm_db := db, tm_hash_count := tm_hash_count s + 1\<rparr>))
                 (append_with (rlp_append_hash hash) stream))
          else map_option (\<lambda>stream. (stream, s)) (append_raw stream node_rlp 1))"
  by (subst commit_node.simps, simp)+

lemma appends_hash: "(\<And>stream. cb stream s = map_option (\<lambda>stream. (stream, s')) (append_with (rlp_append_hash h) stream)) \<Longrightarrow>
    appends cb s (code_enc (RData h)) s'"
  unfolding appends_def by (intro exI [of _ "append_with (rlp_append_hash h)"]) (simp add: pushes_item)

text \<open>The state has the slots \<open>F\<close> as they were in \<open>nodes\<close>.\<close>

definition holds_slots :: "stored list \<Rightarrow> nat set \<Rightarrow> 'db trie_mut \<Rightarrow> bool" where
  "holds_slots nodes F s \<longleftrightarrow>
     st_ok (tm_storage s) \<and> F \<subseteq> live (tm_storage s) \<and> length nodes \<le> length (st_nodes (tm_storage s)) \<and>
     (\<forall>i \<in> F. st_nodes (tm_storage s) ! i = nodes ! i)"

lemma holds_slots_after:
  assumes "committed D s F vals s'" and "holds_slots nodes (F \<union> G) s" and "F \<inter> G = {}"
  shows "holds_slots nodes G s'"
proof -
  have st: "step F (tm_storage s) {} (tm_storage s')" using assms(1) by (simp add: committed_def)
  have G: "G \<subseteq> live (tm_storage s)" using assms(2) by (simp add: holds_slots_def)
  have "G \<subseteq> live (tm_storage s')" using stepD(2) [OF step_frame(1) [OF st G assms(3)]] by simp
  then show ?thesis
    using assms(2) step_frame(3) [OF st G assms(3)] stepD(1,3) [OF st] by (auto simp: holds_slots_def)
qed

lemma committed_more: "committed D s F vals s' \<Longrightarrow> committed D s (F \<union> G) vals s'"
  by (auto simp: committed_def step_def)

lemma committed_destroy:
  assumes "holds_slots nodes (insert i F) s" and "i \<notin> F"
  shows "\<exists>st. st_destroy i (tm_storage s) = Some (nodes ! i, st) \<and> committed D s {i} [] (s\<lparr>tm_storage := st\<rparr>) \<and>
    holds_slots nodes F (s\<lparr>tm_storage := st\<rparr>)"
proof -
  have s: "st_ok (tm_storage s)" "i \<in> live (tm_storage s)" "st_nodes (tm_storage s) ! i = nodes ! i"
    using assms(1) by (simp_all add: holds_slots_def)
  obtain st where st: "st_destroy i (tm_storage s) = Some (st_nodes (tm_storage s) ! i, st)" "step {i} (tm_storage s) {} st"
    using destroy_step [OF s(1,2)] by blast
  then have "committed D s {i} [] (s\<lparr>tm_storage := st\<rparr>)" by (simp add: committed_def insert_all_def)
  moreover from this have "holds_slots nodes F (s\<lparr>tm_storage := st\<rparr>)"
    using holds_slots_after assms by (metis Int_insert_left_if0 inf_bot_left insert_is_Un)
  ultimately show ?thesis using st s(3) by metis
qed

context canonical_source
begin

lemma commit_rep:
  assumes law: "hash_law D hash"
  shows "handle_rep ok nodes h t F \<Longrightarrow> t \<noteq> PEmpty \<Longrightarrow> canon t \<Longrightarrow> (\<And>s. holds_slots nodes F s \<Longrightarrow>
      \<exists>s' vals. appends (commit_node D h) s (node_ref hash (pt_node hash t)) s' \<and> committed D s F vals s' \<and>
        ((\<forall>h u. ok h u \<longrightarrow> u = PEmpty) \<longrightarrow> vals = pt_below hash t @ own_bytes (pt_node hash t)))"
    and "body_rep ok nodes n t F \<Longrightarrow> canon t \<Longrightarrow> (\<And>s. holds_slots nodes F s \<Longrightarrow>
      \<exists>s' vals. into_rlp n (commit_node D) s = Some (pt_node hash t, s') \<and> committed D s F vals s' \<and>
        ((\<forall>h u. ok h u \<longrightarrow> u = PEmpty) \<longrightarrow> vals = pt_below hash t))"
    and "children_rep ok nodes hs ts F \<Longrightarrow> \<forall>t \<in> set ts. canon t \<Longrightarrow> (\<And>s. holds_slots nodes F s \<Longrightarrow>
      \<exists>s' vals. appends_list (commit_node D) hs s (map (\<lambda>t. node_ref hash (pt_node hash t)) ts) s' \<and>
        committed D s F vals s' \<and>
        ((\<forall>h u. ok h u \<longrightarrow> u = PEmpty) \<longrightarrow>
           vals = concat (map (\<lambda>t. pt_below hash t @ own_bytes (pt_node hash t)) ts)))"
proof (induction rule: handle_rep_body_rep_children_rep.inducts)
  case (H_Hash h t)
  have "appends (commit_node D (Hash h)) s (node_ref hash (pt_node hash t)) s"
    using canonical [OF H_Hash(1,2)] by (auto simp: node_ref_def commit_node_cases intro!: appends_hash)
  then show ?case
    using H_Hash committed_refl [of s D] by (intro exI [of _ s] exI [of _ "[]"]) (auto simp: holds_slots_def)
next
  case (H_Mem i t F)
  obtain st where st: "st_destroy i (tm_storage s) = Some (nodes ! i, st)" "committed D s {i} [] (s\<lparr>tm_storage := st\<rparr>)"
    "holds_slots nodes F (s\<lparr>tm_storage := st\<rparr>)"
    using committed_destroy [OF H_Mem.prems(3)] \<open>i \<notin> F\<close> by blast
  let ?s = "s\<lparr>tm_storage := st\<rparr>" and ?e = "pt_node hash t"
  show ?case
  proof (cases "nodes ! i")
    case (Cached n h)
    then have ok: "ok h t" using \<open>stored_ok ok (nodes ! i) t\<close> by (simp add: stored_ok_def)
    have "appends (commit_node D (InMemory i)) s (node_ref hash ?e) ?s"
      using canonical [OF ok H_Mem.prems(1)] commit_node_cases(2) [OF st(1) [unfolded Cached]]
      by (auto simp: node_ref_def intro!: appends_hash)
    moreover have "committed D s (insert i F) [] ?s" using committed_more [OF st(2), of F] by simp
    ultimately show ?thesis using ok H_Mem.prems(1) by blast
  next
    case (New n)
    obtain s2 vals where s2: "into_rlp n (commit_node D) ?s = Some (?e, s2)" "committed D ?s F vals s2"
      "(\<forall>h u. ok h u \<longrightarrow> u = PEmpty) \<longrightarrow> vals = pt_below hash t"
      using H_Mem.IH(3) [OF H_Mem.prems(2) st(3)] New by auto
    have F: "F \<subseteq> live (tm_storage s)" using H_Mem.prems(3) by (simp add: holds_slots_def)
    have fin: "committed D s (insert i F) vals s2"
      using committed_trans [OF st(2) s2(2) _ F] \<open>i \<notin> F\<close> by simp
    note run = commit_node_cases(3) [OF st(1) [unfolded New], of D, unfolded s2(1) Option.bind.simps prod.case]
    show ?thesis
    proof (cases "32 \<le> length ?e")
      case True
      obtain db where db: "hs_insert D (tm_db s2) ?e = (hash ?e, db)"
        using law unfolding hash_law_def by (metis prod.collapse)
      let ?s3 = "s2\<lparr>tm_db := db, tm_hash_count := tm_hash_count s2 + 1\<rparr>"
      have "appends (commit_node D (InMemory i)) s (node_ref hash ?e) ?s3"
        using True db run by (auto simp: node_ref_def intro!: appends_hash)
      moreover have "committed D s (insert i F) (vals @ own_bytes ?e) ?s3"
        using fin db True by (simp add: committed_def insert_all_def own_bytes_def)
      ultimately show ?thesis using s2(3) by blast
    next
      case False
      then have "appends (commit_node D (InMemory i)) s (node_ref hash ?e) s2"
        unfolding appends_def using run pushes_raw by (intro exI [of _ "\<lambda>stream. append_raw stream ?e 1"]) (auto simp: node_ref_def)
      moreover have "own_bytes ?e = []" using False by (simp add: own_bytes_def)
      ultimately show ?thesis using fin s2(3) by auto
    qed
  qed
next
  case B_Empty
  then show ?case using committed_refl [of s D] into_rlp_Empty [of "commit_node D" s] by (auto simp: holds_slots_def)
next
  case (B_Leaf ns v)
  then show ?case using committed_refl [of s D] into_rlp_Leaf [of _ _ "commit_node D" s] by (auto simp: holds_slots_def)
next
  case (B_Ext ns h t F)
  have t: "t \<noteq> PEmpty" "canon t" using B_Ext.prems(1) by auto
  have written: "into_rlp (MExtension (hex_prefix ns False) h) (commit_node D) s = Some (pt_node hash (PExt ns t), s')"
    if "appends (commit_node D h) s (node_ref hash (pt_node hash t)) s'" for s'
    using into_rlp_Extension [of "commit_node D", OF that] by simp
  from B_Ext.IH(2) [OF t B_Ext.prems(2)] show ?case using written unfolding pt_below.simps by blast
next
  case (B_Branch hs ts F v)
  have "length ts = 16" using children_length [OF B_Branch.IH(1)] B_Branch.hyps by simp
  then have written: "into_rlp (MBranch hs v) (commit_node D) s = Some (pt_node hash (PBranch ts v), s')"
    if "appends_list (commit_node D) hs s (map (\<lambda>t. node_ref hash (pt_node hash t)) ts) s'" for s'
    using into_rlp_Branch [OF that] by simp
  have "\<forall>t \<in> set ts. canon t" using B_Branch.prems(1) by simp
  from B_Branch.IH(2) [OF this B_Branch.prems(2)] show ?case using written unfolding pt_below.simps by blast
next
  case C_Nil
  then show ?case
    using committed_refl [of s D] appends_list_Nil [of "commit_node D" s]
    by (intro exI [of _ s] exI [of _ "[]"]) (auto simp: holds_slots_def)
next
  case (C_None hs ts G)
  have "\<forall>t \<in> set ts. canon t" using C_None.prems(1) by simp
  from C_None.IH(2) [OF this C_None.prems(2)] show ?case
    using appends_list_None by (fastforce simp: node_ref_def own_bytes_def)
next
  case (C_Some h t F hs ts G)
  have t: "canon t" "\<forall>t \<in> set ts. canon t" using C_Some.prems(1) by simp_all
  have F: "holds_slots nodes F s" and G: "G \<subseteq> live (tm_storage s)"
    using C_Some.prems(2) by (auto simp: holds_slots_def)
  obtain s1 vals where s1: "appends (commit_node D h) s (node_ref hash (pt_node hash t)) s1"
    "committed D s F vals s1"
    "(\<forall>h u. ok h u \<longrightarrow> u = PEmpty) \<longrightarrow> vals = pt_below hash t @ own_bytes (pt_node hash t)"
    using C_Some.IH(2) [OF \<open>t \<noteq> PEmpty\<close> t(1) F] by blast
  note G1 = holds_slots_after [OF s1(2) C_Some.prems(2) \<open>F \<inter> G = {}\<close>]
  obtain s2 vals' where s2: "appends_list (commit_node D) hs s1 (map (\<lambda>t. node_ref hash (pt_node hash t)) ts) s2"
    "committed D s1 G vals' s2"
    "(\<forall>h u. ok h u \<longrightarrow> u = PEmpty) \<longrightarrow> vals' = concat (map (\<lambda>t. pt_below hash t @ own_bytes (pt_node hash t)) ts)"
    using C_Some.IH(4) [OF t(2) G1] by blast
  show ?case
    using appends_list_Some [OF s1(1) s2(1)] committed_trans [OF s1(2) s2(2) \<open>F \<inter> G = {}\<close> G] s1(3) s2(3)
    by (intro exI [of _ s2] exI [of _ "vals @ vals'"]) auto
qed

end

interpretation mdb_canonical: canonical_source "mdb_get m" null_at hash for m :: memory_db and hash
  by unfold_locales (auto simp: null_at_def)

section \<open>Committing the trie\<close>

text \<open>The store once the death row is gone.\<close>

definition buried :: "'db hash_store_ops \<Rightarrow> bytes list \<Rightarrow> 'db \<Rightarrow> 'db" where
  "buried D dead db = fold (\<lambda>hash db. hs_remove D db hash) dead db"

context canonical_source
begin

lemma commit_trie_rep:
  assumes rep: "trie_rep D ok t s" and law: "hash_law D hash" and null: "hash NULL_RLP = BLAKE2B_NULL_RLP"
  shows "\<exists>s' vals. trie_mut_commit D dead s = Some s' \<and> tm_root s' = hash (pt_node hash t) \<and>
    tm_db s' = insert_all D vals (buried D dead (tm_db s)) \<and> tm_death_row s' = {} \<and> st_ok (tm_storage s') \<and>
    (t \<noteq> PEmpty \<longrightarrow> (\<forall>h u. ok h u \<longrightarrow> u = PEmpty) \<longrightarrow>
       vals = pt_below hash t @ [pt_node hash t] \<and> tm_root_handle s' = Hash (tm_root s')) \<and>
    (t = PEmpty \<longrightarrow> (\<forall>h u. ok h u \<longrightarrow> u = PEmpty) \<longrightarrow> set vals \<subseteq> {NULL_RLP})"
proof -
  let ?s = "s\<lparr>tm_db := buried D dead (tm_db s), tm_death_row := {}\<rparr>"
  have commit: "trie_mut_commit D dead s =
      (case tm_root_handle s of
        Hash _ \<Rightarrow> Some ?s
      | InMemory h \<Rightarrow>
          Option.bind (st_destroy h (tm_storage s)) (\<lambda>(x, st).
            let s = ?s\<lparr>tm_storage := st\<rparr> in
            case x of
              New node \<Rightarrow>
                Option.bind (into_rlp node (commit_node D) s) (\<lambda>(root_rlp, s).
                  case hs_insert D (tm_db s) root_rlp of (root, db) \<Rightarrow>
                    Some (s\<lparr>tm_db := db, tm_root := root, tm_hash_count := tm_hash_count s + 1,
                            tm_root_handle := Hash root\<rparr>))
            | Cached node hash \<Rightarrow>
                map_option (\<lambda>(h, st). s\<lparr>tm_root := hash, tm_root_handle := InMemory h, tm_storage := st\<rparr>)
                  (st_alloc (Cached node hash) (tm_storage s))))"
    by (simp add: trie_mut_commit_def buried_def Let_def split: node_handle.split)
  have st: "st_ok (tm_storage s)" and canon: "canon t" using rep by (simp_all add: trie_rep_def)
  have known: "h = hash (pt_node hash t)" if "ok h t" for h
    using canonical [OF that] empty_hash [of h] that null by (cases "t = PEmpty") (auto simp: NULL_RLP_def)
  show ?thesis
  proof (cases "tm_root_handle s")
    case (Hash h)
    then have "ok h t" "tm_root s = h"
      using rep by (auto simp: trie_rep_def handle_def elim: handle_HashE)
    then show ?thesis
      using Hash st known [of h] by (intro exI [of _ ?s] exI [of _ "[]"]) (auto simp: commit insert_all_def)
  next
    case (InMemory i)
    obtain F where F: "F \<subseteq> live (tm_storage s)" "handle_rep ok (st_nodes (tm_storage s)) (InMemory i) t F"
      using rep InMemory by (auto simp: trie_rep_def handle_def)
    obtain G where G: "F = insert i G" "body_rep ok (st_nodes (tm_storage s)) (stored_node (st_nodes (tm_storage s) ! i)) t G"
      "i \<notin> G" "stored_ok ok (st_nodes (tm_storage s) ! i) t"
      using F(2) by (rule handle_MemE) blast
    have "holds_slots (st_nodes (tm_storage s)) (insert i G) ?s"
      using st F(1) G(1) by (simp add: holds_slots_def)
    from committed_destroy [OF this G(3), of D] obtain st' where
      st': "st_destroy i (tm_storage s) = Some (st_nodes (tm_storage s) ! i, st')"
        "committed D ?s {i} [] (?s\<lparr>tm_storage := st'\<rparr>)"
        "holds_slots (st_nodes (tm_storage s)) G (?s\<lparr>tm_storage := st'\<rparr>)" by auto
    show ?thesis
    proof (cases "st_nodes (tm_storage s) ! i")
      case (Cached n h)
      then have ok: "ok h t" using G(4) by (simp add: stored_ok_def)
      have ok': "st_ok st'" using st'(3) by (simp add: holds_slots_def)
      obtain j st'' where alloc: "st_alloc (Cached n h) st' = Some (j, st'')" "step {} st' {j} st''"
        using alloc_step [OF ok'] by blast
      let ?s' = "?s\<lparr>tm_root := h, tm_root_handle := InMemory j, tm_storage := st''\<rparr>"
      have "trie_mut_commit D dead s = Some ?s'" using commit InMemory st'(1) alloc(1) Cached by simp
      then show ?thesis
        using known [OF ok] stepD(1) [OF alloc(2)] ok
        by (intro exI [of _ ?s'] exI [of _ "[]"]) (auto simp: insert_all_def)
    next
      case (New n)
      obtain s2 vals where s2: "into_rlp n (commit_node D) (?s\<lparr>tm_storage := st'\<rparr>) = Some (pt_node hash t, s2)"
        "committed D (?s\<lparr>tm_storage := st'\<rparr>) G vals s2" "(\<forall>h u. ok h u \<longrightarrow> u = PEmpty) \<longrightarrow> vals = pt_below hash t"
        using commit_rep(2) [OF law G(2) canon st'(3)] New by auto
      obtain db where db: "hs_insert D (tm_db s2) (pt_node hash t) = (hash (pt_node hash t), db)"
        using law unfolding hash_law_def by (metis prod.collapse)
      let ?s' = "s2\<lparr>tm_db := db, tm_root := hash (pt_node hash t), tm_hash_count := tm_hash_count s2 + 1,
                  tm_root_handle := Hash (hash (pt_node hash t))\<rparr>"
      have "trie_mut_commit D dead s = Some ?s'" using commit InMemory st'(1) New s2(1) db by simp
      moreover have "tm_db ?s' = insert_all D (vals @ [pt_node hash t]) (buried D dead (tm_db s))"
        using s2(2) db by (simp add: committed_def insert_all_def)
      moreover have "st_ok (tm_storage ?s')" using s2(2) stepD(1) by (auto simp: committed_def)
      moreover have "tm_death_row ?s' = {}" using s2(2) by (simp add: committed_def)
      ultimately show ?thesis
        using s2(3) by (intro exI [of _ ?s'] exI [of _ "vals @ [pt_node hash t]"]) (auto simp: NULL_RLP_def)
    qed
  qed
qed

end

section \<open>Properties\<close>

lemma commit_run_new:
  assumes null_get: "hs_get D db BLAKE2B_NULL_RLP = Some NULL_RLP" and law: "hash_law D hash"
    and null: "hash NULL_RLP = BLAKE2B_NULL_RLP" and t: "canon t" "pt_lookup t = of_keys (fold kv_step ops Map.empty)"
  obtains s where "mut_run D ops (trie_mut_new db) = Some (Ok (kv_olds ops Map.empty), s)"
    and "tm_death_row s \<subseteq> dom (hs_get D db)"
    and "\<And>dead. \<exists>s'. trie_mut_root D dead s = Some (hash (pt_node hash t), s') \<and> tm_death_row s' = {} \<and>
      (t \<noteq> PEmpty \<longrightarrow> tm_db s' = insert_all D (pt_below hash t @ [pt_node hash t]) (buried D dead db)) \<and>
      (t = PEmpty \<longrightarrow> (\<exists>vals. set vals \<subseteq> {NULL_RLP} \<and> tm_db s' = insert_all D vals (buried D dead db)))"
proof -
  obtain s where s: "mut_run D ops (trie_mut_new db) = Some (Ok (kv_olds ops Map.empty), s)" "tm_db s = db"
    "tm_death_row s \<subseteq> dom (hs_get D db)" "map_rep D null_at (fold kv_step ops Map.empty) s"
    by (rule run_new [OF null_get])
  have rep: "trie_rep D null_at t s"
    using s(4) t canon_determined by (metis map_rep_def trie_rep_def)
  have src: "canonical_source (hs_get D db) null_at hash"
    using null_source [of "hs_get D db", OF null_get]
    by (intro canonical_source.intro canonical_source_axioms.intro) (auto simp: null_at_def)
  have "\<exists>s'. trie_mut_root D dead s = Some (hash (pt_node hash t), s') \<and> tm_death_row s' = {} \<and>
      (t \<noteq> PEmpty \<longrightarrow> tm_db s' = insert_all D (pt_below hash t @ [pt_node hash t]) (buried D dead db)) \<and>
      (t = PEmpty \<longrightarrow> (\<exists>vals. set vals \<subseteq> {NULL_RLP} \<and> tm_db s' = insert_all D vals (buried D dead db)))" for dead
    using canonical_source.commit_trie_rep [OF src rep law null, of dead] s(2)
    by (auto simp: trie_mut_root_def null_at_def)
  then show ?thesis using that s(1,3) by blast
qed

lemma canonical_trie_exists:
  "\<exists>t. canon t \<and> pt_lookup t = of_keys (fold kv_step ops Map.empty)"
proof -
  obtain s where "map_rep (memory_ops id) null_at (fold kv_step ops Map.empty) s"
    using run_new [of "memory_ops id" mdb_new ops] by auto
  then show ?thesis by (auto simp: map_rep_def trie_rep_def)
qed

lemma memory_hash_law: "hash NULL_RLP = BLAKE2B_NULL_RLP \<Longrightarrow> hash_law (memory_ops hash) hash"
  by (simp add: hash_law_def memory_ops_def mdb_insert_def Let_def)

text \<open>C3. The root. After any sequence of updates there is a canonical trie \<open>t\<close> with the pairs of the
  updated map, and \<open>root\<close>, whatever the order in which the death row is drained, returns the hash of
  the encoding \<open>pt_node\<close> of \<open>t\<close>, in which a child whose encoding is shorter than 32 bytes is
  inlined and a longer one is named by its hash; it leaves an empty death row.\<close>

theorem trie_mut_root_canonical:
  assumes "hs_get D db BLAKE2B_NULL_RLP = Some NULL_RLP" and "hash_law D hash"
    and "hash NULL_RLP = BLAKE2B_NULL_RLP"
  shows "\<exists>s t. mut_run D ops (trie_mut_new db) = Some (Ok (kv_olds ops Map.empty), s) \<and>
    canon t \<and> pt_lookup t = of_keys (fold kv_step ops Map.empty) \<and>
    (\<forall>dead. \<exists>s'. trie_mut_root D dead s = Some (hash (pt_node hash t), s') \<and> tm_death_row s' = {})"
proof -
  obtain t where t: "canon t" "pt_lookup t = of_keys (fold kv_step ops Map.empty)"
    using canonical_trie_exists by blast
  show ?thesis by (rule commit_run_new [OF assms t]) (use t in blast)
qed

definition sample_hash :: "bytes \<Rightarrow> bytes" where
  "sample_hash v = (if v = NULL_RLP then BLAKE2B_NULL_RLP else replicate 32 (of_nat (length v)))"

lemma sample_hash_null: "sample_hash NULL_RLP = BLAKE2B_NULL_RLP"
  by (simp add: sample_hash_def)

theorem trie_mut_root_canonical_witness:
  "\<exists>s t. mut_run (memory_ops sample_hash) [Put [1] [2], Put [1] [3]] (trie_mut_new mdb_new) =
      Some (Ok [None, Some [2]], s) \<and> canon t \<and> pt_lookup t = of_keys [[1] \<mapsto> [3]] \<and>
    (\<forall>dead. \<exists>s'. trie_mut_root (memory_ops sample_hash) dead s = Some (sample_hash (pt_node sample_hash t), s') \<and>
      tm_death_row s' = {})"
  using trie_mut_root_canonical [of "memory_ops sample_hash" mdb_new sample_hash "[Put [1] [2], Put [1] [3]]",
      OF _ memory_hash_law [of sample_hash, OF sample_hash_null] sample_hash_null]
  by (simp del: mut_run.simps pt_node.simps)

text \<open>C5. The root depends on the contents alone: two tries, over stores of their own, that reach the
  same map through different sequences of insertions and removals return the same root.\<close>

theorem root_history_independent:
  assumes "hs_get D db1 BLAKE2B_NULL_RLP = Some NULL_RLP" and "hs_get D db2 BLAKE2B_NULL_RLP = Some NULL_RLP"
    and "hash_law D hash" and "hash NULL_RLP = BLAKE2B_NULL_RLP"
    and "fold kv_step ops1 Map.empty = fold kv_step ops2 Map.empty"
  shows "\<exists>s1 s2 root s1' s2'.
    mut_run D ops1 (trie_mut_new db1) = Some (Ok (kv_olds ops1 Map.empty), s1) \<and>
    mut_run D ops2 (trie_mut_new db2) = Some (Ok (kv_olds ops2 Map.empty), s2) \<and>
    trie_mut_root D dead1 s1 = Some (root, s1') \<and> trie_mut_root D dead2 s2 = Some (root, s2')"
proof -
  obtain t where t: "canon t" "pt_lookup t = of_keys (fold kv_step ops1 Map.empty)"
    using canonical_trie_exists by blast
  obtain s1 where 1: "mut_run D ops1 (trie_mut_new db1) = Some (Ok (kv_olds ops1 Map.empty), s1)"
    "\<exists>s'. trie_mut_root D dead1 s1 = Some (hash (pt_node hash t), s')"
    by (rule commit_run_new [OF assms(1,3,4) t]) blast
  obtain s2 where 2: "mut_run D ops2 (trie_mut_new db2) = Some (Ok (kv_olds ops2 Map.empty), s2)"
    "\<exists>s'. trie_mut_root D dead2 s2 = Some (hash (pt_node hash t), s')"
    by (rule commit_run_new [OF assms(2,3,4) t(1) t(2) [unfolded assms(5)]]) blast
  from 1 2 show ?thesis by blast
qed

theorem root_history_independent_witness:
  "\<exists>s1 s2 root s1' s2'.
    mut_run (memory_ops sample_hash) [Put [1] [2], Put [9] [4], Del [9]] (trie_mut_new mdb_new) = Some (Ok [None, None, Some [4]], s1) \<and>
    mut_run (memory_ops sample_hash) [Put [1] [2]] (trie_mut_new mdb_new) = Some (Ok [None], s2) \<and>
    trie_mut_root (memory_ops sample_hash) [] s1 = Some (root, s1') \<and>
    trie_mut_root (memory_ops sample_hash) [] s2 = Some (root, s2')"
  using root_history_independent [of "memory_ops sample_hash" mdb_new mdb_new sample_hash
      "[Put [1] [2], Put [9] [4], Del [9]]" "[Put [1] [2]]" "[]" "[]",
      OF _ _ memory_hash_law [of sample_hash, OF sample_hash_null] sample_hash_null]
  by (auto simp: fun_eq_iff simp del: mut_run.simps)

end
