(* ===== verification/Trie_Iter.thy ===== *)
theory Trie_Iter
  imports Trie_Lookup
begin

text \<open>
  Iterating over a Patricia trie: \<open>TrieDBIterator\<close> of \<open>patricia_trie/src/triedb.rs\<close> and
  \<open>FatDBIterator\<close> of \<open>fatdb.rs\<close>.

  The iterator keeps a trail of crumbs, the nodes from the root to where it stands, each with a
  status, and the nibbles of the path.  \<open>iter_turn\<close> is one turn of the loop of \<open>next\<close>,
  \<open>seek_turn\<close> one of the loop of \<open>seek\<close>; both loops are partial functions, as a cyclic store keeps
  them busy for ever.  \<open>pt_items\<close> lists what a trie holds in the order of its nibbles and
  \<open>pt_after\<close> what an iterator still has to give after a \<open>seek\<close>.
\<close>

section \<open>The iterator\<close>

datatype status = Entering | At | AtChild nat | Exiting

record crumb =
  cr_node :: owned_node
  cr_status :: status

record trie_iter =
  it_trail :: "crumb list"
  it_nibbles :: bytes

fun next_status :: "status \<Rightarrow> owned_node \<Rightarrow> status" where
  "next_status s OwnedEmpty = Exiting"
| "next_status Entering n = At"
| "next_status At (OwnedBranch c v) = AtChild 0"
| "next_status (AtChild x) (OwnedBranch c v) = (if x < 15 then AtChild (x + 1) else Exiting)"
| "next_status s n = Exiting"

definition crumb_increment :: "crumb \<Rightarrow> crumb" where
  "crumb_increment b = b\<lparr>cr_status := next_status (cr_status b) (cr_node b)\<rparr>"

definition push_crumb :: "owned_node \<Rightarrow> status \<Rightarrow> trie_iter \<Rightarrow> trie_iter" where
  "push_crumb n s it = it\<lparr>it_trail := it_trail it @ [\<lparr>cr_node = n, cr_status = s\<rparr>]\<rparr>"

definition extend_nibbles :: "byte list \<Rightarrow> trie_iter \<Rightarrow> trie_iter" where
  "extend_nibbles ns it = it\<lparr>it_nibbles := it_nibbles it @ ns\<rparr>"

text \<open>The nibbles of a vector and of a slice, collected by index; \<open>None\<close> is a panic.\<close>

definition nv_collect :: "nibble_vec \<Rightarrow> byte list option" where
  "nv_collect n = those (map (nv_at n) [0..<nv_len n])"

definition ns_collect :: "nibble_slice \<Rightarrow> byte list option" where
  "ns_collect s = do { l \<leftarrow> ns_len s; those (map (ns_at s) [0..<l]) }"

definition descend_into_node :: "owned_node \<Rightarrow> trie_iter \<Rightarrow> trie_iter option" where
  "descend_into_node n it =
     (let it = push_crumb n Entering it in
      case n of
        OwnedLeaf k v \<Rightarrow> map_option (\<lambda>ns. extend_nibbles ns it) (nv_collect k)
      | OwnedExtension k c \<Rightarrow> map_option (\<lambda>ns. extend_nibbles ns it) (nv_collect k)
      | _ \<Rightarrow> Some it)"

definition owned_decoded :: "bytes \<Rightarrow> owned_node option" where
  "owned_decoded d = do { n \<leftarrow> node_decoded d; owned_from n }"

definition iter_descend :: "trie_db \<Rightarrow> bytes \<Rightarrow> trie_iter \<Rightarrow> (trie_error, unit) outcome \<times> trie_iter" where
  "iter_descend t d it =
     (case get_raw_or_lookup t d of
        Ok raw \<Rightarrow>
          (case do { n \<leftarrow> owned_decoded raw; descend_into_node n it } of
             Some it \<Rightarrow> (Ok (), it) | None \<Rightarrow> (Panic, it))
      | Err e \<Rightarrow> (Err e, it)
      | Panic \<Rightarrow> (Panic, it))"

definition iter_start :: trie_iter where
  "iter_start = \<lparr>it_trail = [], it_nibbles = []\<rparr>"

definition trie_iter_new :: "trie_db \<Rightarrow> (trie_error, trie_iter) outcome" where
  "trie_iter_new t =
     obind (root_data t) (\<lambda>root.
       case iter_descend t root iter_start of
         (Ok _, it) \<Rightarrow> Ok it | (Err e, it) \<Rightarrow> Err e | (Panic, it) \<Rightarrow> Panic)"

text \<open>\<open>key\<close>: the nibbles in pairs; an odd last nibble is dropped.\<close>

definition iter_key :: "trie_iter \<Rightarrow> bytes" where
  "iter_key it = pack (it_nibbles it)"

section \<open>\<open>next\<close>\<close>

datatype iter_step = Finished | Yield bytes bytes | PopTrail | Continue | Descend bytes

definition set_last :: "'a \<Rightarrow> 'a list \<Rightarrow> 'a list option" where
  "set_last x xs = (if xs = [] then None else Some (butlast xs @ [x]))"

definition iter_turn :: "trie_iter \<Rightarrow> (iter_step \<times> trie_iter) option" where
  "iter_turn it =
     (if it_trail it = [] then Some (Finished, it)
      else let b = crumb_increment (last (it_trail it));
               it = it\<lparr>it_trail := butlast (it_trail it) @ [b]\<rparr>;
               nibbles = it_nibbles it
        in case cr_status b of
             Exiting \<Rightarrow>
               (case cr_node b of
                  OwnedLeaf n v \<Rightarrow>
                    do { l \<leftarrow> checked_sub (length nibbles) (nv_len n);
                         Some (PopTrail, it\<lparr>it_nibbles := take l nibbles\<rparr>) }
                | OwnedExtension n c \<Rightarrow>
                    do { l \<leftarrow> checked_sub (length nibbles) (nv_len n);
                         Some (PopTrail, it\<lparr>it_nibbles := take l nibbles\<rparr>) }
                | OwnedBranch c v \<Rightarrow> Some (PopTrail, it\<lparr>it_nibbles := butlast nibbles\<rparr>)
                | OwnedEmpty \<Rightarrow> Some (PopTrail, it))
           | At \<Rightarrow>
               (case cr_node b of
                  OwnedLeaf n v \<Rightarrow> Some (Yield (iter_key it) v, it)
                | OwnedBranch c (Some v) \<Rightarrow> Some (Yield (iter_key it) v, it)
                | OwnedExtension n d \<Rightarrow> Some (Descend d, it)
                | OwnedBranch c None \<Rightarrow> Some (Continue, it)
                | OwnedEmpty \<Rightarrow> None)
           | AtChild i \<Rightarrow>
               (case cr_node b of
                  OwnedBranch children v \<Rightarrow>
                    do { child \<leftarrow> nth_checked children i;
                         if length child > 0 then
                           do { ns \<leftarrow> (if i = 0 then Some (nibbles @ [0])
                                        else set_last (word_of_nat i) nibbles);
                                Some (Descend child, it\<lparr>it_nibbles := ns\<rparr>) }
                         else Some (Continue, if i = 0 then it\<lparr>it_nibbles := nibbles @ [0]\<rparr> else it) }
                | _ \<Rightarrow> None)
           | Entering \<Rightarrow> None)"

definition pop_trail :: "trie_iter \<Rightarrow> trie_iter" where
  "pop_trail it = it\<lparr>it_trail := butlast (it_trail it)\<rparr>"

partial_function (option) trie_iter_next ::
  "trie_db \<Rightarrow> trie_iter \<Rightarrow> ((trie_error, bytes \<times> bytes) outcome option \<times> trie_iter) option" where
  "trie_iter_next t it =
     (case iter_turn it of
        None \<Rightarrow> Some (Some Panic, it)
      | Some (Finished, it) \<Rightarrow> Some (None, it)
      | Some (Yield k v, it) \<Rightarrow> Some (Some (Ok (k, v)), it)
      | Some (PopTrail, it) \<Rightarrow> trie_iter_next t (pop_trail it)
      | Some (Continue, it) \<Rightarrow> trie_iter_next t it
      | Some (Descend d, it) \<Rightarrow>
          (case get_raw_or_lookup t d of
             Ok raw \<Rightarrow>
               (case do { n \<leftarrow> owned_decoded raw; descend_into_node n it } of
                  Some it \<Rightarrow> trie_iter_next t it | None \<Rightarrow> Some (Some Panic, it))
           | Err e \<Rightarrow> Some (Some (Err e), it)
           | Panic \<Rightarrow> Some (Some Panic, it)))"

section \<open>\<open>seek\<close>\<close>

datatype seek_step = Seek_Done | Seek_Descend | Seek_Into bytes nat

definition seek_turn :: "bytes \<Rightarrow> nibble_slice \<Rightarrow> trie_iter \<Rightarrow> (seek_step \<times> trie_iter) option" where
  "seek_turn node_data key it =
     do { node \<leftarrow> node_decoded node_data;
          (case node of
             Leaf part v \<Rightarrow>
               do { eq \<leftarrow> ns_eq part key; n \<leftarrow> owned_from node; ns \<leftarrow> ns_collect part;
                    Some (Seek_Done, extend_nibbles ns (push_crumb n (if eq then At else Exiting) it)) }
           | Extension part item \<Rightarrow>
               do { prefix \<leftarrow> ns_starts_with key part;
                    if prefix then
                      do { n \<leftarrow> owned_from node; ns \<leftarrow> ns_collect part; l \<leftarrow> ns_len part;
                           Some (Seek_Into item l, extend_nibbles ns (push_crumb n At it)) }
                    else Some (Seek_Descend, it) }
           | Branch children v \<Rightarrow>
               do { empty \<leftarrow> ns_is_empty key; n \<leftarrow> owned_from node;
                    if empty then Some (Seek_Done, push_crumb n At it)
                    else do { i \<leftarrow> ns_at key 0;
                              child \<leftarrow> nth_checked children (unat i);
                              Some (Seek_Into child 1, extend_nibbles [i] (push_crumb n (AtChild (unat i)) it)) } }
           | Empty \<Rightarrow> Some (Seek_Done, it)) }"

partial_function (option) iter_seek_from ::
  "trie_db \<Rightarrow> bytes \<Rightarrow> nibble_slice \<Rightarrow> trie_iter \<Rightarrow> ((trie_error, unit) outcome \<times> trie_iter) option" where
  "iter_seek_from t node_data key it =
     (case seek_turn node_data key it of
        None \<Rightarrow> Some (Panic, it)
      | Some (Seek_Done, it) \<Rightarrow> Some (Ok (), it)
      | Some (Seek_Descend, it) \<Rightarrow> Some (iter_descend t node_data it)
      | Some (Seek_Into item mid, it) \<Rightarrow>
          (case get_raw_or_lookup t item of
             Ok data \<Rightarrow> iter_seek_from t data (ns_mid key mid) it
           | Err e \<Rightarrow> Some (Err e, it)
           | Panic \<Rightarrow> Some (Panic, it)))"

definition trie_iter_seek ::
  "trie_db \<Rightarrow> bytes \<Rightarrow> trie_iter \<Rightarrow> ((trie_error, unit) outcome \<times> trie_iter) option" where
  "trie_iter_seek t key it =
     (let it = it\<lparr>it_trail := [], it_nibbles := []\<rparr> in
      case root_data t of
        Ok root_rlp \<Rightarrow> iter_seek_from t root_rlp (ns_new key) it
      | Err e \<Rightarrow> Some (Err e, it)
      | Panic \<Rightarrow> Some (Panic, it))"

section \<open>\<open>FatDBIterator\<close>\<close>

definition fat_iter_seek ::
  "(bytes \<Rightarrow> bytes) \<Rightarrow> trie_db \<Rightarrow> bytes \<Rightarrow> trie_iter \<Rightarrow> ((trie_error, unit) outcome \<times> trie_iter) option" where
  "fat_iter_seek blake t key it = trie_iter_seek t (blake key) it"

definition fat_iter_next ::
  "(bytes \<Rightarrow> bytes) \<Rightarrow> trie_db \<Rightarrow> trie_iter \<Rightarrow>
     ((trie_error, bytes \<times> bytes) outcome option \<times> trie_iter) option" where
  "fat_iter_next blake t it =
     map_option (\<lambda>(r, it).
       (map_option (\<lambda>res. obind res (\<lambda>(hash, v).
          case td_get t (blake hash) of Some k \<Rightarrow> Ok (k, v) | None \<Rightarrow> Panic)) r, it))
       (trie_iter_next t it)"

text \<open>Draining an iterator with \<open>for\<close> or \<open>collect\<close>; a panic ends it.\<close>

partial_function (option) iter_drain ::
  "('it \<Rightarrow> ((trie_error, bytes \<times> bytes) outcome option \<times> 'it) option) \<Rightarrow> 'it \<Rightarrow>
     (trie_error, bytes \<times> bytes) outcome list option" where
  "iter_drain next it =
     do { (r, it) \<leftarrow> next it;
          (case r of
             None \<Rightarrow> Some []
           | Some Panic \<Rightarrow> Some [Panic]
           | Some x \<Rightarrow> do { xs \<leftarrow> iter_drain next it; Some (x # xs) }) }"

section \<open>What a trie holds, in order\<close>

definition under :: "byte list \<Rightarrow> (byte list \<times> bytes) list \<Rightarrow> (byte list \<times> bytes) list" where
  "under k xs = map (\<lambda>(ns, v). (k @ ns, v)) xs"

definition own_value :: "bytes option \<Rightarrow> (byte list \<times> bytes) list" where
  "own_value v = (case v of Some v \<Rightarrow> [([], v)] | None \<Rightarrow> [])"

fun pt_items :: "ptrie \<Rightarrow> (byte list \<times> bytes) list"
  and child_items :: "nat \<Rightarrow> ptrie list \<Rightarrow> (byte list \<times> bytes) list" where
  "pt_items PEmpty = []"
| "pt_items (PLeaf k v) = [(k, v)]"
| "pt_items (PExt k t) = under k (pt_items t)"
| "pt_items (PBranch ts v) = own_value v @ child_items 0 ts"
| "child_items i [] = []"
| "child_items i (t # ts) = under [word_of_nat i] (pt_items t) @ child_items (i + 1) ts"

text \<open>What is left after a \<open>seek\<close>, as the code has it: the leaf it lands on is passed over, whatever
  its key; an extension the key does not follow is gone through from its beginning.\<close>

function pt_after :: "ptrie \<Rightarrow> byte list \<Rightarrow> (byte list \<times> bytes) list" where
  "pt_after PEmpty ns = []"
| "pt_after (PLeaf k v) ns = []"
| "pt_after (PExt k t) ns =
     under k (if take (length k) ns = k then pt_after t (drop (length k) ns) else pt_items t)"
| "pt_after (PBranch ts v) [] = child_items 0 ts"
| "pt_after (PBranch ts v) (x # ns) =
     (if unat x < length ts then under [x] (pt_after (ts ! unat x) ns) else []) @
     child_items (unat x + 1) (drop (unat x + 1) ts)"
  by pat_completeness auto
termination
  by (relation "measure (\<lambda>(t, ns). size t)")
    (auto simp: less_Suc_eq_le intro!: le_SucI size_list_estimation' [OF nth_mem order.refl])

definition yields :: "byte list \<Rightarrow> (byte list \<times> bytes) list \<Rightarrow> (trie_error, bytes \<times> bytes) outcome list" where
  "yields k xs = map (\<lambda>(ns, v). Ok (pack (k @ ns), v)) xs"

lemma yields_simps [simp]:
  "yields k [] = []" "yields k ((ns, v) # xs) = Ok (pack (k @ ns), v) # yields k xs"
  "yields k (xs @ ys) = yields k xs @ yields k ys" "yields k (under l xs) = yields (k @ l) xs"
  by (auto simp: yields_def under_def)

section \<open>One turn at a time\<close>

definition at_iter :: "crumb list \<Rightarrow> bytes \<Rightarrow> trie_iter" where
  "at_iter T K = \<lparr>it_trail = T, it_nibbles = K\<rparr>"

definition drained :: "trie_db \<Rightarrow> crumb list \<Rightarrow> bytes \<Rightarrow> (trie_error, bytes \<times> bytes) outcome list option" where
  "drained t T K = iter_drain (trie_iter_next t) (at_iter T K)"

definition mk_crumb :: "owned_node \<Rightarrow> status \<Rightarrow> crumb" where
  "mk_crumb n s = \<lparr>cr_node = n, cr_status = s\<rparr>"

lemma at_iter_simps [simp]:
  "it_trail (at_iter T K) = T" "it_nibbles (at_iter T K) = K"
  "at_iter T K\<lparr>it_trail := T'\<rparr> = at_iter T' K" "at_iter T K\<lparr>it_nibbles := K'\<rparr> = at_iter T K'"
  "pop_trail (at_iter T K) = at_iter (butlast T) K"
  "push_crumb n s (at_iter T K) = at_iter (T @ [mk_crumb n s]) K"
  "extend_nibbles ns (at_iter T K) = at_iter T (K @ ns)"
  "crumb_increment (mk_crumb n s) = mk_crumb n (next_status s n)"
  "cr_node (mk_crumb n s) = n" "cr_status (mk_crumb n s) = s"
  "iter_key (at_iter T K) = pack K" "at_iter T K = at_iter T' K' \<longleftrightarrow> T = T' \<and> K = K'"
  by (simp_all add: at_iter_def pop_trail_def push_crumb_def extend_nibbles_def crumb_increment_def
      mk_crumb_def iter_key_def)

lemma drain_by_turn:
  "iter_turn (at_iter T K) = Some (PopTrail, at_iter (T' @ [b]) K') \<Longrightarrow> drained t T K = drained t T' K'"
  "iter_turn (at_iter T K) = Some (Continue, at_iter T' K') \<Longrightarrow> drained t T K = drained t T' K'"
  "iter_turn (at_iter T K) = Some (Yield k v, at_iter T' K') \<Longrightarrow>
     drained t T K = map_option ((#) (Ok (k, v))) (drained t T' K')"
  "iter_turn (at_iter T K) = Some (Descend d, at_iter T' K') \<Longrightarrow> get_raw_or_lookup t d = Ok raw \<Longrightarrow>
     owned_decoded raw = Some n \<Longrightarrow> descend_into_node n (at_iter T' K') = Some (at_iter T'' K'') \<Longrightarrow>
     drained t T K = drained t T'' K''"
  by (simp_all add: drained_def iter_drain.simps [of _ "at_iter T K"] trie_iter_next.simps [of _ "at_iter T K"]
      iter_drain.simps [of _ "at_iter T' K'"] iter_drain.simps [of _ "at_iter T'' K''"]
      map_conv_bind_option o_def split: option.split)

lemma drain_end: "drained t [] K = Some []"
  by (simp add: drained_def iter_drain.simps trie_iter_next.simps iter_turn_def)

lemma length_nv_nibs: "nv_ok n \<Longrightarrow> length (nv_nibs n) = nv_len n"
  by (auto simp: nv_ok_def nv_nibs_def)

lemma those_map_Some: "(\<And>x. x \<in> set xs \<Longrightarrow> f x = Some (g x)) \<Longrightarrow> those (map f xs) = Some (map g xs)"
  by (induction xs) auto

lemma nv_collect_nibs: "nv_ok n \<Longrightarrow> nv_collect n = Some (nv_nibs n)"
  unfolding nv_collect_def
  by (subst those_map_Some [where g = "\<lambda>i. nv_nibs n ! i"])
    (simp_all add: nv_at_nibs length_nv_nibs [symmetric] map_nth)

lemma ns_collect_nibs: "ns_ok s \<Longrightarrow> ns_collect s = Some (ns_nibs s)"
  unfolding ns_collect_def
  by (simp add: length_ns_nibs, subst those_map_Some [where g = "\<lambda>i. ns_nibs s ! i"])
    (simp_all add: ns_at_nibs map_nth)

text \<open>A crumb of a path node that has been left behind: what \<open>next\<close> does about it is go up.\<close>

lemma leave_path_node:
  assumes "nv_ok n" and "s = At \<or> s = Exiting" and "b = OwnedLeaf n v \<or> b = OwnedExtension n v"
  shows "drained t (T @ [mk_crumb b s]) (K @ nv_nibs n) = drained t T K"
  using assms
  by (intro drain_by_turn(1) [of _ _ _ "mk_crumb b Exiting"]) (auto simp: iter_turn_def length_nv_nibs)

lemma leave_branch:
  "drained t (T @ [mk_crumb (OwnedBranch cs v) (AtChild 15)]) (K @ [x]) = drained t T K"
  by (rule drain_by_turn(1) [of _ _ _ "mk_crumb (OwnedBranch cs v) Exiting"]) (simp add: iter_turn_def)

lemma drain_leaf:
  assumes "nv_ok n"
  shows "drained t (T @ [mk_crumb (OwnedLeaf n v) Entering]) (K @ nv_nibs n) =
    map_option (\<lambda>rest. yields K [(nv_nibs n, v)] @ rest) (drained t T K)"
  using drain_by_turn(3) [of "T @ [mk_crumb (OwnedLeaf n v) Entering]" "K @ nv_nibs n" "pack (K @ nv_nibs n)" v
      "T @ [mk_crumb (OwnedLeaf n v) At]" "K @ nv_nibs n" t] leave_path_node [OF assms]
  by (simp add: iter_turn_def Let_def)

text \<open>\<open>enters t d T K xs\<close>: descending into the node \<open>d\<close> gives the items \<open>xs\<close> and then goes on
  with the trail \<open>T\<close>.\<close>

definition enters :: "trie_db \<Rightarrow> bytes \<Rightarrow> (byte list \<times> bytes) list \<Rightarrow> bool" where
  "enters t d xs \<longleftrightarrow>
     (\<forall>T K. \<exists>n T' K'. owned_decoded d = Some n \<and>
        descend_into_node n (at_iter T K) = Some (at_iter T' K') \<and>
        drained t T' K' = map_option (\<lambda>rest. yields K xs @ rest) (drained t T K))"

definition enters_item :: "trie_db \<Rightarrow> bytes \<Rightarrow> (byte list \<times> bytes) list \<Rightarrow> bool" where
  "enters_item t c xs \<longleftrightarrow> (\<exists>d. get_raw_or_lookup t c = Ok d \<and> enters t d xs)"

lemma enters_descend:
  assumes "enters_item t c xs" and "iter_turn (at_iter T K) = Some (Descend c, at_iter T' K')"
  shows "drained t T K = map_option (\<lambda>rest. yields K' xs @ rest) (drained t T' K')"
  using assms drain_by_turn(4) unfolding enters_item_def enters_def by metis

lemma drain_children:
  assumes "list_all2 (enters_item t) (drop j cs) (map pt_items ts)" and "length cs = 16" and "j + length ts = 16"
    and "\<forall>c \<in> set cs. c \<noteq> []"
  shows "drained t (T @ [mk_crumb (OwnedBranch cs v) (if j = 0 then At else AtChild (j - 1))])
      (K @ (if j = 0 then [] else [x])) =
    map_option (\<lambda>rest. yields K (child_items j ts) @ rest) (drained t T K)"
  using assms(1,3)
proof (induction ts arbitrary: j x)
  case Nil
  then show ?case using leave_branch [of t T cs v K x] by (simp add: option.map_ident)
next
  case (Cons p ts)
  then have j: "j < 16" and c: "enters_item t (cs ! j) (pt_items p)"
    and rest: "list_all2 (enters_item t) (drop (j + 1) cs) (map pt_items ts)"
    using assms(2) by (auto simp: Cons_nth_drop_Suc [symmetric])
  have ne: "cs ! j \<noteq> []" using assms(2,4) j by auto
  have "iter_turn (at_iter (T @ [mk_crumb (OwnedBranch cs v) (if j = 0 then At else AtChild (j - 1))])
        (K @ (if j = 0 then [] else [x]))) =
      Some (Descend (cs ! j), at_iter (T @ [mk_crumb (OwnedBranch cs v) (AtChild j)]) (K @ [word_of_nat j]))"
    using j ne assms(2) by (cases j) (auto simp: iter_turn_def set_last_def)
  note turn = enters_descend [OF c this]
  show ?case
    unfolding turn using Cons.IH [OF rest, of "word_of_nat j"] Cons.prems
    by (simp add: option.map_comp comp_def)
qed

lemma node_decoded_Nil [simp]: "node_decoded [] = None"
  by (simp add: node_decoded_def trusted_prototype_def rlp_prototype_def is_data_def is_list_def is_null_def)

lemma entersI:
  assumes "owned_decoded d = Some n"
    and "\<And>T K. \<exists>T' K'. descend_into_node n (at_iter T K) = Some (at_iter T' K') \<and>
        drained t T' K' = map_option (\<lambda>rest. yields K xs @ rest) (drained t T K)"
  shows "enters t d xs"
  using assms by (auto simp: enters_def)

lemma descend_path_node:
  assumes "nv_ok n" and "b = OwnedLeaf n v \<or> b = OwnedExtension n v"
  shows "descend_into_node b (at_iter T K) = Some (at_iter (T @ [mk_crumb b Entering]) (K @ nv_nibs n))"
  using assms by (auto simp: descend_into_node_def nv_collect_nibs)

lemma drain_extension:
  assumes "nv_ok n" and "enters_item t c xs"
  shows "drained t (T @ [mk_crumb (OwnedExtension n c) Entering]) (K @ nv_nibs n) =
    map_option (\<lambda>rest. yields (K @ nv_nibs n) xs @ rest) (drained t T K)"
proof -
  have "iter_turn (at_iter (T @ [mk_crumb (OwnedExtension n c) Entering]) (K @ nv_nibs n)) =
      Some (Descend c, at_iter (T @ [mk_crumb (OwnedExtension n c) At]) (K @ nv_nibs n))"
    by (simp add: iter_turn_def Let_def)
  from enters_descend [OF assms(2) this] leave_path_node [OF assms(1), of At "OwnedExtension n c" c t T K]
  show ?thesis by simp
qed

lemma drain_branch:
  assumes "list_all2 (enters_item t) cs (map pt_items ts)" and "length cs = 16" and "\<forall>c \<in> set cs. c \<noteq> []"
  shows "drained t (T @ [mk_crumb (OwnedBranch cs v) Entering]) K =
    map_option (\<lambda>rest. yields K (pt_items (PBranch ts v)) @ rest) (drained t T K)"
proof -
  have len: "length ts = 16" using list_all2_lengthD [OF assms(1)] assms(2) by simp
  have rest: "drained t (T @ [mk_crumb (OwnedBranch cs v) At]) K =
      map_option (\<lambda>rest. yields K (child_items 0 ts) @ rest) (drained t T K)"
    using drain_children [of t 0 cs ts T v K] assms len by simp
  show ?thesis
  proof (cases v)
    case None
    then have "iter_turn (at_iter (T @ [mk_crumb (OwnedBranch cs v) Entering]) K) =
        Some (Continue, at_iter (T @ [mk_crumb (OwnedBranch cs v) At]) K)"
      by (simp add: iter_turn_def Let_def)
    from drain_by_turn(2) [OF this] rest show ?thesis using None by (simp add: own_value_def)
  next
    case (Some x)
    then have "iter_turn (at_iter (T @ [mk_crumb (OwnedBranch cs v) Entering]) K) =
        Some (Yield (pack K) x, at_iter (T @ [mk_crumb (OwnedBranch cs v) At]) K)"
      by (simp add: iter_turn_def Let_def)
    from drain_by_turn(3) [OF this] rest show ?thesis
      using Some by (simp add: own_value_def option.map_comp comp_def)
  qed
qed

lemma owned_path_node:
  assumes "node_decoded d = Some n" and "n = Leaf k v \<or> n = Extension k v"
  shows "\<exists>m. owned_from n = Some (case n of Leaf _ _ \<Rightarrow> OwnedLeaf m v | _ \<Rightarrow> OwnedExtension m v) \<and>
    nv_ok m \<and> nv_nibs m = ns_nibs k"
  using node_decoded_wf [OF assms(1)] nv_from_nibs [of k] assms(2) by (auto simp: node_wf_def)

lemma rep_enters:
  "node_rep get d p \<Longrightarrow> td_get t = get \<Longrightarrow> enters t d (pt_items p)"
  "item_rep get c p \<Longrightarrow> td_get t = get \<Longrightarrow> enters_item t c (pt_items p) \<and> c \<noteq> []"
proof (induction rule: node_rep_item_rep.inducts)
  case (rep_Empty d)
  have "drained t (T @ [mk_crumb OwnedEmpty Entering]) K = drained t T K" for T K
    by (rule drain_by_turn(1) [of _ _ _ "mk_crumb OwnedEmpty Exiting"]) (simp add: iter_turn_def Let_def)
  then show ?case
    using rep_Empty
    by (intro entersI [of _ OwnedEmpty]) (simp_all add: owned_decoded_def descend_into_node_def option.map_ident)
next
  case (rep_Leaf d k v)
  from owned_path_node [OF this(1)] obtain m where
    m: "owned_from (Leaf k v) = Some (OwnedLeaf m v)" "nv_ok m" "nv_nibs m = ns_nibs k" by auto
  then show ?case
    using rep_Leaf drain_leaf [OF m(2)] descend_path_node [OF m(2), of "OwnedLeaf m v"]
    by (intro entersI [of _ "OwnedLeaf m v"]) (simp_all add: owned_decoded_def del: owned_from.simps)
next
  case (rep_Ext d k c p)
  from owned_path_node [OF this(1)] obtain m where
    m: "owned_from (Extension k c) = Some (OwnedExtension m c)" "nv_ok m" "nv_nibs m = ns_nibs k" by auto
  then show ?case
    using rep_Ext drain_extension [OF m(2)] descend_path_node [OF m(2), of "OwnedExtension m c"]
    by (intro entersI [of _ "OwnedExtension m c"]) (simp_all add: owned_decoded_def del: owned_from.simps)
next
  case (rep_Branch d cs v ts)
  have "length cs = 16" using node_decoded_wf [OF rep_Branch.hyps(1)] by (simp add: node_wf_def)
  moreover have "list_all2 (enters_item t) cs (map pt_items ts)" "\<forall>c \<in> set cs. c \<noteq> []"
    using rep_Branch.IH rep_Branch.prems by (auto simp: list_all2_conv_all_nth in_set_conv_nth)
  ultimately show ?case
    using drain_branch [of t cs ts _ v] rep_Branch.hyps(1)
    by (intro entersI [of _ "OwnedBranch cs v"])
      (simp_all add: owned_decoded_def descend_into_node_def del: pt_items.simps)
next
  case (rep_Inline c p)
  then show ?case by (auto simp: enters_item_def get_raw_or_lookup_def elim: node_rep.cases)
next
  case (rep_Hash c h p d)
  moreover from this have "c \<noteq> []" by (auto simp: item_hash_def is_data_def is_null_def)
  ultimately show ?case by (auto simp: enters_item_def get_raw_or_lookup_def)
qed

section \<open>Seeking\<close>

lemma decoded_not_hash:
  assumes "node_decoded d = Some n"
  shows "item_hash d = Some None"
proof (cases "is_data d")
  case True
  then have "trusted_prototype (untrusted_new d) = (Some (Data (rlp_size d)), untrusted_new d)"
    by (simp add: trusted_prototype_def rlp_prototype_def)
  then have "rlp_size d = 0" using assms by (cases "rlp_size d") (auto simp: node_decoded_def)
  then show ?thesis by (simp add: item_hash_def)
qed (simp add: item_hash_def)

definition seeks :: "trie_db \<Rightarrow> bytes \<Rightarrow> nibble_slice \<Rightarrow> (byte list \<times> bytes) list \<Rightarrow> bool" where
  "seeks t d key xs \<longleftrightarrow>
     (\<forall>T K. \<exists>T' K'. iter_seek_from t d key (at_iter T K) = Some (Ok (), at_iter T' K') \<and>
        drained t T' K' = map_option (\<lambda>rest. yields K xs @ rest) (drained t T K))"

lemma seeks_done:
  assumes "\<And>T K. seek_turn d key (at_iter T K) = Some (Seek_Done, at_iter (T @ T' T K) (K @ K'))"
    and "\<And>T K. drained t (T @ T' T K) (K @ K') = map_option (\<lambda>rest. yields K xs @ rest) (drained t T K)"
  shows "seeks t d key xs"
  using assms by (simp add: seeks_def iter_seek_from.simps)

lemma seeks_into:
  assumes "\<And>T K. seek_turn d key (at_iter T K) = Some (Seek_Into c m, at_iter (T @ T') (K @ K'))"
    and "get_raw_or_lookup t c = Ok d'" and "seeks t d' (ns_mid key m) xs"
    and "\<And>T K. drained t (T @ T') (K @ K') = map_option (\<lambda>rest. yields K ys @ rest) (drained t T K)"
  shows "seeks t d key (under K' xs @ ys)"
  unfolding seeks_def
proof (intro allI)
  fix T K
  obtain T1 K1 where "iter_seek_from t d' (ns_mid key m) (at_iter (T @ T') (K @ K')) = Some (Ok (), at_iter T1 K1)"
    "drained t T1 K1 = map_option (\<lambda>rest. yields (K @ K') xs @ rest) (drained t (T @ T') (K @ K'))"
    using assms(3) unfolding seeks_def by blast
  then show "\<exists>T1 K1. iter_seek_from t d key (at_iter T K) = Some (Ok (), at_iter T1 K1) \<and>
      drained t T1 K1 = map_option (\<lambda>rest. yields K (under K' xs @ ys) @ rest) (drained t T K)"
    using assms(1,2,4) by (simp add: iter_seek_from.simps [of t d] option.map_comp comp_def)
qed

lemma seeks_descend:
  assumes "\<And>T K. seek_turn d key (at_iter T K) = Some (Seek_Descend, at_iter T K)"
    and "enters t d xs" and "get_raw_or_lookup t d = Ok d"
  shows "seeks t d key xs"
  unfolding seeks_def
proof (intro allI)
  fix T K
  obtain n T' K' where "owned_decoded d = Some n"
    "descend_into_node n (at_iter T K) = Some (at_iter T' K')"
    "drained t T' K' = map_option (\<lambda>rest. yields K xs @ rest) (drained t T K)"
    using assms(2) unfolding enters_def by blast
  then show "\<exists>T' K'. iter_seek_from t d key (at_iter T K) = Some (Ok (), at_iter T' K') \<and>
      drained t T' K' = map_option (\<lambda>rest. yields K xs @ rest) (drained t T K)"
    using assms(1,3) by (simp add: iter_seek_from.simps iter_descend_def)
qed

lemma rep_seeks:
  "node_rep get d p \<Longrightarrow> td_get t = get \<Longrightarrow> (\<And>key. plain_key key \<Longrightarrow> seeks t d key (pt_after p (ns_nibs key)))"
  "item_rep get c p \<Longrightarrow> td_get t = get \<Longrightarrow> (\<And>key. plain_key key \<Longrightarrow>
     \<exists>d. get_raw_or_lookup t c = Ok d \<and> seeks t d key (pt_after p (ns_nibs key)))"
proof (induction rule: node_rep_item_rep.inducts)
  case (rep_Empty d)
  then show ?case
    by (intro seeks_done [of _ _ "\<lambda>T K. []" "[]"]) (simp_all add: seek_turn_def option.map_ident)
next
  case (rep_Leaf d k v)
  from owned_path_node [OF this(1)] obtain m where
    m: "owned_from (Leaf k v) = Some (OwnedLeaf m v)" "nv_ok m" "nv_nibs m = ns_nibs k" by auto
  let ?s = "if ns_nibs k = ns_nibs key then At else Exiting"
  have "seek_turn d key (at_iter T K) = Some (Seek_Done, at_iter (T @ [mk_crumb (OwnedLeaf m v) ?s]) (K @ ns_nibs k))" for T K
    using rep_Leaf m node_decoded_wf [OF rep_Leaf(1)]
    by (simp add: seek_turn_def plain_key_def node_wf_def ns_eq_nibs ns_collect_nibs del: owned_from.simps)
  then show ?case
    using leave_path_node [OF m(2), of ?s "OwnedLeaf m v" v t] m(3)
    by (intro seeks_done [of _ _ "\<lambda>T K. [mk_crumb (OwnedLeaf m v) ?s]" "ns_nibs k"]) (simp_all add: option.map_ident)
next
  case (rep_Ext d k c p)
  from owned_path_node [OF this(1)] obtain m where
    m: "owned_from (Extension k c) = Some (OwnedExtension m c)" "nv_ok m" "nv_nibs m = ns_nibs k" by auto
  have ok: "ns_ok k" "ns_ok key" using rep_Ext.prems node_decoded_wf [OF rep_Ext.hyps(1)]
    by (auto simp: plain_key_def node_wf_def)
  show ?case
  proof (cases "take (length (ns_nibs k)) (ns_nibs key) = ns_nibs k")
    case True
    note mid = plain_key_mid [OF rep_Ext.prems(2) length_take_prefix [OF True]]
    obtain d' where d': "get_raw_or_lookup t c = Ok d'"
      "seeks t d' (ns_mid key (length (ns_nibs k))) (pt_after p (ns_nibs (ns_mid key (length (ns_nibs k)))))"
      using rep_Ext.IH(2) [OF rep_Ext.prems(1) mid(1)] by blast
    have "seek_turn d key (at_iter T K) = Some (Seek_Into c (length (ns_nibs k)),
        at_iter (T @ [mk_crumb (OwnedExtension m c) At]) (K @ ns_nibs k))" for T K
      using rep_Ext.hyps(1) m ok True
      by (simp add: seek_turn_def ns_starts_with_nibs length_ns_nibs ns_collect_nibs take_prefix_iff
          del: owned_from.simps)
    from seeks_into [OF this d', of "[]"] show ?thesis
      using leave_path_node [OF m(2), of At "OwnedExtension m c" c t] m(3) True mid(2)
      by (simp add: option.map_ident)
  next
    case False
    have "seek_turn d key (at_iter T K) = Some (Seek_Descend, at_iter T K)" for T K
      using rep_Ext.hyps(1) ok False by (simp add: seek_turn_def ns_starts_with_nibs take_prefix_iff)
    moreover have "enters t d (pt_items (PExt (ns_nibs k) p))"
      using rep_enters(1) [OF node_rep_item_rep.rep_Ext [OF rep_Ext.hyps(1) rep_Ext.IH(1)]] rep_Ext.prems by simp
    moreover have "get_raw_or_lookup t d = Ok d"
      using decoded_not_hash [OF rep_Ext.hyps(1)] by (simp add: get_raw_or_lookup_def)
    ultimately show ?thesis using seeks_descend False by simp
  qed
next
  case (rep_Branch d cs v ts)
  note d = rep_Branch.hyps(1)
  have len: "length cs = 16" using node_decoded_wf [OF d] by (simp add: node_wf_def)
  have reps: "list_all2 (item_rep get) cs ts" using rep_Branch.IH by (auto simp: list_all2_conv_all_nth)
  then have lts: "length ts = 16" using len by (auto dest: list_all2_lengthD)
  have enter: "list_all2 (enters_item t) (drop j cs) (map pt_items (drop j ts))" for j
    using reps rep_enters(2) [OF _ rep_Branch.prems(1)]
    by (auto simp: list_all2_conv_all_nth)
  have ne: "\<forall>c \<in> set cs. c \<noteq> []"
    using reps rep_enters(2) [OF _ rep_Branch.prems(1)]
    by (fastforce simp: list_all2_conv_all_nth in_set_conv_nth)
  have ok: "ns_ok key" using rep_Branch.prems by (simp add: plain_key_def)
  show ?case
  proof (cases "ns_nibs key")
    case Nil
    have "seek_turn d key (at_iter T K) = Some (Seek_Done, at_iter (T @ [mk_crumb (OwnedBranch cs v) At]) (K @ []))" for T K
      using d Nil ok by (simp add: seek_turn_def ns_is_empty_def ns_view)
    then show ?thesis
      using drain_children [of t 0 cs ts _ v] enter [of 0] len lts ne Nil
      by (intro seeks_done [of _ _ "\<lambda>T K. [mk_crumb (OwnedBranch cs v) At]" "[]"]) simp_all
  next
    case (Cons x xs)
    have x: "unat x < 16" using ns_nibs_less [of x key] Cons by simp
    have mid: "plain_key (ns_mid key 1)" "ns_nibs (ns_mid key 1) = xs"
      using plain_key_mid [OF rep_Branch.prems(2), of 1] Cons by simp_all
    obtain d' where d': "get_raw_or_lookup t (cs ! unat x) = Ok d'"
      "seeks t d' (ns_mid key 1) (pt_after (ts ! unat x) xs)"
      using list_all2_nthD [OF rep_Branch.IH, of "unat x"] rep_Branch.prems(1) x len mid by auto
    have "seek_turn d key (at_iter T K) = Some (Seek_Into (cs ! unat x) 1,
        at_iter (T @ [mk_crumb (OwnedBranch cs v) (AtChild (unat x))]) (K @ [x]))" for T K
      using d Cons ok x len ns_at_nibs [of key 0]
      by (simp add: seek_turn_def ns_is_empty_def length_ns_nibs)
    from seeks_into [OF this d'] show ?thesis
      using drain_children [of t "unat x + 1" cs "drop (unat x + 1) ts" _ v _ x] enter [of "unat x + 1"]
        len lts ne Cons x by simp
  qed
next
  case (rep_Inline c p)
  then show ?case by (auto simp: get_raw_or_lookup_def)
next
  case (rep_Hash c h p d)
  then show ?case by (auto simp: get_raw_or_lookup_def)
qed

section \<open>Order and contents\<close>

fun pt_wf :: "ptrie \<Rightarrow> bool" where
  "pt_wf PEmpty \<longleftrightarrow> True"
| "pt_wf (PLeaf k v) \<longleftrightarrow> (\<forall>x \<in> set k. unat x < 16)"
| "pt_wf (PExt k t) \<longleftrightarrow> (\<forall>x \<in> set k. unat x < 16) \<and> pt_wf t"
| "pt_wf (PBranch ts v) \<longleftrightarrow> length ts = 16 \<and> (\<forall>t \<in> set ts. pt_wf t)"

lemma rep_wf: "node_rep get d p \<Longrightarrow> pt_wf p" "item_rep get c p \<Longrightarrow> pt_wf p"
proof (induction rule: node_rep_item_rep.inducts)
  case (rep_Branch d cs v ts)
  then show ?case
    using node_decoded_wf [OF rep_Branch.hyps(1)]
    by (auto simp: node_wf_def list_all2_conv_all_nth in_set_conv_nth)
qed (auto intro: ns_nibs_less)

lemma map_of_under:
  "map_of (under k xs) ns = (if take (length k) ns = k then map_of xs (drop (length k) ns) else None)"
  by (induction xs) (auto simp: under_def, (metis append_take_drop_id)+)

lemma unat_byte_of_small: "i < 256 \<Longrightarrow> unat (word_of_nat i :: byte) = i"
  by simp

lemma map_of_children:
  assumes "i + length ts \<le> 256"
  shows "map_of (child_items i ts) ns =
    (case ns of [] \<Rightarrow> None
     | x # ns \<Rightarrow> if i \<le> unat x \<and> unat x < i + length ts then map_of (pt_items (ts ! (unat x - i))) ns else None)"
  using assms
proof (induction ts arbitrary: i)
  case Nil
  then show ?case by (auto split: list.split)
next
  case (Cons t ts)
  then have i: "i < 256" by simp
  show ?case
  proof (cases ns)
    case Nil
    then show ?thesis using Cons by (simp add: map_add_def map_of_under)
  next
    case (Cons x xs)
    have "x = word_of_nat i \<longleftrightarrow> unat x = i" using i by (auto simp: byte_eq_iff)
    then show ?thesis
      using Cons.IH [of "i + 1"] Cons.prems Cons
      by (auto simp: map_add_def map_of_under nth_Cons' Suc_le_eq split: option.split)
  qed
qed

lemma map_of_items: "pt_wf p \<Longrightarrow> map_of (pt_items p) ns = pt_lookup p ns"
proof (induction p ns rule: pt_lookup.induct)
  case (4 ts v)
  then show ?case by (simp add: map_add_def map_of_children own_value_def split: option.split)
next
  case (5 ts v x ns)
  then show ?case
    by (auto simp: map_add_def map_of_children own_value_def split: option.split)
qed (auto simp: map_of_under)

lemma items_nibs: "pt_wf p \<Longrightarrow> \<forall>e \<in> set (pt_items p). \<forall>x \<in> set (fst e). unat x < 16"
  and children_nibs: "i + length ts \<le> 16 \<Longrightarrow> \<forall>t \<in> set ts. pt_wf t \<Longrightarrow>
    \<forall>e \<in> set (child_items i ts). \<forall>x \<in> set (fst e). unat x < 16"
proof (induction p and i ts rule: pt_items_child_items.induct)
  case (3 k t)
  then show ?case by (auto simp: under_def)
next
  case (4 ts v)
  then show ?case by (auto simp: own_value_def split: option.splits)
next
  case (6 i t ts)
  then have "unat (word_of_nat i :: byte) < 16" by simp
  then show ?case using 6 by (auto simp: under_def)
qed auto

lemma list_compare_prefix [simp]: "list_compare (k @ a) (k @ b) = list_compare a b"
  by (induction k) auto

lemma children_above:
  "i + length ts \<le> 256 \<Longrightarrow> x \<in> set (child_items i ts) \<Longrightarrow>
     \<exists>j ns. fst x = word_of_nat j # ns \<and> i \<le> j \<and> j < i + length ts"
proof (induction ts arbitrary: i)
  case (Cons t ts)
  then show ?case using Cons.IH [of "i + 1"] by (fastforce simp: under_def)
qed simp

abbreviation lex_sorted :: "(byte list \<times> bytes) list \<Rightarrow> bool" where
  "lex_sorted xs \<equiv> sorted_wrt (\<lambda>a b. list_compare (fst a) (fst b) = Less) xs"

lemma lex_sorted_under [simp]: "lex_sorted (under k xs) = lex_sorted xs"
  by (simp add: under_def sorted_wrt_map case_prod_beta)

lemma items_sorted: "pt_wf p \<Longrightarrow> lex_sorted (pt_items p)"
  and children_sorted: "i + length ts \<le> 16 \<Longrightarrow> \<forall>t \<in> set ts. pt_wf t \<Longrightarrow> lex_sorted (child_items i ts)"
proof (induction p and i ts rule: pt_items_child_items.induct)
  case (4 ts v)
  then show ?case
    using children_above [of 0 ts] by (fastforce simp: sorted_wrt_append own_value_def split: option.split)
next
  case (6 i t ts)
  have "list_compare (fst a) (fst b) = Less"
    if a: "a \<in> set (under [word_of_nat i] (pt_items t))" and b: "b \<in> set (child_items (i + 1) ts)" for a b
  proof -
    obtain j ns where "fst b = word_of_nat j # ns" "i < j" "j < 256"
      using children_above [OF _ b] 6 by fastforce
    then show ?thesis using a by (auto simp: under_def word_less_nat_alt)
  qed
  then show ?case using 6 by (simp add: sorted_wrt_append)
qed auto

lemma nibbles_order:
  fixes x y :: byte
  shows "x < y \<longleftrightarrow> drop_bit 4 x < drop_bit 4 y \<or> drop_bit 4 x = drop_bit 4 y \<and> x AND 15 < y AND 15"
    and "x = y \<longleftrightarrow> drop_bit 4 x = drop_bit 4 y \<and> x AND 15 = y AND 15"
proof -
  have split: "unat b = 16 * (unat b div 16) + unat b mod 16" "unat b mod 16 < 16" for b :: byte
    by (rule mult_div_mod_eq [symmetric]) simp
  have less: "16 * q + r < 16 * q' + r' \<longleftrightarrow> q < q' \<or> q = q' \<and> r < r'"
    if "r < 16" "r' < 16" for q q' r r' :: nat
    using that by linarith
  have eq: "16 * q + r = 16 * q' + r' \<longleftrightarrow> q = q' \<and> r = r'"
    if "r < 16" "r' < 16" for q q' r r' :: nat
    using that less [of r r' q q'] less [of r' r q' q] by linarith
  show "x < y \<longleftrightarrow> drop_bit 4 x < drop_bit 4 y \<or> drop_bit 4 x = drop_bit 4 y \<and> x AND 15 < y AND 15"
    unfolding word_less_nat_alt byte_eq_iff unat_drop_bit_4 unat_and_15
    by (subst (1) split(1) [of x], subst (1) split(1) [of y]) (rule less [OF split(2) split(2)])
  show "x = y \<longleftrightarrow> drop_bit 4 x = drop_bit 4 y \<and> x AND 15 = y AND 15"
    unfolding byte_eq_iff unat_drop_bit_4 unat_and_15
    by (subst (1) split(1) [of x], subst (1) split(1) [of y]) (rule eq [OF split(2) split(2)])
qed

lemma list_compare_self [simp]: "list_compare xs xs = Equal"
  by (induction xs) auto

lemma nibbles_compare: "list_compare (nibbles a) (nibbles b) = list_compare a b"
proof (induction a b rule: list_compare.induct)
  case (4 x xs y ys)
  consider "x < y" | "y < x" | "x = y" by (rule linorder_cases)
  then show ?case
  proof cases
    case 1
    then show ?thesis using nibbles_order(1) [of x y] by auto
  next
    case 2
    then show ?thesis using nibbles_order(1) [of y x] by auto
  next
    case 3
    then show ?thesis using 4 by simp
  qed
qed simp_all

text \<open>The items of a trie whose keys are whole bytes.\<close>

definition byte_items :: "(byte list \<times> bytes) list \<Rightarrow> (bytes \<times> bytes) list" where
  "byte_items xs = map (\<lambda>(ns, v). (pack ns, v)) xs"

lemma in_items_lookup:
  assumes "pt_wf p"
  shows "(ns, v) \<in> set (pt_items p) \<longleftrightarrow> pt_lookup p ns = Some v"
proof -
  have "lex_sorted xs \<Longrightarrow> distinct (map fst xs)" for xs
    by (induction xs) auto
  then have "distinct (map fst (pt_items p))" using items_sorted [OF assms] by blast
  from map_of_eq_Some_iff [OF this, of ns v] show ?thesis by (simp add: map_of_items [OF assms])
qed

definition byte_keys :: "ptrie \<Rightarrow> bool" where
  "byte_keys p \<longleftrightarrow> pt_wf p \<and> (\<forall>ns. pt_lookup p ns \<noteq> None \<longrightarrow> even (length ns))"

lemma nibbles_key:
  assumes "byte_keys p" and "e \<in> set (pt_items p)"
  shows "nibbles (pack (fst e)) = fst e"
proof (rule nibbles_pack)
  have wf: "pt_wf p" using assms(1) by (simp add: byte_keys_def)
  have "pt_lookup p (fst e) = Some (snd e)"
    using assms(2) in_items_lookup [OF wf, of "fst e" "snd e"] by simp
  then show "even (length (fst e))" using assms(1) by (simp add: byte_keys_def)
  show "\<forall>x \<in> set (fst e). unat x < 16" using assms(2) items_nibs [OF wf] by blast
qed

lemma in_byte_items:
  assumes "byte_keys p" and "set xs \<subseteq> set (pt_items p)"
  shows "(k, v) \<in> set (byte_items xs) \<longleftrightarrow> (nibbles k, v) \<in> set xs"
proof
  assume "(k, v) \<in> set (byte_items xs)"
  then obtain ns where ns: "(ns, v) \<in> set xs" "k = pack ns" by (auto simp: byte_items_def)
  then show "(nibbles k, v) \<in> set xs" using nibbles_key [OF assms(1), of "(ns, v)"] assms(2) by auto
next
  assume "(nibbles k, v) \<in> set xs"
  then have "(pack (nibbles k), v) \<in> set (byte_items xs)" by (force simp: byte_items_def)
  then show "(k, v) \<in> set (byte_items xs)" by (simp only: pack_nibbles)
qed

lemma byte_items_sorted:
  assumes "byte_keys p" and "set xs \<subseteq> set (pt_items p)" and "lex_sorted xs"
  shows "lex_sorted (byte_items xs)"
proof -
  have "list_compare (pack (fst a)) (pack (fst b)) = list_compare (fst a) (fst b)"
    if "a \<in> set xs" "b \<in> set xs" for a b
  proof -
    have "nibbles (pack (fst a)) = fst a" "nibbles (pack (fst b)) = fst b"
      using that assms(1,2) by (auto intro!: nibbles_key)
    then show ?thesis using nibbles_compare [of "pack (fst a)" "pack (fst b)"] by simp
  qed
  then show ?thesis
    unfolding byte_items_def sorted_wrt_map
    by (intro sorted_wrt_mono_rel [OF _ assms(3)]) (simp add: case_prod_beta)
qed

lemma under_above: "filter (\<lambda>e. list_compare (k @ ns) (fst e) = Less) (under k xs) =
    under k (filter (\<lambda>e. list_compare ns (fst e) = Less) xs)"
  by (induction xs) (auto simp: under_def)

lemma children_after:
  assumes "i + length ts \<le> 256" and "i \<le> unat x" and "unat x < i + length ts"
  shows "filter (\<lambda>e. list_compare (x # ns) (fst e) = Less) (child_items i ts) =
    under [x] (filter (\<lambda>e. list_compare ns (fst e) = Less) (pt_items (ts ! (unat x - i)))) @
    child_items (unat x + 1) (drop (unat x + 1 - i) ts)"
  using assms
proof (induction ts arbitrary: i)
  case (Cons t ts)
  let ?P = "\<lambda>e :: byte list \<times> bytes. list_compare (x # ns) (fst e) = Less"
  show ?case
  proof (cases "unat x = i")
    case True
    then have x: "x = word_of_nat i" using Cons.prems by (auto simp: byte_eq_iff)
    have "filter ?P (child_items (i + 1) ts) = child_items (i + 1) ts"
    proof (intro filter_True ballI)
      fix e
      assume "e \<in> set (child_items (i + 1) ts)"
      then obtain j ms where "fst e = word_of_nat j # ms" "i < j" "j < 256"
        using children_above [of "i + 1" ts e] Cons.prems by auto
      then show "?P e" using True by (simp add: word_less_nat_alt)
    qed
    then show ?thesis using under_above [of "[x]" ns] x True by simp
  next
    case False
    then have "filter ?P (under [word_of_nat i] (pt_items t)) = []"
      using Cons.prems by (auto simp: under_def word_less_nat_alt filter_empty_conv)
    moreover obtain j where j: "unat x = Suc (i + j)"
      using Cons.prems(2) False by (metis le_neq_implies_less less_iff_Suc_add)
    ultimately show ?thesis using Cons.IH [of "i + 1"] Cons.prems by simp
  qed
qed simp

lemma after_present:
  "pt_wf p \<Longrightarrow> pt_lookup p ns \<noteq> None \<Longrightarrow>
     pt_after p ns = filter (\<lambda>e. list_compare ns (fst e) = Less) (pt_items p)"
proof (induction p ns rule: pt_after.induct)
  case (3 k t ns)
  then have k: "take (length k) ns = k" by (auto split: if_splits)
  with under_above [of k "drop (length k) ns" "pt_items t"]
  have "filter (\<lambda>e. list_compare ns (fst e) = Less) (under k (pt_items t)) =
      under k (filter (\<lambda>e. list_compare (drop (length k) ns) (fst e) = Less) (pt_items t))"
    by (metis append_take_drop_id)
  then show ?case using 3 k by simp
next
  case (4 ts v)
  have "filter (\<lambda>e. list_compare [] (fst e) = Less) (child_items 0 ts) = child_items 0 ts"
    using children_above [of 0 ts] 4 by (intro filter_True) fastforce
  then show ?case by (simp add: own_value_def split: option.split)
next
  case (5 ts v x ns)
  then have "unat x < length ts" by (auto split: if_splits)
  then show ?case
    using 5 children_after [of 0 ts x ns] by (simp add: own_value_def split: option.split)
qed (auto split: if_splits)

text \<open>
  Seeking a key that need not be in the trie.  What is left is chosen entry by entry, and the
  choice is right for every entry from which the path of the key departs earlier than from some
  other one; the node where the key leaves the trie is the exception (\<open>PLeaf\<close>: nothing of it,
  \<open>PExt\<close>: all of it).
\<close>

lemma lcp_prefix [simp]: "lcp (k @ a) (k @ b) = length k + lcp a b"
  by (induction k) auto








section \<open>Properties\<close>

lemma drain_at: "drained t T K = iter_drain (trie_iter_next t) (at_iter T K)"
  by (simp add: drained_def)

lemma root_data_rep: "td_get t (td_root t) = Some d \<Longrightarrow> root_data t = Ok d"
  by (simp add: root_data_def)

lemma new_iter_items:
  assumes "td_get t (td_root t) = Some d" and "node_rep (td_get t) d p"
  shows "\<exists>it. trie_iter_new t = Ok it \<and>
    iter_drain (trie_iter_next t) it = Some (map Ok (byte_items (pt_items p)))"
proof -
  obtain n where n: "node_decoded d = Some n" using assms(2) by (auto elim: node_rep.cases)
  obtain m T' K' where m: "owned_decoded d = Some m" "descend_into_node m (at_iter [] []) = Some (at_iter T' K')"
    "drained t T' K' = map_option (\<lambda>rest. yields [] (pt_items p) @ rest) (drained t [] [])"
    using rep_enters(1) [OF assms(2) refl] unfolding enters_def by blast
  have "get_raw_or_lookup t d = Ok d" using decoded_not_hash [OF n] by (simp add: get_raw_or_lookup_def)
  moreover have "iter_start = at_iter [] []" by (simp add: iter_start_def at_iter_def)
  ultimately have "trie_iter_new t = Ok (at_iter T' K')"
    using assms(1) m by (simp add: trie_iter_new_def root_data_rep iter_descend_def)
  moreover have "iter_drain (trie_iter_next t) (at_iter T' K') = Some (map Ok (byte_items (pt_items p)))"
    using m(3) by (simp add: drain_end drained_def [symmetric] yields_def byte_items_def case_prod_beta)
  ultimately show ?thesis by blast
qed

lemma seek_items:
  assumes "td_get t (td_root t) = Some d" and "node_rep (td_get t) d p"
  shows "\<exists>it'. trie_iter_seek t key it = Some (Ok (), it') \<and>
    iter_drain (trie_iter_next t) it' = Some (map Ok (byte_items (pt_after p (nibbles key))))"
proof -
  obtain T' K' where *: "iter_seek_from t d (ns_new key) (at_iter [] []) = Some (Ok (), at_iter T' K')"
    "drained t T' K' = map_option (\<lambda>rest. yields [] (pt_after p (nibbles key)) @ rest) (drained t [] [])"
    using rep_seeks(1) [OF assms(2) refl plain_key_new, of key] unfolding seeks_def by (metis ns_new_ok(2))
  have "it\<lparr>it_trail := [], it_nibbles := []\<rparr> = at_iter [] []" by (cases it) (simp add: at_iter_def)
  then have "trie_iter_seek t key it = Some (Ok (), at_iter T' K')"
    using assms(1) *(1) by (simp only: trie_iter_seek_def root_data_rep Let_def outcome.case)
  moreover have "iter_drain (trie_iter_next t) (at_iter T' K') =
      Some (map Ok (byte_items (pt_after p (nibbles key))))"
    using *(2) by (simp add: drain_end drained_def [symmetric] yields_def byte_items_def case_prod_beta)
  ultimately show ?thesis by blast
qed

text \<open>C22. Iteration is complete and ordered: on a trie whose keys are whole bytes, an iterator can be
  made, draining it ends without an error, the keys come in strictly increasing order, and what
  it yields is exactly what \<open>get\<close> finds: a pair comes out if and only if \<open>get\<close> of its key
  returns its value.\<close>

theorem iteration_matches_get:
  assumes "td_get t (td_root t) = Some d" and "node_rep (td_get t) d p"
    and "\<And>ns. pt_lookup p ns \<noteq> None \<Longrightarrow> even (length ns)"
  shows "\<exists>it xs. trie_iter_new t = Ok it \<and> iter_drain (trie_iter_next t) it = Some (map Ok xs) \<and>
    sorted_wrt (\<lambda>a b. list_compare (fst a) (fst b) = Less) xs \<and>
    (\<forall>key v. (key, v) \<in> set xs \<longleftrightarrow> trie_get (trie_get_with t) key = Some (Ok (Some v)))"
proof -
  have p: "byte_keys p" "pt_wf p" using rep_wf(1) [OF assms(2)] assms(3) by (simp_all add: byte_keys_def)
  have "trie_get (trie_get_with t) key = Some (Ok (Some v)) \<longleftrightarrow> (key, v) \<in> set (byte_items (pt_items p))" for key v
    using look_up_rep [OF map_le_refl assms(1,2) plain_key_new, of "\<lambda>v. v" key] assms(1)
      in_byte_items [OF p(1) subset_refl, of key v] in_items_lookup [OF p(2), of "nibbles key" v]
    by (auto simp: trie_get_def trie_get_with_def answers_def option.map_ident)
  then show ?thesis
    using new_iter_items [OF assms(1,2)] byte_items_sorted [OF p(1) subset_refl items_sorted [OF p(2)]]
    by blast
qed

theorem iteration_matches_get_witness:
  "\<exists>it xs. trie_iter_new leaf_trie = Ok it \<and> iter_drain (trie_iter_next leaf_trie) it = Some (map Ok xs) \<and>
    sorted_wrt (\<lambda>a b. list_compare (fst a) (fst b) = Less) xs \<and>
    (\<forall>key v. (key, v) \<in> set xs \<longleftrightarrow> trie_get (trie_get_with leaf_trie) key = Some (Ok (Some v)))"
  by (rule iteration_matches_get [OF _ leaf_trie_rep(1)]) (auto split: if_splits)

text \<open>C23. Seeking a key of the trie: an iterator sought to a key that \<open>get\<close> finds yields, in order,
  exactly the entries whose key is greater, wherever the iterator stood before.\<close>

theorem seek_present_key:
  assumes "td_get t (td_root t) = Some d" and "node_rep (td_get t) d p"
    and "\<And>ns. pt_lookup p ns \<noteq> None \<Longrightarrow> even (length ns)"
    and "trie_get (trie_get_with t) key = Some (Ok (Some v))"
  shows "\<exists>it' xs. trie_iter_seek t key it = Some (Ok (), it') \<and>
    iter_drain (trie_iter_next t) it' = Some (map Ok xs) \<and>
    sorted_wrt (\<lambda>a b. list_compare (fst a) (fst b) = Less) xs \<and>
    (\<forall>k w. (k, w) \<in> set xs \<longleftrightarrow>
       list_compare key k = Less \<and> trie_get (trie_get_with t) k = Some (Ok (Some w)))"
proof -
  have p: "byte_keys p" "pt_wf p" using rep_wf(1) [OF assms(2)] assms(3) by (simp_all add: byte_keys_def)
  have get: "trie_get (trie_get_with t) k = Some (Ok (pt_lookup p (nibbles k)))" for k
    using look_up_rep [OF map_le_refl assms(1,2) plain_key_new, of "\<lambda>v. v" k] assms(1)
    by (auto simp: trie_get_def trie_get_with_def answers_def option.map_ident)
  let ?xs = "pt_after p (nibbles key)"
  have xs: "?xs = filter (\<lambda>e. list_compare (nibbles key) (fst e) = Less) (pt_items p)"
    using get [of key] assms(4) by (intro after_present [OF p(2)]) (metis option.inject outcome.inject(1) option.simps(3))
  have sub: "set ?xs \<subseteq> set (pt_items p)" by (auto simp: xs)
  have "lex_sorted ?xs" unfolding xs by (intro sorted_wrt_filter items_sorted p)
  moreover have "(k, w) \<in> set (byte_items ?xs) \<longleftrightarrow>
      list_compare key k = Less \<and> trie_get (trie_get_with t) k = Some (Ok (Some w))" for k w
    using in_byte_items [OF p(1) sub, of k w] in_items_lookup [OF p(2), of "nibbles k" w] get [of k]
    by (auto simp: xs nibbles_compare)
  ultimately show ?thesis
    using seek_items [OF assms(1,2), of key it] byte_items_sorted [OF p(1) sub] by blast
qed

theorem seek_present_key_witness:
  "\<exists>it' xs. trie_iter_seek leaf_trie [0xab] iter_start = Some (Ok (), it') \<and>
    iter_drain (trie_iter_next leaf_trie) it' = Some (map Ok xs) \<and>
    sorted_wrt (\<lambda>a b. list_compare (fst a) (fst b) = Less) xs \<and>
    (\<forall>k w. (k, w) \<in> set xs \<longleftrightarrow>
       list_compare [0xab] k = Less \<and> trie_get (trie_get_with leaf_trie) k = Some (Ok (Some w)))"
  by (rule seek_present_key [OF _ leaf_trie_rep(1)])
    (auto simp: trie_get_def trie_get_with_def look_up_def loop_simps(2) loop_stops split: if_splits)



end
