(* ===== verification/Trie_Persist.thy ===== *)
theory Trie_Persist
  imports Trie_Commit Trie_Iter
begin

text \<open>
  What a commit leaves in the store can be read back.

  \<open>pt_node_rep\<close>: a store that has the canonical encodings below a trie represents it, in the sense
  of \<open>node_rep\<close>; so the readers of \<open>Trie_Lookup\<close> and \<open>Trie_Iter\<close> and a mutable trie opened on the
  root see the map that was committed.  The store of the theorems is \<open>MemoryDB\<close>, with its counts.
\<close>

section \<open>Encodings of nodes are items\<close>

declare rlp_enc.simps [simp del] code_enc.simps [simp del]

lemma code_enc_not_Nil: "code_enc (RData b) \<noteq> []"
  by (cases b) (auto simp: code_enc.simps code_header_def Let_def)

lemma value_part_not_Nil: "value_part v \<noteq> []"
  by (simp add: value_part_def code_enc_not_Nil split: option.split)

lemma pt_node_parts:
  assumes "t \<noteq> PEmpty"
  obtains es where "pt_node hash t = enc_parts es" and "concat es \<noteq> []"
proof (cases t)
  case (PBranch ts v)
  show ?thesis by (rule that [of "map (\<lambda>t. node_ref hash (pt_node hash t)) ts @ [value_part v]"])
    (simp_all add: PBranch value_part_not_Nil)
qed (use assms that code_enc_not_Nil in \<open>auto\<close>)

lemma short_parts_not_empty:
  assumes "concat es \<noteq> []" and "length (enc_parts es) < 32"
  shows "\<not> is_empty (enc_parts es)"
proof -
  have n: "0 < length (concat es)" "length (concat es) \<le> 31" using assms by (simp_all add: enc_parts_def)
  then have "unat (0xc0 + word_of_nat (length (concat es)) :: byte) = 0xc0 + length (concat es)"
    using unat_header_short [of "length (concat es)" "0xc0"] by simp
  then show ?thesis
    using n by (auto simp: enc_parts_def code_header_def is_empty_def byte_eq_iff)
qed

lemma pt_node_not_null:
  assumes "t \<noteq> PEmpty" and "length (pt_node hash t) < 2 ^ 32"
  shows "pt_node hash t \<noteq> [0x80]"
proof
  assume null: "pt_node hash t = [0x80]"
  obtain es where es: "pt_node hash t = enc_parts es" "concat es \<noteq> []" by (rule pt_node_parts [OF assms(1)])
  have "length (enc_parts es) = length [0x80 :: byte]" using es(1) null by metis
  then have "\<not> is_empty (pt_node hash t)" using short_parts_not_empty [OF es(2)] es(1) by simp
  then have "\<not> is_empty [0x80]" unfolding null .
  then show False by (simp add: is_empty_def is_null_def)
qed

lemma hash_item:
  assumes "length h = 32"
  shows "code_enc (RData h) = rlp_enc (RData h)" and "item_hash (rlp_enc (RData h)) = Some (Some h)"
proof -
  have enc: "rlp_enc (RData h) = 0xa0 # h" using assms by (simp add: rlp_enc.simps rlp_header_def)
  then have len: "length (rlp_enc (RData h)) = 33" using assms by simp
  show "code_enc (RData h) = rlp_enc (RData h)" by (rule code_enc_eq) (simp add: len)
  have "is_data (rlp_enc (RData h)) \<and> rlp_size (rlp_enc (RData h)) = 32"
    using assms enc by (simp add: is_data_def is_null_def rlp_size_def basic_payload_info_def payload_info_from_def
        checked_add_def new_payload_info_def)
  then show "item_hash (rlp_enc (RData h)) = Some (Some h)"
    using h256_codec.decodes [OF assms] len by (simp add: item_hash_def)
qed

section \<open>A stored trie is represented\<close>

definition has_below :: "(bytes \<Rightarrow> bytes option) \<Rightarrow> (bytes \<Rightarrow> bytes) \<Rightarrow> ptrie \<Rightarrow> bool" where
  "has_below get hash t \<longleftrightarrow>
     (\<forall>e \<in> set (pt_below hash t). length e < 2 ^ 32 \<and> length (hash e) = 32 \<and> get (hash e) = Some e)"

lemma has_below_child:
  assumes "\<forall>e \<in> set (pt_below hash t @ own_bytes (pt_node hash t)).
      length e < 2 ^ 32 \<and> length (hash e) = 32 \<and> get (hash e) = Some e"
  shows "has_below get hash t" and "length (pt_node hash t) < 2 ^ 32"
    and "32 \<le> length (pt_node hash t) \<Longrightarrow>
      length (hash (pt_node hash t)) = 32 \<and> get (hash (pt_node hash t)) = Some (pt_node hash t)"
  using assms by (auto simp: has_below_def own_bytes_def split: if_splits)

text \<open>A child in its parent.\<close>

lemma child_item:
  assumes below: "\<forall>e \<in> set (pt_below hash t @ own_bytes (pt_node hash t)).
      length e < 2 ^ 32 \<and> length (hash e) = 32 \<and> get (hash e) = Some e"
    and rep: "pt_node hash t \<in> range rlp_enc \<and> node_rep get (pt_node hash t) t"
  shows "node_ref hash (pt_node hash t) \<in> range rlp_enc \<and> item_rep get (node_ref hash (pt_node hash t)) t"
proof (cases "32 \<le> length (pt_node hash t)")
  case True
  note h = has_below_child(3) [OF below True]
  have "t \<noteq> PEmpty" using True by auto
  then show ?thesis
    using True hash_item [of "hash (pt_node hash t)"] h rep by (auto simp: node_ref_def intro: rep_Hash)
next
  case False
  have "\<exists>n. node_decoded (pt_node hash t) = Some n" using rep by (auto elim: node_rep.cases)
  then have inline: "item_hash (pt_node hash t) = Some None" using decoded_not_hash by blast
  have "is_empty (pt_node hash t) \<longleftrightarrow> t = PEmpty"
  proof (cases "t = PEmpty")
    case True
    then show ?thesis by (simp add: is_empty_def is_null_def)
  next
    case ne: False
    obtain es where "pt_node hash t = enc_parts es" "concat es \<noteq> []" by (rule pt_node_parts [OF ne])
    then show ?thesis using short_parts_not_empty [of es] False ne by simp
  qed
  then show ?thesis using False rep inline by (auto simp: node_ref_def intro: rep_Inline)
qed

lemma own_slice:
  assumes "nibs_ok k"
  obtains s where "ns_ok s" and "ns_nibs s = k"
  using from_encoded_hex_prefix [OF assms] by blast

lemma enc_parts_range:
  assumes "set es \<subseteq> range rlp_enc" and "length (enc_parts es) < 2 ^ 32"
  shows "enc_parts es \<in> range rlp_enc"
proof -
  have "\<exists>ts. es = map rlp_enc ts" unfolding ex_map_conv using assms(1) by blast
  then obtain ts where "es = map rlp_enc ts" by blast
  then show ?thesis using enc_parts_items(1) [of ts] assms(2) by simp
qed

lemma data_part: "length (enc_parts es) < 2 ^ 32 \<Longrightarrow> code_enc (RData b) \<in> set es \<Longrightarrow> code_enc (RData b) \<in> range rlp_enc"
  by (metis code_enc_RData_short rangeI)

lemma value_part_eq: "value_part v = code_enc (RData (case v of None \<Rightarrow> [] | Some v \<Rightarrow> v))"
  by (simp add: value_part_def code_enc.simps code_header_def split: option.split)

lemma pt_node_rep:
  "canon t \<Longrightarrow> length (pt_node hash t) < 2 ^ 32 \<Longrightarrow> has_below get hash t \<Longrightarrow>
     pt_node hash t \<in> range rlp_enc \<and> node_rep get (pt_node hash t) t"
proof (induction t)
  case PEmpty
  have "[0x80] = rlp_enc (RData [])" by (simp add: rlp_enc.simps rlp_header_def)
  then show ?case using node_decoded_Empty by (auto intro: rep_Empty)
next
  case (PLeaf k v)
  obtain s where s: "ns_ok s" "ns_nibs s = k" using own_slice [of k] PLeaf.prems(1) by auto
  have enc: "node_encoded (Leaf s v) = Some (pt_node hash (PLeaf k v))" using node_encoded_Leaf [OF s(1)] s(2) by simp
  obtain n where n: "node_decoded (pt_node hash (PLeaf k v)) = Some n" "node_eq (Leaf s v) n"
    using node_roundtrip [OF _ enc PLeaf.prems(2)] s(1) by auto
  obtain s' where s': "n = Leaf s' v" "ns_eq s s' = Some True" using n(2) by (cases n) auto
  have "ns_ok s'" using node_decoded_wf [OF n(1)] s'(1) by (simp add: node_wf_def)
  then have "ns_nibs s' = k" using s'(2) s ns_eq_nibs by simp
  then have "node_rep get (pt_node hash (PLeaf k v)) (PLeaf k v)" using rep_Leaf [OF n(1) [unfolded s'(1)]] by metis
  moreover have "pt_node hash (PLeaf k v) \<in> range rlp_enc"
    using PLeaf.prems(2) data_part unfolding pt_node.simps by (intro enc_parts_range) auto
  ultimately show ?case by blast
next
  case (PExt k t)
  have t: "canon t" "\<forall>e \<in> set (pt_below hash t @ own_bytes (pt_node hash t)).
      length e < 2 ^ 32 \<and> length (hash e) = 32 \<and> get (hash e) = Some e"
    using PExt.prems by (simp_all add: has_below_def)
  let ?c = "node_ref hash (pt_node hash t)"
  have c: "?c \<in> range rlp_enc" "item_rep get ?c t"
    using child_item [OF t(2) PExt.IH [OF t(1) has_below_child(2,1) [OF t(2)]]] by simp_all
  obtain s where s: "ns_ok s" "ns_nibs s = k" using own_slice [of k] PExt.prems(1) by auto
  have enc: "node_encoded (Extension s ?c) = Some (pt_node hash (PExt k t))"
    using node_encoded_Extension [OF s(1)] s(2) by simp
  obtain n where n: "node_decoded (pt_node hash (PExt k t)) = Some n" "node_eq (Extension s ?c) n"
    using node_roundtrip [OF _ enc PExt.prems(2)] s(1) c(1) by auto
  obtain s' where s': "n = Extension s' ?c" "ns_eq s s' = Some True" using n(2) by (cases n) auto
  have "ns_ok s'" using node_decoded_wf [OF n(1)] s'(1) by (simp add: node_wf_def)
  then have "ns_nibs s' = k" using s'(2) s ns_eq_nibs by simp
  then have "node_rep get (pt_node hash (PExt k t)) (PExt k t)" using rep_Ext [OF n(1) [unfolded s'(1)] c(2)] by metis
  moreover have "pt_node hash (PExt k t) \<in> range rlp_enc"
    using PExt.prems(2) data_part c(1) unfolding pt_node.simps by (intro enc_parts_range) auto
  ultimately show ?case by blast
next
  case (PBranch ts v)
  let ?r = "\<lambda>t. node_ref hash (pt_node hash t)"
  have c: "?r t \<in> range rlp_enc \<and> item_rep get (?r t) t" if t: "t \<in> set ts" for t
  proof -
    have "canon t" "\<forall>e \<in> set (pt_below hash t @ own_bytes (pt_node hash t)).
        length e < 2 ^ 32 \<and> length (hash e) = 32 \<and> get (hash e) = Some e"
      using PBranch.prems(1,3) t by (auto simp: has_below_def)
    then show ?thesis using child_item PBranch.IH [OF t] has_below_child(2,1) by metis
  qed
  have len: "length ts = 16" "v \<noteq> Some []" using PBranch.prems(1) by simp_all
  have enc: "node_encoded (Branch (map ?r ts) v) = Some (pt_node hash (PBranch ts v))"
    using node_encoded_Branch [of "map ?r ts" v] len(1) by (cases v) (simp_all add: value_part_def)
  have "node_ok (Branch (map ?r ts) v)" using len c by auto
  from node_roundtrip [OF this enc PBranch.prems(2)] obtain n where
    n: "node_decoded (pt_node hash (PBranch ts v)) = Some n" "node_eq (Branch (map ?r ts) v) n" by blast
  have "n = Branch (map ?r ts) v" using n(2) by (cases n) auto
  moreover have "list_all2 (item_rep get) (map ?r ts) ts" using c by (simp add: list_all2_conv_all_nth)
  ultimately have "node_rep get (pt_node hash (PBranch ts v)) (PBranch ts v)" using n(1) rep_Branch by blast
  moreover have "pt_node hash (PBranch ts v) \<in> range rlp_enc"
    using PBranch.prems(2) data_part c unfolding pt_node.simps value_part_eq by (intro enc_parts_range) auto
  ultimately show ?case by blast
qed

section \<open>The store after a commit\<close>

text \<open>The encodings of a trie can be told apart by their hashes, and fit the widths of the code.\<close>

definition fits :: "(bytes \<Rightarrow> bytes) \<Rightarrow> ptrie \<Rightarrow> bool" where
  "fits hash t \<longleftrightarrow>
     inj_on hash (set (pt_below hash t @ [pt_node hash t])) \<and>
     (\<forall>e \<in> set (pt_below hash t @ [pt_node hash t]).
        length e < 2 ^ 32 \<and> length (hash e) = 32 \<and> hash e \<noteq> BLAKE2B_NULL_RLP) \<and>
     int (length (pt_below hash t @ [pt_node hash t])) < 2 ^ 31 - 1"

lemma insert_all_memory:
  "insert_all (memory_ops hash) vals m = fold (store_step (mdb_insert hash) mdb_remove) (map Insert_Value vals) m"
  by (induction vals arbitrary: m) (simp_all add: insert_all_def memory_ops_def)

lemma inserted_values:
  "insert_all (memory_ops hash) vals m k = Some (v, rc) \<Longrightarrow> v \<in> set vals \<or> (\<exists>rc. m k = Some (v, rc))"
proof (induction vals arbitrary: m)
  case (Cons w vals)
  have "v \<in> set vals \<or> (\<exists>rc. snd (mdb_insert hash m w) k = Some (v, rc))"
    using Cons by (simp add: insert_all_def memory_ops_def)
  moreover have "v = w \<or> (\<exists>rc. m k = Some (v, rc))" if "snd (mdb_insert hash m w) k = Some (v, rc)" for rc
    using that by (auto simp: mdb_insert_def bump_entry_def Let_def split: if_splits option.splits)
  ultimately show ?case by auto
qed (simp add: insert_all_def)

lemma tally_inserts: "v \<in> set vals \<Longrightarrow> v \<noteq> NULL_RLP \<Longrightarrow> 0 < tally hash (map Insert_Value vals) (hash v)"
proof -
  have nonneg: "0 \<le> tally hash (map Insert_Value vals) k" for vals k
    by (induction vals) auto
  show "v \<in> set vals \<Longrightarrow> v \<noteq> NULL_RLP \<Longrightarrow> 0 < tally hash (map Insert_Value vals) (hash v)"
    using nonneg by (induction vals) (auto simp: add_pos_nonneg)
qed

lemma inserted_get:
  assumes "inj_on hash (set vals)" and "int (length vals) < 2 ^ 31 - 1"
    and "v \<in> set vals" and "v \<noteq> NULL_RLP" and "hash v \<noteq> BLAKE2B_NULL_RLP"
  shows "mdb_get (insert_all (memory_ops hash) vals mdb_new) (hash v) = Some v"
proof -
  note store = memory_db_store [of hash]
  have new: "mdb_ok hash mdb_new" "\<And>k. mdb_count mdb_new k = 0" by (simp_all add: mdb_ok_def mdb_new_def mdb_count_def)
  note run = hash_store.run_lookup [OF store, OF new, of "map Insert_Value vals" "hash v", folded insert_all_memory]
  obtain w where w: "mdb_get (insert_all (memory_ops hash) vals mdb_new) (hash v) = Some w"
    using run(1) assms tally_inserts [OF assms(3,4), of hash] by auto
  have "hash w = hash v" using run(2) [OF _ assms(5)] w assms(2) by simp
  moreover have "w \<in> set vals"
    using w inserted_values [of hash vals mdb_new "hash v" w] assms(5)
    by (auto simp: mdb_get_def mdb_new_def split: option.splits if_splits)
  ultimately show ?thesis using w assms(1,3) by (auto dest: inj_onD)
qed

lemma trie_get_rep:
  assumes "td_get t (td_root t) = Some d" and "node_rep (td_get t) d p"
  shows "trie_get (trie_get_with t) key = Some (Ok (pt_lookup p (nibbles key)))"
  using look_up_rep [OF map_le_refl assms plain_key_new, of "\<lambda>v. v" key] assms(1)
  by (auto simp: answers_def option.map_ident trie_get_def trie_get_with_def)

lemma mdb_null_buried: "set dead \<subseteq> {BLAKE2B_NULL_RLP} \<Longrightarrow> buried (memory_ops hash) dead m = m"
  by (induction dead) (auto simp: buried_def memory_ops_def mdb_remove_def)

lemma dom_mdb_new: "dom (mdb_get mdb_new) = {BLAKE2B_NULL_RLP}"
  by (auto simp: mdb_get_def mdb_new_def split: if_splits)

lemma pt_below_not_null:
  assumes "e \<in> set (pt_below hash t)"
  shows "e \<noteq> NULL_RLP"
proof -
  have "32 \<le> length e" using assms by (induction hash t rule: pt_below.induct) (auto simp: own_bytes_def split: if_splits)
  then show ?thesis by (auto simp: NULL_RLP_def)
qed

lemma committed_store:
  assumes "fits hash t" and "t \<noteq> PEmpty" and "canon t"
  defines "m \<equiv> insert_all (memory_ops hash) (pt_below hash t @ [pt_node hash t]) mdb_new"
  shows "mdb_get m (hash (pt_node hash t)) = Some (pt_node hash t)" and "node_rep (mdb_get m) (pt_node hash t) t"
proof -
  let ?vals = "pt_below hash t @ [pt_node hash t]"
  have all: "inj_on hash (set ?vals)" "int (length ?vals) < 2 ^ 31 - 1"
    using assms(1) by (simp_all add: fits_def)
  have each: "length e < 2 ^ 32 \<and> length (hash e) = 32 \<and> hash e \<noteq> BLAKE2B_NULL_RLP" if "e \<in> set ?vals" for e
    using assms(1) that unfolding fits_def by auto
  have root: "length (pt_node hash t) < 2 ^ 32" using each [of "pt_node hash t"] by simp
  have not_null: "e \<noteq> NULL_RLP" if "e \<in> set ?vals" for e
    using that pt_below_not_null [of e hash t] pt_node_not_null [OF assms(2) root] by (auto simp: NULL_RLP_def)
  have get: "mdb_get m (hash e) = Some e" if "e \<in> set ?vals" for e
    using inserted_get [OF all that not_null [OF that]] each [OF that] by (simp add: m_def)
  then show "mdb_get m (hash (pt_node hash t)) = Some (pt_node hash t)" by simp
  have "has_below (mdb_get m) hash t" unfolding has_below_def using each get by simp
  then show "node_rep (mdb_get m) (pt_node hash t) t" using pt_node_rep [OF assms(3) root] by blast
qed

section \<open>Properties\<close>

text \<open>C4. What \<open>commit\<close> writes can be read again. Updates of a new trie over an empty \<open>MemoryDB\<close>, then
  \<open>root\<close>: the read-only \<open>TrieDB\<close> opened over the store at the returned root answers every key as the
  map does, and \<open>from_existing\<close> at that root opens a mutable trie that is again that map under any
  further updates. Assumed of the hash function is only what \<open>fits\<close> says: on the nodes of this
  trie it has 32 bytes, no collisions, and is not the hash of the empty trie; no node has 4 GiB.\<close>

theorem commit_reopens:
  assumes "canon t" and "pt_lookup t = of_keys (fold kv_step ops Map.empty)" and "t \<noteq> PEmpty" and "fits hash t"
    and "hash NULL_RLP = BLAKE2B_NULL_RLP"
  shows "\<exists>s. mut_run (memory_ops hash) ops (trie_mut_new mdb_new) = Some (Ok (kv_olds ops Map.empty), s) \<and>
    tm_death_row s \<subseteq> {BLAKE2B_NULL_RLP} \<and>
    (\<forall>dead. set dead = tm_death_row s \<longrightarrow>
       (\<exists>root s' t' u. trie_mut_root (memory_ops hash) dead s = Some (root, s') \<and>
          trie_db_new (mdb_get (tm_db s')) (mdb_contains (tm_db s')) root = Ok t' \<and>
          (\<forall>key. trie_get (trie_get_with t') key = Some (Ok (fold kv_step ops Map.empty key))) \<and>
          trie_mut_from_existing (memory_ops hash) (tm_db s') root = Ok u \<and>
          (\<forall>ops'. \<exists>u'. mut_run (memory_ops hash) ops' u = Some (Ok (kv_olds ops' (fold kv_step ops Map.empty)), u') \<and>
             (\<forall>key. trie_mut_get (memory_ops hash) u' key =
                Some (Ok (fold kv_step ops' (fold kv_step ops Map.empty) key))))))"
proof -
  let ?D = "memory_ops hash" and ?root = "hash (pt_node hash t)"
  let ?m = "insert_all ?D (pt_below hash t @ [pt_node hash t]) mdb_new"
  note stored = committed_store [OF assms(4,3,1)]
  have root: "?root \<noteq> BLAKE2B_NULL_RLP" using assms(4) by (simp add: fits_def)
  have contains: "mdb_contains ?m ?root"
    using stored(1) root by (auto simp: mdb_get_def mdb_contains_def split: option.splits if_splits)
  obtain s where s: "mut_run ?D ops (trie_mut_new mdb_new) = Some (Ok (kv_olds ops Map.empty), s)"
    "tm_death_row s \<subseteq> dom (hs_get ?D mdb_new)"
    "\<And>dead. \<exists>s'. trie_mut_root ?D dead s = Some (?root, s') \<and> tm_death_row s' = {} \<and>
      (t \<noteq> PEmpty \<longrightarrow> tm_db s' = insert_all ?D (pt_below hash t @ [pt_node hash t]) (buried ?D dead mdb_new))"
    by (rule commit_run_new [OF _ memory_hash_law [of hash, OF assms(5)] assms(5,1,2), of mdb_new]) (simp, blast)
  let ?t' = "\<lparr>td_get = mdb_get ?m, td_contains = mdb_contains ?m, td_root = ?root, td_hash_count = 0\<rparr>"
  have reads: "trie_get (trie_get_with ?t') key = Some (Ok (fold kv_step ops Map.empty key))" for key
    using trie_get_rep [of ?t' "pt_node hash t" t key] stored assms(2) by simp
  have existing: "trie_mut_from_existing ?D ?m ?root = Ok (trie_mut_at ?m ?root)"
    using contains by (simp add: trie_mut_from_existing_def memory_ops_def)
  have "stored_at (mdb_get ?m) ?root t" using stored by (auto simp: stored_at_def)
  moreover have "stored_at (mdb_get ?m) BLAKE2B_NULL_RLP PEmpty"
    by (auto simp: stored_at_def NULL_RLP_def intro: rep_Empty node_decoded_Empty)
  ultimately have open_rep: "map_rep ?D (stored_at (mdb_get ?m)) (fold kv_step ops Map.empty) (trie_mut_at ?m ?root)"
    unfolding map_rep_def using trie_rep_at [of ?D ?m "stored_at (mdb_get ?m)" ?root t] assms(1-3) root stored.node_source_axioms
    by auto
  have again: "\<exists>u'. mut_run ?D ops' (trie_mut_at ?m ?root) =
      Some (Ok (kv_olds ops' (fold kv_step ops Map.empty)), u') \<and>
      (\<forall>key. trie_mut_get ?D u' key = Some (Ok (fold kv_step ops' (fold kv_step ops Map.empty) key)))" for ops'
  proof -
    obtain u' where u': "mut_run ?D ops' (trie_mut_at ?m ?root) =
        Some (Ok (kv_olds ops' (fold kv_step ops Map.empty)), u')"
      "map_rep ?D (stored_at (mdb_get ?m)) (fold kv_step ops' (fold kv_step ops Map.empty)) u'"
      using map_rep_run [OF open_rep, of ops'] by blast
    show ?thesis by (intro exI [of _ u']) (simp add: u'(1) map_rep_get [OF u'(2)])
  qed
  show ?thesis
  proof (intro exI [of _ s] conjI allI impI s(1))
    show "tm_death_row s \<subseteq> {BLAKE2B_NULL_RLP}" using s(2) dom_mdb_new by simp
  next
    fix dead assume "set dead = tm_death_row s"
    then have "buried ?D dead mdb_new = mdb_new" using s(2) dom_mdb_new by (intro mdb_null_buried) simp
    then obtain s' where s': "trie_mut_root ?D dead s = Some (?root, s')" "tm_db s' = ?m"
      using s(3) [of dead] assms(3) by auto
    have "trie_db_new (mdb_get ?m) (mdb_contains ?m) ?root = Ok ?t'" using contains by (simp add: trie_db_new_def)
    then show "\<exists>root s' t' u. trie_mut_root ?D dead s = Some (root, s') \<and>
          trie_db_new (mdb_get (tm_db s')) (mdb_contains (tm_db s')) root = Ok t' \<and>
          (\<forall>key. trie_get (trie_get_with t') key = Some (Ok (fold kv_step ops Map.empty key))) \<and>
          trie_mut_from_existing ?D (tm_db s') root = Ok u \<and>
          (\<forall>ops'. \<exists>u'. mut_run ?D ops' u = Some (Ok (kv_olds ops' (fold kv_step ops Map.empty)), u') \<and>
             (\<forall>key. trie_mut_get ?D u' key = Some (Ok (fold kv_step ops' (fold kv_step ops Map.empty) key))))"
      using s' reads existing again
      by (intro exI [of _ ?root] exI [of _ s'] exI [of _ ?t'] exI [of _ "trie_mut_at ?m ?root"]) simp
  qed
qed

lemma sample_leaf_fits: "fits sample_hash (PLeaf (nibbles [0xab]) [7])"
proof -
  have "length (pt_node sample_hash (PLeaf (nibbles [0xab]) [7])) < 2 ^ 32"
    by (simp add: enc_parts_def hex_prefix_def code_header_def code_enc.simps)
  moreover have "replicate 32 x \<noteq> BLAKE2B_NULL_RLP" for x
    by (simp add: BLAKE2B_NULL_RLP_def numeral_eq_Suc)
  moreover have "BLAKE2B_NULL_RLP \<noteq> []" by (simp add: BLAKE2B_NULL_RLP_def)
  moreover have "pt_node sample_hash (PLeaf (nibbles [0xab]) [7]) \<noteq> NULL_RLP"
    using pt_node_not_null [of "PLeaf (nibbles [0xab]) [7]" sample_hash] calculation(1) by (simp add: NULL_RLP_def)
  ultimately show ?thesis by (simp add: fits_def sample_hash_def del: pt_node.simps nibbles.simps)
qed

theorem commit_reopens_witness:
  "\<exists>s dead root s' t'. mut_run (memory_ops sample_hash) [Put [0xab] [7]] (trie_mut_new mdb_new) = Some (Ok [None], s) \<and>
    set dead = tm_death_row s \<and> trie_mut_root (memory_ops sample_hash) dead s = Some (root, s') \<and>
    trie_db_new (mdb_get (tm_db s')) (mdb_contains (tm_db s')) root = Ok t' \<and>
    trie_get (trie_get_with t') [0xab] = Some (Ok (Some [7]))"
proof -
  let ?D = "memory_ops sample_hash" and ?t = "PLeaf (nibbles [0xab]) [7]"
  have t: "canon ?t" "pt_lookup ?t = of_keys (fold kv_step [Put [0xab] [7]] Map.empty)"
    using single_leaf_keys [of "[0xab]" "[7]"] nibbles_less [of _ "[0xab]"] by (auto simp del: nibbles.simps)
  have olds: "kv_olds [Put [0xab] [7]] Map.empty = [None]" and
    "fold kv_step [Put [0xab] [7]] Map.empty [0xab] = Some [7]" by simp_all
  note run = commit_reopens [OF t _ sample_leaf_fits sample_hash_null, unfolded olds this(2)]
  obtain s where s: "mut_run ?D [Put [0xab] [7]] (trie_mut_new mdb_new) = Some (Ok [None], s)"
    "tm_death_row s \<subseteq> {BLAKE2B_NULL_RLP}" and
    commit: "\<forall>dead. set dead = tm_death_row s \<longrightarrow> (\<exists>root s' t' u. trie_mut_root ?D dead s = Some (root, s') \<and>
      trie_db_new (mdb_get (tm_db s')) (mdb_contains (tm_db s')) root = Ok t' \<and>
      (\<forall>key. trie_get (trie_get_with t') key = Some (Ok (fold kv_step [Put [0xab] [7]] Map.empty key))) \<and>
      trie_mut_from_existing ?D (tm_db s') root = Ok u \<and> (\<forall>ops'. \<exists>u'. mut_run ?D ops' u = Some (Ok (kv_olds ops' (fold kv_step [Put [0xab] [7]] Map.empty)), u') \<and>
        (\<forall>key. trie_mut_get ?D u' key = Some (Ok (fold kv_step ops' (fold kv_step [Put [0xab] [7]] Map.empty) key)))))"
    using run [OF ptrie.distinct(2)] by blast
  obtain dead where dead: "set dead = tm_death_row s"
    using s(2) by (metis empty_set list.simps(15) subset_singletonD)
  then obtain root s' t' where "trie_mut_root ?D dead s = Some (root, s')"
    "trie_db_new (mdb_get (tm_db s')) (mdb_contains (tm_db s')) root = Ok t'"
    "\<forall>key. trie_get (trie_get_with t') key = Some (Ok (fold kv_step [Put [0xab] [7]] Map.empty key))"
    using commit by blast
  then show ?thesis using s(1) dead by (intro exI [of _ s] exI [of _ dead] exI [of _ root] exI [of _ s'] exI [of _ t']) simp
qed

end
