(* ===== verification/Kvdb.thy ===== *)
theory Kvdb
  imports Prelude "HOL-Library.List_Lexorder"
begin

text \<open>
  Key-value databases: \<open>db/core/src/dbtransaction.rs\<close>, \<open>db/core/src/mockkvdb.rs\<close> and the
  repository of named databases of \<open>db/core/src/dbrepository.rs\<close> (\<open>MockDbRepository\<close> and
  the macro \<open>impl_keyvaluedb\<close>).

  A \<open>BTreeMap\<close> is a list of pairs sorted by key; a \<open>HashMap\<close> of databases is a partial map
  from names; the \<open>MultiMap\<close> of a transaction gives each database its operations in the order
  they were added.  The trait \<open>KeyValueDAO\<close> is the locale \<open>kv_dao\<close>; what a batch of operations
  does is proved in it: the last operation on a key wins.
\<close>

section \<open>Transactions\<close>

datatype db_op = DB_Insert bytes bytes | DB_Delete bytes

fun db_op_key :: "db_op \<Rightarrow> bytes" where
  "db_op_key (DB_Insert key value) = key"
| "db_op_key (DB_Delete key) = key"

type_synonym db_transaction = "string \<rightharpoonup> db_op list"

definition tx_new :: db_transaction where
  "tx_new = Map.empty"

definition multimap_insert :: "db_transaction \<Rightarrow> string \<Rightarrow> db_op \<Rightarrow> db_transaction" where
  "multimap_insert tx name op =
     tx(name \<mapsto> (case tx name of Some ops \<Rightarrow> ops @ [op] | None \<Rightarrow> [op]))"

definition tx_put :: "db_transaction \<Rightarrow> string \<Rightarrow> bytes \<Rightarrow> bytes \<Rightarrow> db_transaction" where
  "tx_put tx name key value = multimap_insert tx name (DB_Insert key value)"

definition tx_delete :: "db_transaction \<Rightarrow> string \<Rightarrow> bytes \<Rightarrow> db_transaction" where
  "tx_delete tx name key = multimap_insert tx name (DB_Delete key)"

text \<open>\<open>MultiMap::get\<close> returns the first value of a key.\<close>

definition tx_get :: "db_transaction \<Rightarrow> string \<Rightarrow> db_op option" where
  "tx_get tx name = (case tx name of Some (op # _) \<Rightarrow> Some op | _ \<Rightarrow> None)"

definition tx_get_vec :: "db_transaction \<Rightarrow> string \<Rightarrow> db_op list option" where
  "tx_get_vec tx name = tx name"

definition tx_contains_db :: "db_transaction \<Rightarrow> string \<Rightarrow> bool" where
  "tx_contains_db tx name \<longleftrightarrow> tx name \<noteq> None"

section \<open>\<open>Mockkvdb\<close>\<close>

type_synonym mockkvdb = "(bytes \<times> bytes) list"

fun btree_insert :: "bytes \<Rightarrow> bytes \<Rightarrow> mockkvdb \<Rightarrow> bytes option \<times> mockkvdb" where
  "btree_insert k v [] = (None, [(k, v)])"
| "btree_insert k v ((k', v') # xs) =
     (if k = k' then (Some v', (k, v) # xs)
      else if k < k' then (None, (k, v) # (k', v') # xs)
      else (case btree_insert k v xs of (old, xs) \<Rightarrow> (old, (k', v') # xs)))"

fun btree_remove :: "bytes \<Rightarrow> mockkvdb \<Rightarrow> bytes option \<times> mockkvdb" where
  "btree_remove k [] = (None, [])"
| "btree_remove k ((k', v') # xs) =
     (if k = k' then (Some v', xs)
      else (case btree_remove k xs of (old, xs) \<Rightarrow> (old, (k', v') # xs)))"

definition mock_new :: mockkvdb where
  "mock_new = []"

definition mock_get :: "mockkvdb \<Rightarrow> bytes \<Rightarrow> bytes option" where
  "mock_get db k = map_of db k"

definition mock_put :: "mockkvdb \<Rightarrow> bytes \<Rightarrow> bytes \<Rightarrow> bytes option \<times> mockkvdb" where
  "mock_put db k v = btree_insert k v db"

definition mock_delete :: "mockkvdb \<Rightarrow> bytes \<Rightarrow> bytes option \<times> mockkvdb" where
  "mock_delete db k = btree_remove k db"

definition mock_iter :: "mockkvdb \<Rightarrow> (bytes \<times> bytes) list" where
  "mock_iter db = db"

definition starts_with :: "bytes \<Rightarrow> bytes \<Rightarrow> bool" where
  "starts_with k prefix \<longleftrightarrow> take (length prefix) k = prefix"

definition mock_get_by_prefix :: "mockkvdb \<Rightarrow> bytes \<Rightarrow> bytes option" where
  "mock_get_by_prefix db prefix = map_option snd (find (\<lambda>(k, _). starts_with k prefix) db)"

definition mock_iter_from_prefix :: "mockkvdb \<Rightarrow> bytes \<Rightarrow> (bytes \<times> bytes) list" where
  "mock_iter_from_prefix db prefix = dropWhile (\<lambda>(k, _). \<not> starts_with k prefix) db"

section \<open>The repository\<close>

datatype db_error = NotFound string

record mock_repository =
  repo_dbs :: "string \<rightharpoonup> mockkvdb"
  repo_configs :: "string list"

definition repo_init :: "string list \<Rightarrow> mock_repository" where
  "repo_init configs =
     \<lparr>repo_dbs = fold (\<lambda>name dbs. dbs(name \<mapsto> mock_new)) configs Map.empty, repo_configs = configs\<rparr>"

definition repo_close_all :: "mock_repository \<Rightarrow> mock_repository" where
  "repo_close_all r = r\<lparr>repo_dbs := Map.empty\<rparr>"

definition repo_open_all :: "mock_repository \<Rightarrow> mock_repository" where
  "repo_open_all r =
     (let r = repo_close_all r
      in r\<lparr>repo_dbs := fold (\<lambda>name dbs. dbs(name \<mapsto> mock_new)) (repo_configs r) (repo_dbs r)\<rparr>)"

definition repo_get :: "mock_repository \<Rightarrow> string \<Rightarrow> bytes \<Rightarrow> (db_error, bytes option) outcome" where
  "repo_get r name key =
     (case repo_dbs r name of Some db \<Rightarrow> Ok (mock_get db key) | None \<Rightarrow> Err (NotFound name))"

definition apply_db_op :: "db_op \<Rightarrow> mockkvdb \<Rightarrow> mockkvdb" where
  "apply_db_op op db =
     (case op of DB_Delete key \<Rightarrow> snd (mock_delete db key)
      | DB_Insert key value \<Rightarrow> snd (mock_put db key value))"

text \<open>One turn of the outer loop of \<open>write_buffered\<close>: all operations on one database.  An
  unknown database is logged and skipped.\<close>

definition write_one_db :: "db_transaction \<Rightarrow> string \<Rightarrow> mock_repository \<Rightarrow> mock_repository" where
  "write_one_db tx name r =
     (case repo_dbs r name of
        Some db \<Rightarrow>
          (let ops = (case tx_get_vec tx name of Some ops \<Rightarrow> ops | None \<Rightarrow> [])
           in r\<lparr>repo_dbs := (repo_dbs r)(name \<mapsto> fold apply_db_op ops db)\<rparr>)
      | None \<Rightarrow> r)"

text \<open>The loop visits the names of the transaction in the order of a hash map, any order.\<close>

definition write_buffered :: "db_transaction \<Rightarrow> string list \<Rightarrow> mock_repository \<Rightarrow> mock_repository" where
  "write_buffered tx names r = fold (write_one_db tx) names r"

definition repo_iter :: "mock_repository \<Rightarrow> string \<Rightarrow> (bytes \<times> bytes) list" where
  "repo_iter r name = (case repo_dbs r name of Some db \<Rightarrow> mock_iter db | None \<Rightarrow> [])"

definition repo_get_by_prefix :: "mock_repository \<Rightarrow> string \<Rightarrow> bytes \<Rightarrow> bytes option" where
  "repo_get_by_prefix r name prefix =
     (case repo_dbs r name of Some db \<Rightarrow> mock_get_by_prefix db prefix | None \<Rightarrow> None)"

definition repo_iter_from_prefix :: "mock_repository \<Rightarrow> string \<Rightarrow> bytes \<Rightarrow> (bytes \<times> bytes) list" where
  "repo_iter_from_prefix r name prefix =
     (case repo_dbs r name of Some db \<Rightarrow> mock_iter_from_prefix db prefix | None \<Rightarrow> [])"

section \<open>The contract of a key-value database\<close>

text \<open>What a list of operations leaves under a key: the last operation on it, if any.\<close>

fun last_op :: "db_op list \<Rightarrow> bytes \<Rightarrow> bytes option \<Rightarrow> bytes option" where
  "last_op [] k old = old"
| "last_op (DB_Insert k' v # ops) k old = last_op ops k (if k = k' then Some v else old)"
| "last_op (DB_Delete k' # ops) k old = last_op ops k (if k = k' then None else old)"

locale kv_dao =
  fixes ok :: "'d \<Rightarrow> bool"
    and get :: "'d \<Rightarrow> bytes \<Rightarrow> bytes option"
    and put_pair :: "'d \<Rightarrow> bytes \<Rightarrow> bytes \<Rightarrow> bytes option \<times> 'd"
    and delete_key :: "'d \<Rightarrow> bytes \<Rightarrow> bytes option \<times> 'd"
  assumes put_spec: "ok d \<Longrightarrow> \<exists>d'. put_pair d k v = (get d k, d') \<and> ok d' \<and> get d' = (get d)(k \<mapsto> v)"
    and delete_spec: "ok d \<Longrightarrow> \<exists>d'. delete_key d k = (get d k, d') \<and> ok d' \<and> get d' = (get d)(k := None)"
begin

fun run_op :: "db_op \<Rightarrow> 'd \<Rightarrow> 'd" where
  "run_op (DB_Insert k v) d = snd (put_pair d k v)"
| "run_op (DB_Delete k) d = snd (delete_key d k)"

lemma run_op_spec: "ok d \<Longrightarrow> ok (run_op op d) \<and> get (run_op op d) k = last_op [op] k (get d k)"
proof (cases op)
  case (DB_Insert k' v)
  assume "ok d"
  then obtain d' where "put_pair d k' v = (get d k', d')" "ok d'" "get d' = (get d)(k' \<mapsto> v)"
    using put_spec by blast
  then show ?thesis using DB_Insert by simp
next
  case (DB_Delete k')
  assume "ok d"
  then obtain d' where "delete_key d k' = (get d k', d')" "ok d'" "get d' = (get d)(k' := None)"
    using delete_spec by blast
  then show ?thesis using DB_Delete by simp
qed

lemma last_op_Cons: "last_op (op # ops) k old = last_op ops k (last_op [op] k old)"
  by (cases op) auto

lemma run_ops_spec: "ok d \<Longrightarrow> ok (fold run_op ops d) \<and> get (fold run_op ops d) k = last_op ops k (get d k)"
proof (induction ops arbitrary: d)
  case (Cons op ops)
  then show ?case using run_op_spec [OF Cons.prems, of op k] by (simp add: last_op_Cons [of op ops])
qed simp

end

section \<open>\<open>Mockkvdb\<close> is a key-value database\<close>

definition mock_ok :: "mockkvdb \<Rightarrow> bool" where
  "mock_ok db \<longleftrightarrow> sorted_wrt (<) (map fst db)"

lemma btree_insert_keys: "set (map fst (snd (btree_insert k v db))) = insert k (set (map fst db))"
proof (induction db)
  case (Cons p db)
  then show ?case by (cases p; cases "k = fst p"; cases "k < fst p") (auto simp: split_def insert_commute)
qed simp

lemma btree_insert_ok:
  assumes "mock_ok db"
  shows "fst (btree_insert k v db) = map_of db k" and "mock_ok (snd (btree_insert k v db))"
    and "map_of (snd (btree_insert k v db)) = (map_of db)(k \<mapsto> v)"
proof -
  have "fst (btree_insert k v db) = map_of db k \<and> mock_ok (snd (btree_insert k v db)) \<and>
      map_of (snd (btree_insert k v db)) = (map_of db)(k \<mapsto> v)"
    using assms
  proof (induction db)
    case Nil
    then show ?case by (simp add: mock_ok_def)
  next
    case (Cons p db)
    obtain k' v' where p: "p = (k', v')" by (cases p)
    have less: "\<forall>x \<in> set (map fst db). k' < x" and ok: "mock_ok db"
      using Cons.prems by (auto simp: mock_ok_def p)
    consider "k = k'" | "k < k'" | "k' < k" by (rule linorder_cases) auto
    then show ?case
    proof cases
      case 1
      then show ?thesis using Cons.prems by (simp add: p mock_ok_def fun_eq_iff)
    next
      case 2
      then have "map_of db k = None" using less by (auto simp: map_of_eq_None_iff)
      then show ?thesis using 2 less Cons.prems by (auto simp: p mock_ok_def fun_eq_iff)
    next
      case 3
      then show ?thesis
        using Cons.IH [OF ok] less btree_insert_keys [of k v db] ok
        by (auto simp: p mock_ok_def split_def fun_eq_iff)
    qed
  qed
  then show "fst (btree_insert k v db) = map_of db k" "mock_ok (snd (btree_insert k v db))"
    "map_of (snd (btree_insert k v db)) = (map_of db)(k \<mapsto> v)" by auto
qed

lemma btree_remove_ok:
  assumes "mock_ok db"
  shows "fst (btree_remove k db) = map_of db k" and "mock_ok (snd (btree_remove k db))"
    and "map_of (snd (btree_remove k db)) = (map_of db)(k := None)"
proof -
  have "fst (btree_remove k db) = map_of db k \<and> mock_ok (snd (btree_remove k db)) \<and>
      set (map fst (snd (btree_remove k db))) \<subseteq> set (map fst db) \<and>
      map_of (snd (btree_remove k db)) = (map_of db)(k := None)"
    using assms
  proof (induction db)
    case Nil
    then show ?case by (simp add: mock_ok_def)
  next
    case (Cons p db)
    obtain k' v' where p: "p = (k', v')" by (cases p)
    have less: "\<forall>x \<in> set (map fst db). k' < x" and ok: "mock_ok db"
      using Cons.prems by (auto simp: mock_ok_def p)
    show ?case
    proof (cases "k = k'")
      case True
      then have "map_of db k = None" using less by (auto simp: map_of_eq_None_iff)
      then show ?thesis using True ok by (auto simp: p fun_eq_iff)
    next
      case False
      have "\<forall>x \<in> set (map fst (snd (btree_remove k db))). k' < x"
        using Cons.IH [OF ok] less by blast
      with False show ?thesis
        using Cons.IH [OF ok] by (auto simp: p mock_ok_def split_def fun_eq_iff)
    qed
  qed
  then show "fst (btree_remove k db) = map_of db k" "mock_ok (snd (btree_remove k db))"
    "map_of (snd (btree_remove k db)) = (map_of db)(k := None)" by auto
qed

interpretation mockdb: kv_dao mock_ok mock_get mock_put mock_delete
proof
  show "\<exists>d'. mock_put d k v = (mock_get d k, d') \<and> mock_ok d' \<and> mock_get d' = (mock_get d)(k \<mapsto> v)"
    if "mock_ok d" for d k v
    using btree_insert_ok [OF that, of k v] by (cases "btree_insert k v d") (simp add: mock_put_def mock_get_def fun_eq_iff)
  show "\<exists>d'. mock_delete d k = (mock_get d k, d') \<and> mock_ok d' \<and> mock_get d' = (mock_get d)(k := None)"
    if "mock_ok d" for d k
    using btree_remove_ok [OF that, of k] by (cases "btree_remove k d") (simp add: mock_delete_def mock_get_def fun_eq_iff)
qed

lemma apply_db_op_run: "apply_db_op = mockdb.run_op"
proof (intro ext)
  show "apply_db_op op db = mockdb.run_op op db" for op db
    by (cases op) (simp_all add: apply_db_op_def)
qed

section \<open>Prefixes\<close>

lemma starts_with_Nil [simp]: "starts_with k []"
  by (simp add: starts_with_def)

lemma starts_with_Cons: "starts_with k (p # ps) \<longleftrightarrow> (\<exists>ks. k = p # ks \<and> starts_with ks ps)"
  by (cases k) (auto simp: starts_with_def)

text \<open>The keys with a prefix are an interval of the order.\<close>

lemma prefix_convex:
  "starts_with a p \<Longrightarrow> starts_with c p \<Longrightarrow> a \<le> b \<Longrightarrow> b \<le> c \<Longrightarrow> starts_with b p"
proof (induction p arbitrary: a b c)
  case (Cons x p)
  obtain as cs where as: "a = x # as" "starts_with as p" and cs: "c = x # cs" "starts_with cs p"
    using Cons.prems(1,2) unfolding starts_with_Cons by blast
  obtain y bs where b: "b = y # bs" using Cons.prems(3) as(1) by (cases b) auto
  have y: "y = x" "as \<le> bs" "bs \<le> cs"
    using Cons.prems(3,4) unfolding as(1) cs(1) b by auto
  have "starts_with bs p" using as(2) cs(2) y(2,3) by (rule Cons.IH)
  then show ?case by (simp add: b y(1) starts_with_Cons)
qed simp

lemma takeWhile_prefix:
  assumes "mock_ok db"
  shows "takeWhile (\<lambda>(k, _). starts_with k p) (dropWhile (\<lambda>(k, _). \<not> starts_with k p) db) =
    filter (\<lambda>(k, _). starts_with k p) db"
  using assms
proof (induction db)
  case (Cons e db)
  obtain k v where e: "e = (k, v)" by (cases e)
  have less: "\<forall>x \<in> set db. k < fst x" and ok: "mock_ok db" using Cons.prems by (auto simp: mock_ok_def e)
  show ?case
  proof (cases "starts_with k p")
    case False
    then show ?thesis using Cons.IH [OF ok] by (simp add: e)
  next
    case True
    have "takeWhile (\<lambda>(k, _). starts_with k p) db = filter (\<lambda>(k, _). starts_with k p) db"
      using less ok
    proof (induction db)
      case (Cons f db)
      obtain k2 v2 where f: "f = (k2, v2)" by (cases f)
      show ?case
      proof (cases "starts_with k2 p")
        case True
        then show ?thesis using Cons by (simp add: f mock_ok_def)
      next
        case False
        have "\<not> starts_with k3 p" if "(k3, v3) \<in> set db" for k3 v3
        proof
          assume "starts_with k3 p"
          moreover have "k2 < k3" "k < k2" using that Cons.prems by (auto simp: f mock_ok_def)
          ultimately show False using prefix_convex [of k p k3 k2] \<open>starts_with k p\<close> False by (simp add: less_imp_le)
        qed
        then have "filter (\<lambda>(k, _). starts_with k p) db = []" by (auto simp: filter_empty_conv)
        then show ?thesis using False by (simp add: f)
      qed
    qed simp
    then show ?thesis using True by (simp add: e)
  qed
qed simp

section \<open>Properties\<close>

lemma write_one_db_get:
  assumes "\<forall>db \<in> ran (repo_dbs r). mock_ok db"
  shows "\<forall>db \<in> ran (repo_dbs (write_one_db tx name r)). mock_ok db"
    and "repo_get (write_one_db tx name r) name' key =
      (case repo_dbs r name' of
         Some db \<Rightarrow> Ok (if name' = name then last_op (case tx name of Some ops \<Rightarrow> ops | None \<Rightarrow> []) key (mock_get db key)
                       else mock_get db key)
       | None \<Rightarrow> Err (NotFound name'))"
proof -
  have ok: "mock_ok db" if "repo_dbs r name = Some db" for db
    using assms that by (auto simp: ran_def)
  show "\<forall>db \<in> ran (repo_dbs (write_one_db tx name r)). mock_ok db"
    using assms ok mockdb.run_ops_spec
    by (auto simp: write_one_db_def apply_db_op_run ran_def split: option.splits if_splits)
  show "repo_get (write_one_db tx name r) name' key =
      (case repo_dbs r name' of
         Some db \<Rightarrow> Ok (if name' = name then last_op (case tx name of Some ops \<Rightarrow> ops | None \<Rightarrow> []) key (mock_get db key)
                       else mock_get db key)
       | None \<Rightarrow> Err (NotFound name'))"
    using ok mockdb.run_ops_spec
    by (auto simp: write_one_db_def repo_get_def tx_get_vec_def apply_db_op_run Let_def split: option.split)
qed

lemma write_buffered_reads:
  assumes "\<forall>db \<in> ran (repo_dbs r). mock_ok db" and "distinct names" and "set names = dom tx"
  shows "repo_get (write_buffered tx names r) name key =
    (case repo_dbs r name of
       Some db \<Rightarrow> Ok (last_op (case tx name of Some ops \<Rightarrow> ops | None \<Rightarrow> []) key (mock_get db key))
     | None \<Rightarrow> Err (NotFound name))"
proof -
  have "repo_get (fold (write_one_db tx) ns r) name key =
      (case repo_dbs r name of
         Some db \<Rightarrow> Ok (if name \<in> set ns then last_op (case tx name of Some ops \<Rightarrow> ops | None \<Rightarrow> []) key (mock_get db key)
                       else mock_get db key)
       | None \<Rightarrow> Err (NotFound name))"
    if "distinct ns" "\<forall>db \<in> ran (repo_dbs r). mock_ok db" for ns r
    using that
  proof (induction ns arbitrary: r)
    case Nil
    then show ?case by (simp add: repo_get_def split: option.split)
  next
    case (Cons n ns)
    note step = write_one_db_get [OF Cons.prems(2), of tx n]
    have "repo_get (fold (write_one_db tx) ns (write_one_db tx n r)) name key =
      (case repo_dbs (write_one_db tx n r) name of
         Some db \<Rightarrow> Ok (if name \<in> set ns then last_op (case tx name of Some ops \<Rightarrow> ops | None \<Rightarrow> []) key (mock_get db key)
                       else mock_get db key)
       | None \<Rightarrow> Err (NotFound name))"
      using Cons step(1) by simp
    with step(2) [of name key] Cons.prems(1) show ?case
      by (auto simp: repo_get_def split: option.splits if_splits)
  qed
  from this [OF assms(2,1)] show ?thesis
    unfolding write_buffered_def assms(3) by (auto split: option.split)
qed

text \<open>C33. Writing a transaction: whatever the order in which the databases of the transaction are
  visited, afterwards each key of each known database holds what the last operation of the
  transaction on that key of that database left, keys and databases the transaction does not
  mention are unchanged, and operations on an unknown database are dropped.\<close>

theorem write_buffered_last_wins:
  assumes "\<forall>db \<in> ran (repo_dbs r). mock_ok db" and "distinct names" and "set names = dom tx"
  shows "repo_get (write_buffered tx names r) name key =
    (case repo_dbs r name of
       Some db \<Rightarrow> Ok (last_op (case tx name of Some ops \<Rightarrow> ops | None \<Rightarrow> []) key (mock_get db key))
     | None \<Rightarrow> Err (NotFound name))"
  using assms by (rule write_buffered_reads)

theorem write_buffered_last_wins_witness:
  "repo_get (write_buffered [''a'' \<mapsto> [DB_Insert [1] [2], DB_Delete [1], DB_Insert [1] [3]]] [''a''] (repo_init [''a''])) ''a'' [1] =
    (case repo_dbs (repo_init [''a'']) ''a'' of
       Some db \<Rightarrow> Ok (last_op (case [''a'' \<mapsto> [DB_Insert [1] [2], DB_Delete [1], DB_Insert [1] [3]]] ''a'' of Some ops \<Rightarrow> ops | None \<Rightarrow> [])
         [1] (mock_get db [1]))
     | None \<Rightarrow> Err (NotFound ''a''))"
  by (rule write_buffered_last_wins) (simp_all add: repo_init_def mock_new_def mock_ok_def)

text \<open>Prefix search: \<open>get_by_prefix\<close> returns the value of the first key of the database, in
  key order, that has the prefix, and \<open>iter_from_prefix\<close> starts with all the entries that have
  it, in order and without gaps, because the keys with a prefix are an interval of the order.\<close>

theorem prefix_search:
  assumes "mock_ok db"
  shows "takeWhile (\<lambda>(k, _). starts_with k p) (mock_iter_from_prefix db p) =
      filter (\<lambda>(k, _). starts_with k p) (mock_iter db) \<and>
    mock_get_by_prefix db p =
      (case filter (\<lambda>(k, _). starts_with k p) (mock_iter db) of [] \<Rightarrow> None | (k, v) # _ \<Rightarrow> Some v)"
proof
  show "takeWhile (\<lambda>(k, _). starts_with k p) (mock_iter_from_prefix db p) =
      filter (\<lambda>(k, _). starts_with k p) (mock_iter db)"
    using takeWhile_prefix [OF assms] by (simp add: mock_iter_from_prefix_def mock_iter_def)
  show "mock_get_by_prefix db p =
      (case filter (\<lambda>(k, _). starts_with k p) (mock_iter db) of [] \<Rightarrow> None | (k, v) # _ \<Rightarrow> Some v)"
    unfolding mock_get_by_prefix_def mock_iter_def by (induction db) (auto split: prod.split)
qed

theorem prefix_search_witness:
  "takeWhile (\<lambda>(k, _). starts_with k [1]) (mock_iter_from_prefix [([0], [9]), ([1, 2], [8]), ([2], [7])] [1]) =
      filter (\<lambda>(k, _). starts_with k [1]) (mock_iter [([0], [9]), ([1, 2], [8]), ([2], [7])]) \<and>
    mock_get_by_prefix [([0], [9]), ([1, 2], [8]), ([2], [7])] [1] =
      (case filter (\<lambda>(k, _). starts_with k [1]) (mock_iter [([0], [9]), ([1, 2], [8]), ([2], [7])])
       of [] \<Rightarrow> None | (k, v) # _ \<Rightarrow> Some v)"
  by (rule prefix_search) (simp add: mock_ok_def)

end
