(* ===== verification/Trie_Root.thy ===== *)
theory Trie_Root
  imports Trie_Persist Kvdb
begin

text \<open>
  The root of a trie without the trie: \<open>triehash/src/lib.rs\<close>.

  \<open>hash256rlp\<close> appends to a stream the node for the pairs of a sorted slice, of whose keys (in
  nibbles) the first \<open>pre_len\<close> have been consumed; its children are the runs of pairs with the same
  next nibble.  A slice or an index out of range is a panic, \<open>None\<close>.  The recursion is closed in
  \<open>hash256rlp\<close>, a partial function; the helpers take the recursive call as their argument \<open>rec\<close>.

  On the items of a canonical trie, in order, \<open>hash256rlp\<close> appends the encoding \<open>pt_node\<close> of the trie
  (\<open>pushes_root\<close>): so this crate and the mutable trie agree on every root.
\<close>

unbundle bit_operations_syntax

section \<open>Paths\<close>

definition shared_prefix_len :: "'a list \<Rightarrow> 'a list \<Rightarrow> nat" where
  "shared_prefix_len first second =
     (let len = min (length first) (length second) in
      length (takeWhile (\<lambda>i. first ! i = second ! i) [0..<len]))"

definition as_nibbles :: "bytes \<Rightarrow> byte list" where
  "as_nibbles bytes = fold (\<lambda>byte res. res @ [drop_bit 4 byte, byte AND 0b1111]) bytes []"

function hex_pairs :: "byte list \<Rightarrow> nat \<Rightarrow> bytes \<Rightarrow> bytes option" where
  "hex_pairs ns offset res =
     (if offset < length ns
      then do { x \<leftarrow> nth_checked ns offset; y \<leftarrow> nth_checked ns (offset + 1);
                hex_pairs ns (offset + 2) (res @ [push_bit 4 x + y]) }
      else Some res)"
  by pat_completeness auto
termination by (relation "measure (\<lambda>(ns, offset, _). length ns - offset)") auto

declare hex_pairs.simps [simp del]

definition hex_prefix_encode :: "byte list \<Rightarrow> bool \<Rightarrow> bytes option" where
  "hex_prefix_encode ns leaf =
     (let inlen = length ns; oddness_factor = inlen mod 2;
          bits = push_bit 4 ((word_of_nat inlen AND 1) + 2 * of_bool leaf) in
      do { first_byte \<leftarrow> (if oddness_factor = 1 then map_option (\<lambda>x. bits + x) (nth_checked ns 0) else Some bits);
           hex_pairs ns oddness_factor [first_byte] })"

definition slice_from :: "'a list \<Rightarrow> nat \<Rightarrow> 'a list option" where
  "slice_from xs a = (if a \<le> length xs then Some (drop a xs) else None)"

definition slice_range :: "'a list \<Rightarrow> nat \<Rightarrow> nat \<Rightarrow> 'a list option" where
  "slice_range xs a b = (if a \<le> b \<and> b \<le> length xs then Some (drop a (take b xs)) else None)"

section \<open>Building a root\<close>

type_synonym pairs = "(byte list \<times> bytes) list"

definition hash256aux ::
  "(bytes \<Rightarrow> bytes) \<Rightarrow> (pairs \<Rightarrow> nat \<Rightarrow> rlp_stream \<Rightarrow> rlp_stream option) \<Rightarrow>
     pairs \<Rightarrow> nat \<Rightarrow> rlp_stream \<Rightarrow> rlp_stream option" where
  "hash256aux blake rec input pre_len stream =
     do { s \<leftarrow> rec input pre_len new_stream; bytes \<leftarrow> out s;
          (if length bytes \<le> 31 then append_raw stream bytes 1
           else append_with (rlp_append_hash (blake bytes)) stream) }"

text \<open>How many of the pairs, from the first on, have the nibble \<open>i\<close> next.\<close>

fun run_length :: "nat \<Rightarrow> byte \<Rightarrow> pairs \<Rightarrow> nat option" where
  "run_length pre_len i [] = Some 0"
| "run_length pre_len i ((k, v) # xs) =
     do { x \<leftarrow> nth_checked k pre_len;
          (if x = i then map_option Suc (run_length pre_len i xs) else Some 0) }"

fun append_nibbles ::
  "(bytes \<Rightarrow> bytes) \<Rightarrow> (pairs \<Rightarrow> nat \<Rightarrow> rlp_stream \<Rightarrow> rlp_stream option) \<Rightarrow>
     pairs \<Rightarrow> nat \<Rightarrow> byte list \<Rightarrow> nat \<Rightarrow> rlp_stream \<Rightarrow> rlp_stream option" where
  "append_nibbles blake rec input pre_len [] begin_at stream = Some stream"
| "append_nibbles blake rec input pre_len (i # is) begin_at stream =
     do { len \<leftarrow> (if begin_at < length input then run_length pre_len i (drop begin_at input) else Some 0);
          stream \<leftarrow> (if len = 0 then append_empty_data stream
                    else hash256aux blake rec (take len (drop begin_at input)) (pre_len + 1) stream);
          append_nibbles blake rec input pre_len is (begin_at + len) stream }"

lemma hash256aux_mono [partial_function_mono]:
  assumes "\<And>input pre_len s. mono_option (\<lambda>f. rec f input pre_len s)"
  shows "mono_option (\<lambda>f. hash256aux blake (rec f) input pre_len stream)"
  unfolding hash256aux_def by (intro bind_mono assms option.const_mono)

lemma append_nibbles_mono [partial_function_mono]:
  assumes "\<And>input pre_len s. mono_option (\<lambda>f. rec f input pre_len s)"
  shows "mono_option (\<lambda>f. append_nibbles blake (rec f) input pre_len is begin_at stream)"
proof (induction "is" arbitrary: begin_at stream)
  case Nil
  show ?case by (simp add: option.const_mono)
next
  case (Cons i "is")
  have "mono_option (\<lambda>f. if len = 0 then append_empty_data stream
      else hash256aux blake (rec f) (take len (drop begin_at input)) (pre_len + 1) stream)" for len
    using hash256aux_mono [OF assms] by (cases "len = 0") (simp_all add: option.const_mono)
  then show ?case
    unfolding append_nibbles.simps by (intro bind_mono option.const_mono Cons.IH)
qed

definition shared_prefix :: "byte list \<Rightarrow> pairs \<Rightarrow> nat" where
  "shared_prefix key rest = fold (\<lambda>(k, _) acc. min (shared_prefix_len key k) acc) rest (length key)"

partial_function (option) hash256rlp ::
  "(bytes \<Rightarrow> bytes) \<Rightarrow> pairs \<Rightarrow> nat \<Rightarrow> rlp_stream \<Rightarrow> rlp_stream option" where
  "hash256rlp blake input pre_len stream =
     (if length input = 0 then append_empty_data stream
      else let key = fst (hd input); v = snd (hd input) in
      if length input = 1 then
        do { stream \<leftarrow> begin_list stream 2;
             suffix \<leftarrow> slice_from key pre_len; suffix \<leftarrow> hex_prefix_encode suffix True;
             stream \<leftarrow> append_with (rlp_append_bytes suffix) stream;
             append_with (rlp_append_bytes v) stream }
      else let shared = shared_prefix key (tl input) in
      if pre_len < shared then
        do { stream \<leftarrow> begin_list stream 2;
             part \<leftarrow> slice_range key pre_len shared; part \<leftarrow> hex_prefix_encode part False;
             stream \<leftarrow> append_with (rlp_append_bytes part) stream;
             hash256aux blake (\<lambda>input pre_len s. hash256rlp blake input pre_len s) input shared stream }
      else
        do { stream \<leftarrow> begin_list stream 17;
             stream \<leftarrow> append_nibbles blake (\<lambda>input pre_len s. hash256rlp blake input pre_len s) input pre_len
                        (map word_of_nat [0..<16]) (if pre_len = length key then 1 else 0) stream;
             (if pre_len = length key then append_with (rlp_append_bytes v) stream
              else append_empty_data stream) })"

definition gen_trie_root :: "(bytes \<Rightarrow> bytes) \<Rightarrow> pairs \<Rightarrow> bytes option" where
  "gen_trie_root blake input =
     do { stream \<leftarrow> hash256rlp blake input 0 new_stream; bytes \<leftarrow> out stream; Some (blake bytes) }"

text \<open>Collecting pairs into a \<open>BTreeMap\<close>: the last of two with the same key stays.\<close>

definition btree_collect :: "(bytes \<times> bytes) list \<Rightarrow> (bytes \<times> bytes) list" where
  "btree_collect input = fold (\<lambda>(k, v) t. snd (btree_insert k v t)) input []"

definition trie_root :: "(bytes \<Rightarrow> bytes) \<Rightarrow> (bytes \<times> bytes) list \<Rightarrow> bytes option" where
  "trie_root blake input = gen_trie_root blake (map (\<lambda>(k, v). (as_nibbles k, v)) (btree_collect input))"

definition sec_trie_root :: "(bytes \<Rightarrow> bytes) \<Rightarrow> (bytes \<times> bytes) list \<Rightarrow> bytes option" where
  "sec_trie_root blake input =
     gen_trie_root blake (map (\<lambda>(k, v). (as_nibbles k, v)) (btree_collect (map (\<lambda>(k, v). (blake k, v)) input)))"

fun enumerated :: "nat \<Rightarrow> bytes list \<Rightarrow> (bytes \<times> bytes) list option" where
  "enumerated i [] = Some []"
| "enumerated i (v # vs) =
     do { k \<leftarrow> encode_with (rlp_append_usize i); rest \<leftarrow> enumerated (i + 1) vs; Some ((k, v) # rest) }"

definition ordered_trie_root :: "(bytes \<Rightarrow> bytes) \<Rightarrow> bytes list \<Rightarrow> bytes option" where
  "ordered_trie_root blake input =
     do { pairs \<leftarrow> enumerated 0 input;
          gen_trie_root blake (map (\<lambda>(k, v). (as_nibbles k, v)) (btree_collect pairs)) }"


section \<open>The helpers against their specifications\<close>

lemma shared_prefix_len_Cons:
  "shared_prefix_len (x # xs) (y # ys) = (if x = y then Suc (shared_prefix_len xs ys) else 0)"
  by (simp add: shared_prefix_len_def upt_conv_Cons map_Suc_upt [symmetric] takeWhile_map o_def del: upt_Suc)

lemma shared_prefix_len_lcp: "shared_prefix_len xs ys = lcp xs ys"
proof (induction xs ys rule: lcp.induct)
  case (1 x xs y ys)
  then show ?case by (simp add: shared_prefix_len_Cons)
qed (simp_all add: shared_prefix_len_def)

lemma as_nibbles_eq: "as_nibbles bytes = nibbles bytes"
proof -
  have "fold (\<lambda>byte res. res @ [drop_bit 4 byte, byte AND 0b1111]) bytes res = res @ nibbles bytes" for res
    by (induction bytes arbitrary: res) simp_all
  then show ?thesis by (simp add: as_nibbles_def)
qed

lemma hex_pairs_pack:
  "even (length ns - i) \<Longrightarrow> i \<le> length ns \<Longrightarrow> hex_pairs ns i res = Some (res @ pack (drop i ns))"
proof (induction ns i res rule: hex_pairs.induct)
  case (1 ns i res)
  show ?case
  proof (cases "i < length ns")
    case True
    then have i: "Suc i < length ns" using "1.prems" by presburger
    have "drop i ns = ns ! i # ns ! Suc i # drop (i + 2) ns"
      using i True by (simp add: Cons_nth_drop_Suc)
    moreover have "even (length ns - (i + 2))" using "1.prems"(1) i by simp
    ultimately show ?thesis
      using "1.IH" [of "ns ! i" "ns ! (i + 1)"] i True
      by (subst hex_pairs.simps) (simp add: push_bit_eq_mult mult.commute)
  next
    case False
    then show ?thesis using "1.prems" by (simp add: hex_pairs.simps)
  qed
qed

lemma word_parity: "(word_of_nat n :: byte) AND 1 = of_bool (odd n)"
proof -
  obtain m where "n = 2 * m \<or> n = 2 * m + 1" by (metis oddE evenE)
  then show ?thesis by (auto simp: and_one_eq mod2_eq_if)
qed

text \<open>The reference definition of the hex-prefix form, on which \<open>Nibbles\<close> rests.\<close>

lemma hex_prefix_encode_eq: "hex_prefix_encode ns leaf = Some (hex_prefix ns leaf)"
proof (cases "odd (length ns)")
  case True
  then obtain x xs where ns: "ns = x # xs" "even (length xs)" by (cases ns) auto
  have "(word_of_nat (length ns) :: byte) AND 1 = 1" using True by (simp only: word_parity) simp
  moreover have "length ns mod 2 = 1" using True by presburger
  ultimately show ?thesis
    unfolding hex_prefix_encode_def Let_def
    using True ns(2) hex_pairs_pack [of ns 1] by (simp only: ns(1)) (simp add: hex_prefix_def)
next
  case False
  then have "(word_of_nat (length ns) :: byte) AND 1 = 0" by (simp only: word_parity) simp
  then show ?thesis
    using False hex_pairs_pack [of ns 0] by (simp add: hex_prefix_encode_def hex_prefix_def)
qed


lemma shared_prefix_Min:
  "shared_prefix key rest = Min (set (length key # map (\<lambda>e. lcp key (fst e)) rest))"
proof -
  have "fold (\<lambda>(k, _) acc. min (f k) acc) xs a = fold min (map (\<lambda>e. f (fst e)) xs) (a :: nat)" for f xs a
    by (induction xs arbitrary: a) auto
  then show ?thesis by (simp only: shared_prefix_def shared_prefix_len_lcp Min.set_eq_fold)
qed

text \<open>What the keys of a slice share, and no more.\<close>

lemma shared_prefix_eq:
  assumes "\<And>e. e \<in> set ((key, v) # rest) \<Longrightarrow> take (length q) (fst e) = q"
    and "(q @ a, v1) \<in> set ((key, v) # rest)" and "(q @ b, v2) \<in> set ((key, v) # rest)" and "lcp a b = 0"
    and "a \<noteq> b"
  shows "shared_prefix key rest = length q"
proof (rule antisym)
  have le: "length q \<le> length (fst e)" if "e \<in> set ((key, v) # rest)" for e
    using assms(1) [OF that] by (metis length_take min.cobounded1)
  have "length q \<le> lcp key (fst e)" if "e \<in> set rest" for e
    using that assms(1) [of "(key, v)"] assms(1) [of e] le [of "(key, v)"] le [of e]
    by (intro lcp_greatest) auto
  then show "length q \<le> shared_prefix key rest"
    using le [of "(key, v)"] by (auto simp: shared_prefix_Min)
  show "shared_prefix key rest \<le> length q"
  proof (rule ccontr)
    let ?s = "shared_prefix key rest"
    assume more: "\<not> ?s \<le> length q"
    have below: "?s \<le> lcp key (fst e)" if "e \<in> set ((key, v) # rest)" for e
      using that lcp_full [of key key] by (auto simp: shared_prefix_Min)
    obtain c where key: "key = q @ c" using assms(1) [of "(key, v)"] by (metis append_take_drop_id fst_conv list.set_intros(1))
    have "0 < lcp c a" "0 < lcp c b"
      using below [OF assms(2)] below [OF assms(3)] more by (simp_all add: key lcp_append)
    then have "0 < lcp a b" by (cases a; cases b; cases c) (auto split: if_splits)
    then show False using assms(4) by simp
  qed
qed


section \<open>The node of a canonical trie\<close>

lemma run_length_run:
  "(\<And>e. e \<in> set xs \<Longrightarrow> nth_checked (fst e) n = Some i) \<Longrightarrow>
     run_length n i (xs @ ys) = map_option ((+) (length xs)) (run_length n i ys)"
proof (induction xs)
  case (Cons e xs)
  then show ?case by (cases e) (force simp: option.map_comp o_def)
qed (cases "run_length n i ys"; simp)

lemma run_length_next:
  assumes "i < j" and "j + length ts \<le> 16"
  shows "run_length (length p) (word_of_nat i) (under p (child_items j ts)) = Some 0"
proof (cases "child_items j ts")
  case (Cons e es)
  obtain j' ns where "fst e = word_of_nat j' # ns" "i < j'" "j' < 16"
    using children_above [of j ts e] Cons assms by fastforce
  then show ?thesis
    using Cons by (cases e) (simp add: under_def nth_checked_def byte_eq_iff)
qed (simp add: under_def)

lemma run_each_one: "run_each [f] = f"
proof -
  have "run_each [] = Some" by (rule ext) simp
  then show ?thesis by (intro ext) simp
qed

lemma run_each_two: "run_each [f, g] = (\<lambda>s. Option.bind (f s) g)"
  by (rule ext) (simp add: run_each_one)

lemma hash256rlp_Nil: "hash256rlp blake [] n = append_empty_data"
  by (rule ext, subst hash256rlp.simps) simp

lemma hash256rlp_one:
  "hash256rlp blake [(p @ k, v)] (length p) =
     (\<lambda>s. do { s \<leftarrow> begin_list s (length [code_enc (RData (hex_prefix k True)), code_enc (RData v)]);
               run_each [append_with (rlp_append_bytes (hex_prefix k True)), append_with (rlp_append_bytes v)] s })"
  by (rule ext, subst hash256rlp.simps)
    (simp add: slice_from_def hex_prefix_encode_eq numeral_2_eq_2 run_each_two)

lemma hash256rlp_shared:
  assumes "xs \<noteq> []" and "shared_prefix key xs = length (p @ k)" and "k \<noteq> []" and "take (length (p @ k)) key = p @ k"
  shows "hash256rlp blake ((key, v) # xs) (length p) =
     (\<lambda>s. do { s \<leftarrow> begin_list s (length [code_enc (RData (hex_prefix k False)), e]);
               run_each [append_with (rlp_append_bytes (hex_prefix k False)),
                 hash256aux blake (hash256rlp blake) ((key, v) # xs) (length (p @ k))] s })"
proof -
  have "length (p @ k) \<le> length key" using assms(4) by (metis length_take min.cobounded1)
  then have "slice_range key (length p) (length (p @ k)) = Some k" using assms(4) by (simp add: slice_range_def)
  then show ?thesis
    using assms(1-3) by (intro ext, subst hash256rlp.simps)
      (simp add: hex_prefix_encode_eq numeral_2_eq_2 run_each_two Let_def)
qed

lemma hash256rlp_split:
  assumes "xs \<noteq> []" and "shared_prefix key xs = n"
  shows "hash256rlp blake ((key, v) # xs) n =
     (\<lambda>s. do { s \<leftarrow> begin_list s 17;
        s \<leftarrow> append_nibbles blake (hash256rlp blake) ((key, v) # xs) n
               (map word_of_nat [0..<16]) (if n = length key then 1 else 0) s;
        (if n = length key then append_with (rlp_append_bytes v) s else append_empty_data s) })"
  using assms by (intro ext, subst hash256rlp.simps) simp

text \<open>\<open>hash256rlp\<close> on the items of \<open>t\<close> under the path \<open>p\<close> appends the node of \<open>t\<close>.\<close>

definition roots :: "(bytes \<Rightarrow> bytes) \<Rightarrow> ptrie \<Rightarrow> bool" where
  "roots blake t \<longleftrightarrow> (\<forall>p. pushes (hash256rlp blake (under p (pt_items t)) (length p)) (pt_node blake t))"

lemma pushes_new: "pushes f e \<Longrightarrow> \<exists>s. f new_stream = Some s \<and> out s = Some e"
proof -
  assume "pushes f e"
  then obtain g where "f (conc [] [] False) = map_option (\<lambda>(fs', base'). conc fs' base' g) (push [] [] e 1)"
    unfolding pushes_def by blast
  then show ?thesis by (simp add: conc_new_stream out_def is_finished_def)
qed

lemma pushes_child:
  assumes "roots blake t"
  shows "pushes (hash256aux blake (hash256rlp blake) (under p (pt_items t)) (length p))
    (node_ref blake (pt_node blake t))"
proof -
  obtain s where s: "hash256rlp blake (under p (pt_items t)) (length p) new_stream = Some s"
    "out s = Some (pt_node blake t)"
    using pushes_new assms unfolding roots_def by blast
  have "hash256aux blake (hash256rlp blake) (under p (pt_items t)) (length p) =
      (if 32 \<le> length (pt_node blake t) then append_with (rlp_append_hash (blake (pt_node blake t)))
       else (\<lambda>stream. append_raw stream (pt_node blake t) (Suc 0)))"
    by (rule ext) (simp add: hash256aux_def s)
  then show ?thesis by (simp add: node_ref_def rlp_append_hash_def)
qed


lemma under_append [simp]: "under p (xs @ ys) = under p xs @ under p ys"
  by (simp add: under_def)

lemma under_under [simp]: "under p (under q xs) = under (p @ q) xs"
  by (auto simp: under_def)

lemma length_under [simp]: "length (under p xs) = length xs"
  by (simp add: under_def)

lemma pushes_children:
  assumes "\<forall>t \<in> set ts. roots blake t" and "i + length ts \<le> 16"
  shows "\<exists>fs. list_all2 pushes fs (map (\<lambda>t. node_ref blake (pt_node blake t)) ts) \<and>
    (\<forall>stream. append_nibbles blake (hash256rlp blake) (bs @ under p (child_items i ts)) (length p)
       (map word_of_nat [i..<i + length ts]) (length bs) stream = run_each fs stream)"
  using assms
proof (induction ts arbitrary: i bs)
  case Nil
  show ?case by (rule exI [of _ "[]"]) simp
next
  case (Cons t ts)
  let ?own = "under (p @ [word_of_nat i]) (pt_items t)" and ?rest = "under p (child_items (i + 1) ts)"
  have own: "nth_checked (fst e) (length p) = Some (word_of_nat i)" if "e \<in> set ?own" for e
    using that by (auto simp: under_def nth_checked_def nth_append)
  have len: "run_length (length p) (word_of_nat i) (?own @ ?rest) = Some (length (pt_items t))"
    using run_length_run [of ?own "length p" "word_of_nat i" ?rest, OF own]
      run_length_next [of i "i + 1" ts p] Cons.prems(2) by simp
  obtain fs where fs: "list_all2 pushes fs (map (\<lambda>t. node_ref blake (pt_node blake t)) ts)"
    "\<And>stream. append_nibbles blake (hash256rlp blake) ((bs @ ?own) @ ?rest) (length p)
       (map word_of_nat [i + 1..<i + 1 + length ts]) (length (bs @ ?own)) stream = run_each fs stream"
    using Cons.IH [of "i + 1" "bs @ ?own"] Cons.prems by auto
  let ?f = "if pt_items t = [] then append_empty_data
    else hash256aux blake (hash256rlp blake) ?own (length (p @ [word_of_nat i]))"
  have "pushes ?f (node_ref blake (pt_node blake t))"
  proof (cases "pt_items t = []")
    case True
    then have "pushes append_empty_data (pt_node blake t)"
      using Cons.prems(1) by (auto simp: roots_def under_def hash256rlp_Nil)
    from pushes_new [OF this] pushes_new [OF pushes_empty_data] have "pt_node blake t = [0x80]" by auto
    then show ?thesis using True by (simp add: node_ref_def)
  next
    case False
    then show ?thesis using pushes_child [of blake t "p @ [word_of_nat i]"] Cons.prems(1) by simp
  qed
  moreover have "append_nibbles blake (hash256rlp blake) (bs @ under p (child_items i (t # ts))) (length p)
      (map word_of_nat [i..<i + length (t # ts)]) (length bs) stream = run_each (?f # fs) stream" for stream
  proof -
    have input: "under p (child_items i (t # ts)) = ?own @ ?rest" by simp
    have "[i..<i + length (t # ts)] = i # [i + 1..<i + 1 + length ts]" by (simp add: upt_conv_Cons del: upt_Suc)
    moreover have run: "(if length bs < length (bs @ ?own @ ?rest)
        then run_length (length p) (word_of_nat i) (drop (length bs) (bs @ ?own @ ?rest)) else Some 0) =
      Some (length (pt_items t))" using len by auto
    have "append_nibbles blake (hash256rlp blake) (bs @ ?own @ ?rest) (length p) (word_of_nat i # is) (length bs) stream =
        do { stream \<leftarrow> ?f stream; append_nibbles blake (hash256rlp blake) (bs @ ?own @ ?rest) (length p) is
               (length bs + length (pt_items t)) stream }" for "is"
      unfolding append_nibbles.simps(2) run by simp
    ultimately show ?thesis unfolding input using fs(2) by (simp del: upt_Suc)
  qed
  ultimately show ?case using fs(1) by (intro exI [of _ "?f # fs"]) simp
qed


lemma canon_wf: "canon t \<Longrightarrow> pt_wf t"
  by (induction t) auto

lemma branch_slice:
  assumes "canon (PBranch ts u)"
  obtains key v xs where "under q (pt_items (PBranch ts u)) = (key, v) # xs" and "xs \<noteq> []"
    and "shared_prefix key xs = length q" and "take (length q) key = q"
proof -
  let ?t = "PBranch ts u"
  obtain a b v1 v2 where ab: "a \<noteq> b" "lcp a b = 0" "pt_lookup ?t a = Some v1" "pt_lookup ?t b = Some v2"
    using canon_branch_parts [OF assms] by blast
  then have "(a, v1) \<in> set (pt_items ?t)" "(b, v2) \<in> set (pt_items ?t)"
    using in_items_lookup [OF canon_wf [OF assms]] by blast+
  then have mem: "(q @ a, v1) \<in> set (under q (pt_items ?t))" "(q @ b, v2) \<in> set (under q (pt_items ?t))"
    unfolding under_def by force+
  then obtain key v xs where items: "under q (pt_items ?t) = (key, v) # xs"
    by (metis in_set_conv_decomp_first list.exhaust list.set_cases prod.exhaust)
  have q: "take (length q) (fst e) = q" if "e \<in> set ((key, v) # xs)" for e
    using that unfolding items [symmetric] by (auto simp: under_def)
  have "shared_prefix key xs = length q"
    using mem ab(1,2) unfolding items by (intro shared_prefix_eq [OF q])
  moreover have "xs \<noteq> []" using mem ab(1) unfolding items by auto
  moreover have "take (length q) key = q" using q [of "(key, v)"] by simp
  ultimately show ?thesis using that items by blast
qed

lemma canon_roots: "canon t \<Longrightarrow> roots blake t"
proof (induction t)
  case PEmpty
  show ?case by (simp add: roots_def under_def hash256rlp_Nil)
next
  case (PLeaf k v)
  have "list_all2 pushes [append_with (rlp_append_bytes (hex_prefix k True)), append_with (rlp_append_bytes v)]
      [code_enc (RData (hex_prefix k True)), code_enc (RData v)]" by simp
  from pushes_list [OF this] show ?case
    by (simp only: roots_def pt_items.simps under_def list.map prod.case hash256rlp_one pt_node.simps enc_parts_def) simp
next
  case (PExt k t)
  then have t: "canon t" "roots blake t" "k \<noteq> []" "is_branch t" by auto
  then obtain ts u where b: "t = PBranch ts u" by (cases t) auto
  show ?case unfolding roots_def
  proof
    fix p
    obtain key v xs where xs: "under (p @ k) (pt_items t) = (key, v) # xs" "xs \<noteq> []"
      "shared_prefix key xs = length (p @ k)" "take (length (p @ k)) key = p @ k"
      using branch_slice t(1) unfolding b by blast
    have "list_all2 pushes [append_with (rlp_append_bytes (hex_prefix k False)),
        hash256aux blake (hash256rlp blake) (under (p @ k) (pt_items t)) (length (p @ k))]
      [code_enc (RData (hex_prefix k False)), node_ref blake (pt_node blake t)]"
      using pushes_child [OF t(2), of "p @ k"] by simp
    from pushes_list [OF this]
    show "pushes (hash256rlp blake (under p (pt_items (PExt k t))) (length p)) (pt_node blake (PExt k t))"
      unfolding pt_items.simps under_under xs(1) hash256rlp_shared [OF xs(2,3) t(3) xs(4), of blake v
          "node_ref blake (pt_node blake t)"] pt_node.simps enc_parts_def .
  qed
next
  case (PBranch ts u)
  then have ts: "\<forall>t \<in> set ts. roots blake t" "length ts = 16" by auto
  show ?case unfolding roots_def
  proof
    fix p
    let ?own = "under p (own_value u)" and ?t = "PBranch ts u"
    obtain key v xs where xs: "under p (pt_items ?t) = (key, v) # xs" "xs \<noteq> []"
      "shared_prefix key xs = length p" "take (length p) key = p"
      using branch_slice PBranch.prems by blast
    obtain fs where fs: "list_all2 pushes fs (map (\<lambda>t. node_ref blake (pt_node blake t)) ts)"
      "\<And>stream. append_nibbles blake (hash256rlp blake) (under p (pt_items ?t)) (length p)
         (map word_of_nat [0..<16]) (length ?own) stream = run_each fs stream"
      using pushes_children [OF ts(1), of 0 ?own p] ts(2) by auto
    let ?last = "case u of Some v \<Rightarrow> append_with (rlp_append_bytes v) | None \<Rightarrow> append_empty_data"
    have key: "length ?own = (if length p = length key then 1 else 0)" "length p = length key \<Longrightarrow> u = Some v"
      "length p \<noteq> length key \<Longrightarrow> u = None"
    proof -
      have "(u = None \<and> length p < length key) \<or> (u = Some v \<and> key = p)"
      proof (cases u)
        case None
        then obtain e es where e: "child_items 0 ts = e # es" "key = p @ fst e"
          using xs(1) by (cases "child_items 0 ts") (auto simp: under_def own_value_def)
        then obtain j ns where "fst e = word_of_nat j # ns" using children_above [of 0 ts e] ts(2) by auto
        then show ?thesis using None e by simp
      qed (use xs(1) in \<open>simp add: under_def own_value_def\<close>)
      then show "length ?own = (if length p = length key then 1 else 0)" "length p = length key \<Longrightarrow> u = Some v"
        "length p \<noteq> length key \<Longrightarrow> u = None" by (auto simp: own_value_def)
    qed
    have "list_all2 pushes (fs @ [?last]) (map (\<lambda>t. node_ref blake (pt_node blake t)) ts @ [value_part u])"
      using fs(1) by (intro list_all2_appendI) (simp_all add: value_part_def split: option.split)
    from pushes_list [OF this]
    show "pushes (hash256rlp blake (under p (pt_items ?t)) (length p)) (pt_node blake ?t)"
    proof -
      have last: "(\<lambda>s. if length p = length key then append_with (rlp_append_bytes v) s else append_empty_data s) =
          run_each [?last]"
        unfolding run_each_one using key(2,3) by (cases "length p = length key") auto
      have "hash256rlp blake (under p (pt_items ?t)) (length p) =
          (\<lambda>s. do { s \<leftarrow> begin_list s 17; run_each (fs @ [?last]) s })"
        unfolding xs(1) hash256rlp_split [OF xs(2,3)] key(1) [symmetric] run_each_append
        unfolding fs(2) [unfolded xs(1)] last ..
      then show ?thesis using \<open>pushes (\<lambda>s. begin_list s _ \<bind> _) _\<close> ts(2) by (simp add: enc_parts_def del: run_each.simps)
    qed
  qed
qed


section \<open>Sorted input\<close>

lemma btree_collect_ok:
  shows "mock_ok (btree_collect input)"
    and "map_of (btree_collect input) = fold (\<lambda>(k, v) m. m(k \<mapsto> v)) input Map.empty"
proof -
  have "mock_ok t \<Longrightarrow> mock_ok (fold (\<lambda>(k, v) t. snd (btree_insert k v t)) input t) \<and>
      map_of (fold (\<lambda>(k, v) t. snd (btree_insert k v t)) input t) = fold (\<lambda>(k, v) m. m(k \<mapsto> v)) input (map_of t)" for t
  proof (induction input arbitrary: t)
    case (Cons e input)
    then show ?case using btree_insert_ok [of t "fst e" "snd e"] by (simp add: case_prod_beta)
  qed simp
  from this [of "[]"] show "mock_ok (btree_collect input)"
    "map_of (btree_collect input) = fold (\<lambda>(k, v) m. m(k \<mapsto> v)) input Map.empty"
    by (simp_all add: btree_collect_def mock_ok_def)
qed

lemma list_compare_less: "list_compare a b = Less \<longleftrightarrow> a < (b :: bytes)"
  by (induction a b rule: list_compare.induct) (auto simp: Cons_less_Cons)

lemma lex_sorted_less: "lex_sorted xs \<longleftrightarrow> sorted_wrt (<) (map fst xs)"
  by (simp add: list_compare_less sorted_wrt_map)

lemma sorted_pairs_unique:
  assumes "lex_sorted xs" and "lex_sorted ys" and "set xs = set ys"
  shows "xs = ys"
proof (rule map_sorted_distinct_set_unique [of fst])
  have keys: "sorted (map fst zs) \<and> distinct (map fst zs)" if "lex_sorted zs" for zs :: "(bytes \<times> bytes) list"
    using that by (simp add: lex_sorted_less strict_sorted_iff)
  show "sorted (map fst xs)" "distinct (map fst xs)" "sorted (map fst ys)" "distinct (map fst ys)"
    using keys assms(1,2) by blast+
  then show "inj_on fst (set xs \<union> set ys)" using assms(3) by (simp add: distinct_map)
qed (rule assms(3))

lemma of_keys_iff: "of_keys m ns = Some v \<longleftrightarrow> (\<exists>key. ns = nibbles key \<and> m key = Some v)"
proof
  assume v: "of_keys m ns = Some v"
  then have "nibbles (pack ns) = ns" using nibbles_pack [of ns] by (auto simp: of_keys_def split: if_splits)
  then show "\<exists>key. ns = nibbles key \<and> m key = Some v" using v by (intro exI [of _ "pack ns"]) (auto simp: of_keys_def split: if_splits)
qed auto

lemma items_of_pairs:
  assumes "canon t" and "mock_ok xs" and "pt_lookup t = of_keys (map_of xs)"
  shows "pt_items t = map (\<lambda>(k, v). (as_nibbles k, v)) xs"
proof (rule sorted_pairs_unique)
  show "lex_sorted (pt_items t)" by (rule items_sorted [OF canon_wf [OF assms(1)]])
  have "lex_sorted xs" using assms(2) by (simp add: mock_ok_def lex_sorted_less)
  then show "lex_sorted (map (\<lambda>(k, v). (as_nibbles k, v)) xs)"
    by (simp add: sorted_wrt_map case_prod_beta as_nibbles_eq nibbles_compare)
  have "distinct (map fst xs)" using assms(2) by (simp add: mock_ok_def strict_sorted_iff)
  then have "(ns, v) \<in> set (pt_items t) \<longleftrightarrow> (ns, v) \<in> set (map (\<lambda>(k, v). (as_nibbles k, v)) xs)" for ns v
    unfolding in_items_lookup [OF canon_wf [OF assms(1)]] assms(3) of_keys_iff
    by (force simp: as_nibbles_eq)
  then show "set (pt_items t) = set (map (\<lambda>(k, v). (as_nibbles k, v)) xs)" by (intro set_eqI) auto
qed

text \<open>The root of any sorted input without empty values.\<close>

lemma trie_root_canonical:
  assumes "canon t" and "pt_lookup t = of_keys (fold (\<lambda>(k, v) m. m(k \<mapsto> v)) input Map.empty)"
  shows "trie_root blake input = Some (blake (pt_node blake t))"
proof -
  have "pt_items t = map (\<lambda>(k, v). (as_nibbles k, v)) (btree_collect input)"
    by (rule items_of_pairs [OF assms(1) btree_collect_ok(1)]) (simp only: assms(2) btree_collect_ok(2))
  moreover obtain s where "hash256rlp blake (under [] (pt_items t)) (length ([] :: byte list)) new_stream = Some s"
    "out s = Some (pt_node blake t)"
    using canon_roots [OF assms(1)] pushes_new unfolding roots_def by blast
  ultimately show ?thesis by (simp add: trie_root_def gen_trie_root_def under_def)
qed

lemma puts_eq:
  "\<forall>(k, v) \<in> set input. v \<noteq> [] \<Longrightarrow>
     fold kv_step (map (\<lambda>(k, v). Put k v) input) m = fold (\<lambda>(k, v) m. m(k \<mapsto> v)) input m"
  by (induction input arbitrary: m) auto

lemma run_root:
  assumes "hs_get D db BLAKE2B_NULL_RLP = Some NULL_RLP" and "hash_law D hash"
    and "hash NULL_RLP = BLAKE2B_NULL_RLP" and "\<forall>(k, v) \<in> set input. v \<noteq> []"
    and "fold kv_step ops Map.empty = fold (\<lambda>(k, v) m. m(k \<mapsto> v)) input Map.empty"
  shows "\<exists>s root s'. mut_run D ops (trie_mut_new db) = Some (Ok (kv_olds ops Map.empty), s) \<and>
    trie_mut_root D dead s = Some (root, s') \<and> trie_root hash input = Some root"
proof -
  obtain t where t: "canon t" "pt_lookup t = of_keys (fold kv_step ops Map.empty)"
    using canonical_trie_exists by blast
  obtain s where "mut_run D ops (trie_mut_new db) = Some (Ok (kv_olds ops Map.empty), s)"
    "\<exists>s'. trie_mut_root D dead s = Some (hash (pt_node hash t), s')"
    by (rule commit_run_new [OF assms(1-3) t]) blast
  then show ?thesis using trie_root_canonical [OF t [unfolded assms(5)]] by blast
qed

section \<open>Properties\<close>

text \<open>C6. Two implementations of one root. For any list of pairs without empty values (repeated keys
  allowed, the last pair counts), \<open>trie_root\<close> returns the root that a \<open>TrieDBMut\<close> returns after any
  sequence of insertions and removals that leaves the same map, in whatever order it was done.\<close>

theorem trie_root_agrees:
  assumes "hs_get D db BLAKE2B_NULL_RLP = Some NULL_RLP" and "hash_law D hash"
    and "hash NULL_RLP = BLAKE2B_NULL_RLP" and "\<forall>(k, v) \<in> set input. v \<noteq> []"
    and "fold kv_step ops Map.empty = fold (\<lambda>(k, v) m. m(k \<mapsto> v)) input Map.empty"
  shows "\<exists>s root s'. mut_run D ops (trie_mut_new db) = Some (Ok (kv_olds ops Map.empty), s) \<and>
    trie_mut_root D dead s = Some (root, s') \<and> trie_root hash input = Some root"
  using assms by (rule run_root)

theorem trie_root_agrees_witness:
  "\<exists>s root s'. mut_run (memory_ops sample_hash) [Put [9] [4], Put [1] [3], Del [9]] (trie_mut_new mdb_new) =
      Some (Ok [None, None, Some [4]], s) \<and>
    trie_mut_root (memory_ops sample_hash) [] s = Some (root, s') \<and>
    trie_root sample_hash [([1], [2]), ([1], [3])] = Some root"
  using trie_root_agrees [of "memory_ops sample_hash" mdb_new sample_hash "[([1], [2]), ([1], [3])]"
      "[Put [9] [4], Put [1] [3], Del [9]]" "[]",
      OF _ memory_hash_law [of sample_hash, OF sample_hash_null] sample_hash_null]
  by (auto simp: fun_eq_iff simp del: mut_run.simps)

text \<open>The secure root is the root under hashed keys.\<close>

lemma sec_trie_root_eq: "sec_trie_root blake input = trie_root blake (map (\<lambda>(k, v). (blake k, v)) input)"
  by (simp add: sec_trie_root_def trie_root_def)

lemma enumerated_eq:
  "i + length vs \<le> 2 ^ 64 \<Longrightarrow>
     enumerated i vs = Some (map (\<lambda>(i, v). (rlp_enc (RData (min_be i)), v)) (zip [i..<i + length vs] vs))"
proof (induction vs arbitrary: i)
  case (Cons v vs)
  have "encode_with (rlp_append_usize i) = Some (rlp_enc (RData (min_be i)))"
    unfolding rlp_append_usize_def using Cons.prems length_rlp_enc_min_be [of i] byte_len_le_iff [of i 8]
    by (intro u64_codec.encode_value_of) (simp_all del: rlp_enc.simps)
  then show ?case using Cons by (simp add: upt_conv_Cons del: upt_Suc rlp_enc.simps)
qed simp

text \<open>C7. \<open>ordered_trie_root\<close> of a list of nonempty values is the root of the \<open>TrieDBMut\<close> into which every
  value was inserted under the RLP of its position, as transactions and receipts of a block are.\<close>

theorem ordered_root_agrees:
  assumes "hs_get D db BLAKE2B_NULL_RLP = Some NULL_RLP" and "hash_law D hash"
    and "hash NULL_RLP = BLAKE2B_NULL_RLP" and "[] \<notin> set vs" and "length vs \<le> 2 ^ 64"
    and "ops = map (\<lambda>(i, v). Put (rlp_enc (RData (min_be i))) v) (zip [0..<length vs] vs)"
  shows "\<exists>s root s'. mut_run D ops (trie_mut_new db) = Some (Ok (kv_olds ops Map.empty), s) \<and>
    trie_mut_root D dead s = Some (root, s') \<and> ordered_trie_root hash vs = Some root"
proof -
  let ?input = "map (\<lambda>(i, v). (rlp_enc (RData (min_be i)), v)) (zip [0..<length vs] vs)"
  have vs: "\<forall>(k, v) \<in> set ?input. v \<noteq> []" using assms(4) by (auto dest: set_zip_rightD)
  have "ops = map (\<lambda>(k, v). Put k v) ?input" using assms(6) by (simp add: case_prod_beta)
  moreover have "ordered_trie_root hash vs = trie_root hash ?input"
    using enumerated_eq [of 0 vs] assms(5) by (simp add: ordered_trie_root_def trie_root_def)
  ultimately show ?thesis using run_root [OF assms(1-3) vs, of ops dead] puts_eq [OF vs] by simp
qed


theorem ordered_root_agrees_witness:
  "\<exists>s root s'. mut_run (memory_ops sample_hash) [Put [0x80] [5], Put [1] [6]] (trie_mut_new mdb_new) =
      Some (Ok [None, None], s) \<and>
    trie_mut_root (memory_ops sample_hash) [] s = Some (root, s') \<and> ordered_trie_root sample_hash [[5], [6]] = Some root"
proof -
  have one: "min_be 1 = [1]"
    by (rule min_be_small [of 1]) (auto simp: byte_eq_iff byte_len_le_iff)
  have len: "byte_len 1 = 1" by (simp only: length_min_be [symmetric] one) simp
  have "zip [0..<length [[5], [6]]] [[5], [6 :: byte]] = [(0, [5]), (1, [6])]" by (simp add: upt_conv_Cons)
  then have ops: "[Put [0x80] [5], Put [1] [6]] =
      map (\<lambda>(i, v). Put (rlp_enc (RData (min_be i))) v) (zip [0..<length [[5], [6]]] [[5], [6]])"
    using one len by (simp add: rlp_header_def rlp_enc.simps)
  show ?thesis
    using ordered_root_agrees [of "memory_ops sample_hash" mdb_new sample_hash "[[5], [6]]" "[Put [0x80] [5], Put [1] [6]]" "[]",
      OF _ memory_hash_law [of sample_hash, OF sample_hash_null] sample_hash_null _ _ ops] by (simp del: mut_run.simps)
qed

end
