(* ===== verification/Archive_DB.thy ===== *)
theory Archive_DB
  imports Memory_DB Kvdb
begin

text \<open>
  The archive journal: \<open>db/journaldb/src/archivedb.rs\<close>, and the algorithm names of
  \<open>db/journaldb/src/lib.rs\<close>.

  An \<open>archive_db\<close> is a memory overlay above a named database of a repository.  The loops over
  the drained overlay take the enumeration of its entries as an argument (the order of a hash
  map is unspecified).  Nothing is ever removed from the backing database by a commit: the
  main property is that a commit, the write of its batch and even a restart do not change
  what any key reads as.
\<close>

section \<open>Algorithms\<close>

datatype algorithm = Archive | OverlayRecent

definition algorithm_default :: algorithm where
  "algorithm_default = OverlayRecent"

definition algorithm_from_str :: "string \<Rightarrow> (string, algorithm) outcome" where
  "algorithm_from_str s =
     (if s = ''archive'' then Ok Archive
      else if s = ''fast'' then Ok OverlayRecent
      else Err (''Invalid algorithm: '' @ s))"

fun algorithm_as_str :: "algorithm \<Rightarrow> string" where
  "algorithm_as_str Archive = ''archive''"
| "algorithm_as_str OverlayRecent = ''fast''"

fun algorithm_internal_name :: "algorithm \<Rightarrow> string" where
  "algorithm_internal_name Archive = ''archive''"
| "algorithm_internal_name OverlayRecent = ''overlayrecent''"

definition algorithm_is_stable :: "algorithm \<Rightarrow> bool" where
  "algorithm_is_stable a \<longleftrightarrow> True"

definition algorithm_all_types :: "algorithm list" where
  "algorithm_all_types = [Archive, OverlayRecent]"

section \<open>The archive\<close>

definition PREFIX_LEN :: nat where "PREFIX_LEN = 12"

definition LATEST_ERA_KEY :: bytes where
  "LATEST_ERA_KEY = [0x6c, 0x61, 0x73, 0x74, 0, 0, 0, 0, 0, 0, 0, 0]"

datatype base_data_error = NegativelyReferencedHash bytes | AlreadyExists bytes

record archive_db =
  ar_overlay :: memory_db
  ar_backing :: mock_repository
  ar_latest_era :: "nat option"
  ar_db_name :: string

text \<open>\<open>backing.get(..).expect(..)\<close>: \<open>None\<close> is the panic of an unknown database.\<close>

definition backing_get :: "mock_repository \<Rightarrow> string \<Rightarrow> bytes \<Rightarrow> bytes option option" where
  "backing_get backing name key = result_ok (repo_get backing name key)"

definition archive_new :: "mock_repository \<Rightarrow> string \<Rightarrow> archive_db option" where
  "archive_new backing name =
     do { val \<leftarrow> backing_get backing name LATEST_ERA_KEY;
          era \<leftarrow> (case val of None \<Rightarrow> Some None
                   | Some val \<Rightarrow> map_option Some (rlp_decode (decode_uint 8) val));
          Some \<lparr>ar_overlay = mdb_new, ar_backing = backing, ar_latest_era = era, ar_db_name = name\<rparr> }"

definition archive_payload :: "archive_db \<Rightarrow> bytes \<Rightarrow> bytes option option" where
  "archive_payload a key = backing_get (ar_backing a) (ar_db_name a) key"

definition archive_get :: "archive_db \<Rightarrow> bytes \<Rightarrow> bytes option option" where
  "archive_get a key =
     (case mdb_raw (ar_overlay a) key of
        Some (d, rc) \<Rightarrow> if rc > 0 then Some (Some d) else archive_payload a key
      | None \<Rightarrow> archive_payload a key)"

text \<open>\<open>keys\<close>: every key on disk counts once, to which the counts of the overlay are added.
  \<open>H256::from_slice\<close> is not in this repository: a parameter.\<close>

definition archive_keys :: "(bytes \<Rightarrow> bytes) \<Rightarrow> archive_db \<Rightarrow> bytes \<rightharpoonup> int" where
  "archive_keys from_slice a =
     (let ret = fold (\<lambda>(key, _) m. m(from_slice key \<mapsto> 1)) (repo_iter (ar_backing a) (ar_db_name a)) Map.empty
      in (\<lambda>k. case mdb_keys (ar_overlay a) k of
                Some refs \<Rightarrow> (case ret k of Some n \<Rightarrow> Some (add_i32 n refs) | None \<Rightarrow> Some refs)
              | None \<Rightarrow> ret k))"

definition archive_contains :: "archive_db \<Rightarrow> bytes \<Rightarrow> bool option" where
  "archive_contains a key = do { v \<leftarrow> archive_get a key; Some (v \<noteq> None) }"

definition archive_insert :: "archive_db \<Rightarrow> bytes \<Rightarrow> bytes \<times> archive_db" where
  "archive_insert a value =
     (case mdb_insert blake2b_key (ar_overlay a) value of (k, m) \<Rightarrow> (k, a\<lparr>ar_overlay := m\<rparr>))"

definition archive_emplace :: "archive_db \<Rightarrow> bytes \<Rightarrow> bytes \<Rightarrow> archive_db" where
  "archive_emplace a key value = a\<lparr>ar_overlay := mdb_emplace (ar_overlay a) key value\<rparr>"

definition archive_remove :: "archive_db \<Rightarrow> bytes \<Rightarrow> archive_db" where
  "archive_remove a key = a\<lparr>ar_overlay := mdb_remove (ar_overlay a) key\<rparr>"

definition archive_is_empty :: "archive_db \<Rightarrow> bool" where
  "archive_is_empty a \<longleftrightarrow> ar_latest_era a = None"

text \<open>The loop of \<open>journal_under\<close>; \<open>None\<close> is the failed assertion \<open>rc == -1\<close>.\<close>

fun journal_entries ::
  "string \<Rightarrow> (bytes \<times> bytes \<times> int) list \<Rightarrow> db_transaction \<Rightarrow> nat \<Rightarrow> nat \<Rightarrow> (db_transaction \<times> nat \<times> nat) option" where
  "journal_entries name [] batch inserts deletes = Some (batch, inserts, deletes)"
| "journal_entries name ((key, value, rc) # es) batch inserts deletes =
     (if rc > 0 then journal_entries name es (tx_put batch name key value) (inserts + 1) deletes
      else if rc < 0 then
        (if rc = -1 then journal_entries name es batch inserts (deletes + 1) else None)
      else journal_entries name es batch inserts deletes)"

definition archive_journal_under ::
  "archive_db \<Rightarrow> (bytes \<times> bytes \<times> int) list \<Rightarrow> db_transaction \<Rightarrow> nat \<Rightarrow>
     (archive_db \<times> db_transaction \<times> nat) option" where
  "archive_journal_under a entries batch now =
     do { (batch, inserts, deletes) \<leftarrow> journal_entries (ar_db_name a) entries batch 0 0;
          let a = a\<lparr>ar_overlay := Map.empty\<rparr>;
          if (case ar_latest_era a of None \<Rightarrow> True | Some e \<Rightarrow> e < now) then
            do { era \<leftarrow> encode_with (rlp_append_u64 now);
                 Some (a\<lparr>ar_latest_era := Some now\<rparr>, tx_put batch (ar_db_name a) LATEST_ERA_KEY era,
                       (inserts + deletes) mod 2 ^ 32) }
          else Some (a, batch, (inserts + deletes) mod 2 ^ 32) }"

definition archive_mark_canonical :: "archive_db \<Rightarrow> nat" where
  "archive_mark_canonical a = 0"

text \<open>\<open>inject\<close>: the overlay is already drained when an error is returned.\<close>

fun inject_entries ::
  "archive_db \<Rightarrow> (bytes \<times> bytes \<times> int) list \<Rightarrow> db_transaction \<Rightarrow> nat \<Rightarrow> nat \<Rightarrow>
     db_transaction \<times> (base_data_error, nat \<times> nat) outcome" where
  "inject_entries a [] batch inserts deletes = (batch, Ok (inserts, deletes))"
| "inject_entries a ((key, value, rc) # es) batch inserts deletes =
     (if rc > 0 then
        (case archive_payload a key of
           None \<Rightarrow> (batch, Panic)
         | Some (Some _) \<Rightarrow> (batch, Err (AlreadyExists key))
         | Some None \<Rightarrow>
             inject_entries a es (tx_put batch (ar_db_name a) key value) (inserts + 1) deletes)
      else if rc < 0 then
        (if rc \<noteq> -1 then (batch, Panic)
         else case archive_payload a key of
           None \<Rightarrow> (batch, Panic)
         | Some None \<Rightarrow> (batch, Err (NegativelyReferencedHash key))
         | Some (Some _) \<Rightarrow>
             inject_entries a es (tx_delete batch (ar_db_name a) key) inserts (deletes + 1))
      else inject_entries a es batch inserts deletes)"

definition archive_inject ::
  "archive_db \<Rightarrow> (bytes \<times> bytes \<times> int) list \<Rightarrow> db_transaction \<Rightarrow>
     archive_db \<times> db_transaction \<times> (base_data_error, nat) outcome" where
  "archive_inject a entries batch =
     (case inject_entries a entries batch 0 0 of
        (batch, r) \<Rightarrow>
          (a\<lparr>ar_overlay := Map.empty\<rparr>, batch, omap (\<lambda>(i, d). (i + d) mod 2 ^ 32) r))"

definition archive_state :: "archive_db \<Rightarrow> bytes \<Rightarrow> bytes option" where
  "archive_state a key = repo_get_by_prefix (ar_backing a) (ar_db_name a) (take PREFIX_LEN key)"

definition archive_consolidate :: "archive_db \<Rightarrow> (bytes \<times> bytes \<times> int) list \<Rightarrow> archive_db" where
  "archive_consolidate a entries = a\<lparr>ar_overlay := mdb_consolidate (ar_overlay a) entries\<rparr>"

section \<open>What a commit writes\<close>

fun tx_ops :: "db_transaction \<Rightarrow> string \<Rightarrow> db_op list" where
  "tx_ops tx name = (case tx name of Some ops \<Rightarrow> ops | None \<Rightarrow> [])"

declare tx_ops.simps [simp del]

lemma tx_ops_put [simp]: "tx_ops (tx_put tx name k v) name = tx_ops tx name @ [DB_Insert k v]"
  by (simp add: tx_ops.simps tx_put_def multimap_insert_def split: option.split)

lemma tx_ops_delete [simp]: "tx_ops (tx_delete tx name k) name = tx_ops tx name @ [DB_Delete k]"
  by (simp add: tx_ops.simps tx_delete_def multimap_insert_def split: option.split)

lemma tx_ops_new [simp]: "tx_ops tx_new name = []"
  by (simp add: tx_ops.simps tx_new_def)

lemma dom_tx_put [simp]: "dom (tx_put tx name k v) = insert name (dom tx)"
  by (simp add: tx_put_def multimap_insert_def)

lemma dom_tx_new [simp]: "dom tx_new = {}"
  by (simp add: tx_new_def)

lemma last_op_append [simp]: "last_op (ops @ ops') k old = last_op ops' k (last_op ops k old)"
  by (induction ops k old rule: last_op.induct) auto

lemma journal_entries_ops:
  assumes "journal_entries name es batch i d = Some (batch', i', d')" and "distinct (map fst es)"
  shows "last_op (tx_ops batch' name) k old =
      (case map_of es k of Some (v, rc) \<Rightarrow> if rc > 0 then Some v else last_op (tx_ops batch name) k old
       | None \<Rightarrow> last_op (tx_ops batch name) k old)"
    and "dom batch' \<subseteq> insert name (dom batch)"
proof -
  have "last_op (tx_ops batch' name) k old =
      (case map_of es k of Some (v, rc) \<Rightarrow> if rc > 0 then Some v else last_op (tx_ops batch name) k old
       | None \<Rightarrow> last_op (tx_ops batch name) k old) \<and> dom batch' \<subseteq> insert name (dom batch)"
    using assms
  proof (induction name es batch i d rule: journal_entries.induct)
    case (2 name key val rc es batch i d)
    have "map_of es key = None" using 2(5) by (simp add: map_of_eq_None_iff)
    then show ?case
      using 2 by (cases "k = key") (auto split: if_splits option.split)
  qed auto
  then show "last_op (tx_ops batch' name) k old =
      (case map_of es k of Some (v, rc) \<Rightarrow> if rc > 0 then Some v else last_op (tx_ops batch name) k old
       | None \<Rightarrow> last_op (tx_ops batch name) k old)"
    and "dom batch' \<subseteq> insert name (dom batch)" by auto
qed

section \<open>Commits are invisible to reads\<close>

lemma journal_entries_total:
  "\<forall>(k, v, rc) \<in> set es. -1 \<le> rc \<Longrightarrow> \<exists>r. journal_entries name es batch i d = Some r"
  by (induction name es batch i d rule: journal_entries.induct) auto

lemma write_reads:
  assumes "\<forall>db \<in> ran (repo_dbs r). mock_ok db" and "distinct names" and "set names = dom tx"
    and "repo_dbs r name \<noteq> None"
  shows "backing_get (write_buffered tx names r) name key =
    map_option (last_op (tx_ops tx name) key) (backing_get r name key)"
  using write_buffered_reads [OF assms(1-3), of name key] assms(4)
  by (auto simp: backing_get_def tx_ops.simps repo_get_def split: option.splits)

text \<open>The era in memory is the one on disk.\<close>

definition era_persisted :: "archive_db \<Rightarrow> bool" where
  "era_persisted a \<longleftrightarrow>
     (case ar_latest_era a of
        None \<Rightarrow> backing_get (ar_backing a) (ar_db_name a) LATEST_ERA_KEY = Some None
      | Some e \<Rightarrow> Option.bind (backing_get (ar_backing a) (ar_db_name a) LATEST_ERA_KEY)
                   (\<lambda>v. Option.bind v (rlp_decode (decode_uint 8))) = Some e)"

lemma archive_new_persisted:
  assumes "era_persisted a"
  shows "archive_new (ar_backing a) (ar_db_name a) = Some (a\<lparr>ar_overlay := mdb_new\<rparr>)"
  using assms
  by (cases a; cases "ar_latest_era a")
    (auto simp: era_persisted_def archive_new_def bind_eq_Some_conv split: option.splits)

text \<open>The batch of a commit, and the state it leaves in memory.\<close>

lemma archive_journal_under_batch:
  assumes ent: "distinct (map fst es)" "map_of es = ar_overlay a" "\<forall>(k, v, rc) \<in> set es. -1 \<le> rc"
    and now: "now < 2 ^ 64"
  shows "\<exists>a' batch n. archive_journal_under a es tx_new now = Some (a', batch, n) \<and>
    ar_backing a' = ar_backing a \<and> ar_db_name a' = ar_db_name a \<and> ar_overlay a' = Map.empty \<and>
    ar_latest_era a' = (case ar_latest_era a of None \<Rightarrow> Some now | Some e \<Rightarrow> Some (max e now)) \<and>
    dom batch \<subseteq> {ar_db_name a} \<and>
    (\<forall>k old. k \<noteq> LATEST_ERA_KEY \<longrightarrow> last_op (tx_ops batch (ar_db_name a)) k old =
       (case ar_overlay a k of Some (v, rc) \<Rightarrow> if rc > 0 then Some v else old | None \<Rightarrow> old)) \<and>
    (\<forall>old. ar_overlay a LATEST_ERA_KEY = None \<longrightarrow>
       Option.bind (last_op (tx_ops batch (ar_db_name a)) LATEST_ERA_KEY old) (rlp_decode (decode_uint 8)) =
       (case ar_latest_era a of
          None \<Rightarrow> Some now
        | Some e \<Rightarrow> if e < now then Some now else Option.bind old (rlp_decode (decode_uint 8))))"
proof -
  let ?name = "ar_db_name a"
  obtain b i d where b: "journal_entries ?name es tx_new 0 0 = Some (b, i, d)"
    using journal_entries_total [OF ent(3)] by (metis prod_cases3)
  note ops = journal_entries_ops [OF b ent(1), unfolded ent(2)]
  have dom_b: "dom b \<subseteq> {?name}" using ops(2) by simp
  obtain bs where bs: "encode_with (rlp_append_u64 now) = Some bs" "rlp_decode (decode_uint 8) bs = Some now"
    using u64_encoded [OF now] by blast
  show ?thesis
  proof (cases "case ar_latest_era a of None \<Rightarrow> True | Some e \<Rightarrow> e < now")
    case True
    then show ?thesis
      using b bs dom_b ops(1) by (auto simp: archive_journal_under_def Let_def split: option.splits)
  next
    case False
    then show ?thesis
      using b dom_b ops(1) by (auto simp: archive_journal_under_def Let_def split: option.splits)
  qed
qed

section \<open>Properties\<close>

text \<open>C10. Archive commits are durable and invisible: with no key in the overlay removed more than
  once beyond its insertions, \<open>journal_under\<close> succeeds, and after its batch is written and the
  process restarts, the new \<open>ArchiveDB\<close> has the committed latest era and every key reads
  exactly as it read before the commit, inserted and removed ones included.\<close>

theorem archive_commit_durable:
  assumes "\<forall>db \<in> ran (repo_dbs (ar_backing a)). mock_ok db"
    and "repo_dbs (ar_backing a) (ar_db_name a) \<noteq> None"
    and "distinct (map fst es)" and "map_of es = ar_overlay a"
    and "\<forall>(k, v, rc) \<in> set es. -1 \<le> rc" and "ar_overlay a LATEST_ERA_KEY = None"
    and "era_persisted a" and "now < 2 ^ 64"
  shows "\<exists>a' batch n. archive_journal_under a es tx_new now = Some (a', batch, n) \<and>
    (\<forall>names. distinct names \<longrightarrow> set names = dom batch \<longrightarrow>
      (\<exists>a''. archive_new (write_buffered batch names (ar_backing a')) (ar_db_name a) = Some a'' \<and>
         ar_latest_era a'' = ar_latest_era a' \<and>
         (\<forall>k. k \<noteq> LATEST_ERA_KEY \<longrightarrow> archive_get a'' k = archive_get a k)))"
proof -
  let ?name = "ar_db_name a"
  obtain a' batch n where run: "archive_journal_under a es tx_new now = Some (a', batch, n)"
    and keep: "ar_backing a' = ar_backing a" "ar_db_name a' = ?name" "ar_overlay a' = Map.empty"
    and era': "ar_latest_era a' = (case ar_latest_era a of None \<Rightarrow> Some now | Some e \<Rightarrow> Some (max e now))"
    and reads: "\<forall>k old. k \<noteq> LATEST_ERA_KEY \<longrightarrow> last_op (tx_ops batch ?name) k old =
       (case ar_overlay a k of Some (v, rc) \<Rightarrow> if rc > 0 then Some v else old | None \<Rightarrow> old)"
    and latest: "\<forall>old. Option.bind (last_op (tx_ops batch ?name) LATEST_ERA_KEY old) (rlp_decode (decode_uint 8)) =
       (case ar_latest_era a of
          None \<Rightarrow> Some now
        | Some e \<Rightarrow> if e < now then Some now else Option.bind old (rlp_decode (decode_uint 8)))"
    using archive_journal_under_batch [OF assms(3,4,5,8)] assms(6) by blast
  have durable: "\<exists>a''. archive_new (write_buffered batch names (ar_backing a')) ?name = Some a'' \<and>
      ar_latest_era a'' = ar_latest_era a' \<and> (\<forall>k. k \<noteq> LATEST_ERA_KEY \<longrightarrow> archive_get a'' k = archive_get a k)"
    if "distinct names" "set names = dom batch" for names
  proof -
    let ?w = "a'\<lparr>ar_backing := write_buffered batch names (ar_backing a')\<rparr>"
    have disk: "backing_get (ar_backing ?w) ?name k =
        map_option (last_op (tx_ops batch ?name) k) (backing_get (ar_backing a) ?name k)" for k
      using write_reads [OF assms(1) that assms(2)] keep by simp
    obtain v where v: "backing_get (ar_backing a) ?name LATEST_ERA_KEY = Some v"
      using assms(2) by (auto simp: backing_get_def repo_get_def)
    have "Option.bind (last_op (tx_ops batch ?name) LATEST_ERA_KEY v) (rlp_decode (decode_uint 8)) = ar_latest_era a'"
      using latest [rule_format, of v] assms(7) v era' by (auto simp: era_persisted_def max_def split: option.splits)
    moreover have "ar_latest_era a' \<noteq> None" using era' by (auto split: option.splits)
    ultimately have "era_persisted ?w"
      using disk [of LATEST_ERA_KEY] v keep(2) by (auto simp: era_persisted_def)
    from archive_new_persisted [OF this]
    have new: "archive_new (write_buffered batch names (ar_backing a')) ?name = Some (?w\<lparr>ar_overlay := mdb_new\<rparr>)"
      using keep(2) by simp
    have "archive_get (?w\<lparr>ar_overlay := mdb_new\<rparr>) k = archive_get a k" if "k \<noteq> LATEST_ERA_KEY" for k
      using disk [of k] reads that keep(2) assms(2)
      by (auto simp: archive_get_def archive_payload_def mdb_raw_def mdb_new_def backing_get_def repo_get_def
          split: option.splits)
    with new show ?thesis by simp
  qed
  show ?thesis using run durable by blast
qed

definition sample_archive :: archive_db where
  "sample_archive = \<lparr>ar_overlay = [[1] \<mapsto> ([7], 1), [2] \<mapsto> ([], -1)], ar_backing = repo_init [''state''],
     ar_latest_era = None, ar_db_name = ''state''\<rparr>"

theorem archive_commit_durable_witness:
  "\<exists>a' batch n. archive_journal_under sample_archive [([1], [7], 1), ([2], [], -1)] tx_new 5 = Some (a', batch, n) \<and>
    (\<forall>names. distinct names \<longrightarrow> set names = dom batch \<longrightarrow>
      (\<exists>a''. archive_new (write_buffered batch names (ar_backing a')) (ar_db_name sample_archive) = Some a'' \<and>
         ar_latest_era a'' = ar_latest_era a' \<and>
         (\<forall>k. k \<noteq> LATEST_ERA_KEY \<longrightarrow> archive_get a'' k = archive_get sample_archive k)))"
  by (rule archive_commit_durable)
    (auto simp: sample_archive_def repo_init_def mock_new_def mock_ok_def LATEST_ERA_KEY_def era_persisted_def
      backing_get_def repo_get_def mock_get_def)

end
