(* ===== verification/Overlay_DB.thy ===== *)
theory Overlay_DB
  imports Archive_DB
begin

text \<open>
  The pruning journal \<open>OverlayRecentDB\<close> of \<open>db/journaldb/src/overlayrecentdb.rs\<close>, with the
  default methods of \<open>db/journaldb/src/traits.rs\<close>.

  Three layers answer a read: the uncommitted \<open>transaction_overlay\<close>, the \<open>backing_overlay\<close> of
  everything the journal still holds (keyed by the first twelve bytes of the key), and the
  database.  \<open>journal_under\<close> moves the first layer into the second and writes a journal record;
  \<open>mark_canonical\<close> moves the insertions of one record to the database and forgets its rivals;
  \<open>read_overlay\<close> rebuilds the second layer from the records after a restart.

  A drained hash map is the list of its entries in the order the map is visited, an argument;
  a panic is \<open>None\<close>.  The loops of \<open>read_overlay\<close> end when a record is missing in the database;
  they are partial functions whose value is \<open>None\<close> also if they never return.  This theory holds
  the definitions and how the operations act on reads; \<open>Overlay_Recovery\<close> relates the journal
  to its records on disk.
\<close>

section \<open>State\<close>

record journal_entry =
  je_id :: bytes
  je_insertions :: "bytes list"
  je_deletions :: "bytes list"

record journal_overlay =
  jo_backing_overlay :: memory_db
  jo_pending_overlay :: "bytes \<rightharpoonup> bytes"
  jo_journal :: "nat \<rightharpoonup> journal_entry list"
  jo_latest_era :: "nat option"
  jo_earliest_era :: "nat option"
  jo_cumulative_size :: nat

record overlay_db =
  ov_transaction_overlay :: memory_db
  ov_backing :: mock_repository
  ov_journal_overlay :: journal_overlay
  ov_db_name :: string

definition PADDING :: bytes where
  "PADDING = replicate 10 0"

definition to_short_key :: "bytes \<Rightarrow> bytes" where
  "to_short_key key = take PREFIX_LEN key @ replicate (32 - PREFIX_LEN) 0"

text \<open>The database key of a journal record, written the same way in three places.\<close>

definition journal_key :: "nat \<Rightarrow> nat \<Rightarrow> bytes option" where
  "journal_key era index =
     do { r \<leftarrow> new_list 3;
          r \<leftarrow> append_with (rlp_append_u64 era) r;
          r \<leftarrow> append_with (rlp_append_usize index) r;
          r \<leftarrow> append_with (rlp_append_bytes PADDING) r;
          drain r }"

section \<open>Reading the journal back\<close>

fun read_insertions ::
  "untrusted_rlp list \<Rightarrow> memory_db \<Rightarrow> nat \<Rightarrow> bytes list \<Rightarrow> (memory_db \<times> nat \<times> bytes list) option" where
  "read_insertions [] overlay cumulative_size inserted_keys = Some (overlay, cumulative_size, inserted_keys)"
| "read_insertions (r # rs) overlay cumulative_size inserted_keys =
     (case trusted_val_at (decode_hash 32) r 0 of (k, r) \<Rightarrow>
        do { k \<leftarrow> k;
             x \<leftarrow> fst (trusted_at r 1);
             v \<leftarrow> trusted_data x;
             let short_key = to_short_key k;
                 cumulative_size =
                   (if \<not> mdb_contains overlay short_key then cumulative_size + length v else cumulative_size)
             in read_insertions rs (mdb_emplace overlay short_key v) cumulative_size (inserted_keys @ [k]) })"

type_synonym read_state = "(nat \<rightharpoonup> journal_entry list) \<times> memory_db \<times> nat option \<times> nat"

definition push_entry :: "(nat \<rightharpoonup> journal_entry list) \<Rightarrow> nat \<Rightarrow> journal_entry \<Rightarrow> nat \<rightharpoonup> journal_entry list" where
  "push_entry journal era e =
     journal(era \<mapsto> (case journal era of Some es \<Rightarrow> es | None \<Rightarrow> []) @ [e])"

definition read_record :: "nat \<Rightarrow> bytes \<Rightarrow> read_state \<Rightarrow> read_state option" where
  "read_record era record_rlp st =
     (case st of (journal, overlay, earliest_era, cumulative_size) \<Rightarrow>
        case trusted_val_at (decode_hash 32) (untrusted_new record_rlp) 0 of (eid, rlp) \<Rightarrow>
        do { eid \<leftarrow> eid;
             (case trusted_at rlp 1 of (insertions, rlp) \<Rightarrow>
                do { insertions \<leftarrow> insertions;
                     deletions \<leftarrow> fst (trusted_list_at (decode_hash 32) rlp 2);
                     (items, _) \<leftarrow> iter_collect (length (rlp_bytes insertions) + 1) (rlp_iter insertions);
                     (overlay, cumulative_size, inserted_keys) \<leftarrow> read_insertions items overlay cumulative_size [];
                     Some (push_entry journal era
                             \<lparr>je_id = eid, je_insertions = inserted_keys, je_deletions = deletions\<rparr>,
                           overlay, Some era, cumulative_size) }) })"

partial_function (option) read_era ::
  "mock_repository \<Rightarrow> string \<Rightarrow> nat \<Rightarrow> nat \<Rightarrow> read_state \<Rightarrow> (nat \<times> read_state) option" where
  "read_era db db_name era index st =
     do { key \<leftarrow> journal_key era index;
          val \<leftarrow> backing_get db db_name key;
          (case val of
             None \<Rightarrow> Some (index, st)
           | Some record_rlp \<Rightarrow>
               do { st \<leftarrow> read_record era record_rlp st;
                    read_era db db_name era (index + 1) st }) }"

partial_function (option) read_eras ::
  "mock_repository \<Rightarrow> string \<Rightarrow> nat \<Rightarrow> read_state \<Rightarrow> read_state option" where
  "read_eras db db_name era st =
     do { r \<leftarrow> read_era db db_name era 0 st;
          if fst r = 0 \<or> era = 0 then Some (snd r) else read_eras db db_name (era - 1) (snd r) }"

definition read_overlay :: "mock_repository \<Rightarrow> string \<Rightarrow> journal_overlay option" where
  "read_overlay db db_name =
     do { val \<leftarrow> backing_get db db_name LATEST_ERA_KEY;
          (latest_era, journal, overlay, earliest_era, cumulative_size) \<leftarrow>
            (case val of
               Some val \<Rightarrow>
                 do { era \<leftarrow> rlp_decode (decode_uint 8) val;
                      st \<leftarrow> read_eras db db_name era (Map.empty, mdb_new, None, 0);
                      Some (Some era, st) }
             | None \<Rightarrow> Some (None, Map.empty, mdb_new, None, 0));
          Some \<lparr>jo_backing_overlay = overlay, jo_pending_overlay = Map.empty, jo_journal = journal,
                jo_latest_era = latest_era, jo_earliest_era = earliest_era,
                jo_cumulative_size = cumulative_size\<rparr> }"

definition overlay_new :: "mock_repository \<Rightarrow> string \<Rightarrow> overlay_db option" where
  "overlay_new backing db_name =
     do { journal_overlay \<leftarrow> read_overlay backing db_name;
          Some \<lparr>ov_transaction_overlay = mdb_new, ov_backing = backing,
                ov_journal_overlay = journal_overlay, ov_db_name = db_name\<rparr> }"

section \<open>The hash store\<close>

definition overlay_payload :: "overlay_db \<Rightarrow> bytes \<Rightarrow> bytes option option" where
  "overlay_payload d key = backing_get (ov_backing d) (ov_db_name d) key"

definition overlay_get :: "overlay_db \<Rightarrow> bytes \<Rightarrow> bytes option option" where
  "overlay_get d key =
     (let later =
        (let jo = ov_journal_overlay d; short = to_short_key key;
             v = (case mdb_get (jo_backing_overlay jo) short of
                    Some v \<Rightarrow> Some v | None \<Rightarrow> jo_pending_overlay jo short)
         in case v of Some v \<Rightarrow> Some (Some v) | None \<Rightarrow> overlay_payload d key)
      in case mdb_raw (ov_transaction_overlay d) key of
           Some (v, rc) \<Rightarrow> if rc > 0 then Some (Some v) else later
         | None \<Rightarrow> later)"

definition overlay_contains :: "overlay_db \<Rightarrow> bytes \<Rightarrow> bool option" where
  "overlay_contains d key = do { v \<leftarrow> overlay_get d key; Some (v \<noteq> None) }"

definition overlay_keys :: "(bytes \<Rightarrow> bytes) \<Rightarrow> overlay_db \<Rightarrow> bytes \<rightharpoonup> int" where
  "overlay_keys from_slice d =
     (let ret = fold (\<lambda>(key, _) m. m(from_slice key \<mapsto> 1)) (repo_iter (ov_backing d) (ov_db_name d)) Map.empty
      in (\<lambda>k. case mdb_keys (ov_transaction_overlay d) k of
                Some refs \<Rightarrow> (case ret k of Some n \<Rightarrow> Some (add_i32 n refs) | None \<Rightarrow> Some refs)
              | None \<Rightarrow> ret k))"

definition overlay_insert :: "overlay_db \<Rightarrow> bytes \<Rightarrow> bytes \<times> overlay_db" where
  "overlay_insert d value =
     (case mdb_insert blake2b_key (ov_transaction_overlay d) value of
        (k, m) \<Rightarrow> (k, d\<lparr>ov_transaction_overlay := m\<rparr>))"

definition overlay_emplace :: "overlay_db \<Rightarrow> bytes \<Rightarrow> bytes \<Rightarrow> overlay_db" where
  "overlay_emplace d key value =
     d\<lparr>ov_transaction_overlay := mdb_emplace (ov_transaction_overlay d) key value\<rparr>"

definition overlay_remove :: "overlay_db \<Rightarrow> bytes \<Rightarrow> overlay_db" where
  "overlay_remove d key = d\<lparr>ov_transaction_overlay := mdb_remove (ov_transaction_overlay d) key\<rparr>"

section \<open>The journal\<close>

definition overlay_journal_size :: "overlay_db \<Rightarrow> nat" where
  "overlay_journal_size d = jo_cumulative_size (ov_journal_overlay d)"

definition overlay_is_empty :: "overlay_db \<Rightarrow> bool option" where
  "overlay_is_empty d = do { v \<leftarrow> overlay_payload d LATEST_ERA_KEY; Some (v = None) }"

definition overlay_latest_era :: "overlay_db \<Rightarrow> nat option" where
  "overlay_latest_era d = jo_latest_era (ov_journal_overlay d)"

definition overlay_earliest_era :: "overlay_db \<Rightarrow> nat option" where
  "overlay_earliest_era d = jo_earliest_era (ov_journal_overlay d)"

definition overlay_state :: "overlay_db \<Rightarrow> bytes \<Rightarrow> bytes option" where
  "overlay_state d key =
     (let jo = ov_journal_overlay d; key = to_short_key key
      in case mdb_get (jo_backing_overlay jo) key of
           Some v \<Rightarrow> Some v
         | None \<Rightarrow>
             (case jo_pending_overlay jo key of
                Some v \<Rightarrow> Some v
              | None \<Rightarrow> repo_get_by_prefix (ov_backing d) (ov_db_name d) (take PREFIX_LEN key)))"

text \<open>The loop of \<open>journal_under\<close> over the insertions: the record being written, the overlay
  and its size.\<close>

fun journal_insertions ::
  "(bytes \<times> bytes) list \<Rightarrow> rlp_stream \<Rightarrow> memory_db \<Rightarrow> nat \<Rightarrow> (rlp_stream \<times> memory_db \<times> nat) option" where
  "journal_insertions [] r overlay cumulative_size = Some (r, overlay, cumulative_size)"
| "journal_insertions ((k, v) # es) r overlay cumulative_size =
     do { r \<leftarrow> begin_list r 2;
          r \<leftarrow> append_with (rlp_append_hash k) r;
          r \<leftarrow> append_with (rlp_append_bytes v) r;
          let short_key = to_short_key k;
              cumulative_size =
                (if \<not> mdb_contains overlay short_key then cumulative_size + length v else cumulative_size)
          in journal_insertions es r (mdb_emplace overlay short_key v) cumulative_size }"

definition overlay_journal_under ::
  "overlay_db \<Rightarrow> (bytes \<times> bytes \<times> int) list \<Rightarrow> db_transaction \<Rightarrow> nat \<Rightarrow> bytes \<Rightarrow>
     (overlay_db \<times> db_transaction \<times> nat) option" where
  "overlay_journal_under d tx batch now eid =
     (let jo = (ov_journal_overlay d)\<lparr>jo_pending_overlay := Map.empty\<rparr>;
          d = d\<lparr>ov_transaction_overlay := Map.empty\<rparr>;
          inserted_keys = map fst (filter (\<lambda>(k, v, c). c > 0) tx);
          removed_keys = map fst (filter (\<lambda>(k, v, c). c < 0) tx);
          ops = length inserted_keys + length removed_keys;
          insertions = map (\<lambda>(k, v, c). (k, v)) (filter (\<lambda>(k, v, c). c > 0) tx)
      in do { r \<leftarrow> new_list 3;
              r \<leftarrow> append_with (rlp_append_hash eid) r;
              r \<leftarrow> begin_list r (length inserted_keys);
              (r, overlay, cumulative_size) \<leftarrow>
                journal_insertions insertions r (jo_backing_overlay jo) (jo_cumulative_size jo);
              r \<leftarrow> append_list (map rlp_append_hash removed_keys) r;
              key \<leftarrow> journal_key now (case jo_journal jo now of Some j \<Rightarrow> length j | None \<Rightarrow> 0);
              r \<leftarrow> out r;
              let batch = tx_put batch (ov_db_name d) key r;
                  newest = (case jo_latest_era jo of None \<Rightarrow> True | Some e \<Rightarrow> e < now);
                  oldest = (case jo_earliest_era jo of None \<Rightarrow> True | Some e \<Rightarrow> now < e)
              in do { batch \<leftarrow> (if newest then
                                   do { era \<leftarrow> encode_with (rlp_append_u64 now);
                                        Some (tx_put batch (ov_db_name d) LATEST_ERA_KEY era) }
                                 else Some batch);
                      Some (d\<lparr>ov_journal_overlay := jo\<lparr>
                                jo_backing_overlay := overlay,
                                jo_cumulative_size := cumulative_size,
                                jo_latest_era := (if newest then Some now else jo_latest_era jo),
                                jo_earliest_era := (if oldest then Some now else jo_earliest_era jo),
                                jo_journal := push_entry (jo_journal jo) now
                                  \<lparr>je_id = eid, je_insertions = inserted_keys, je_deletions = removed_keys\<rparr>\<rparr>\<rparr>,
                            batch, ops mod 2 ^ 32) } })"

text \<open>The loops of \<open>mark_canonical\<close>: over the records of the era, the canonical insertions, the
  keys to drop from the overlay, and the canonical deletions.\<close>

fun canon_values :: "bytes list \<Rightarrow> memory_db \<Rightarrow> (bytes \<times> bytes) list" where
  "canon_values [] overlay = []"
| "canon_values (h # hs) overlay =
     (case mdb_raw overlay (to_short_key h) of
        Some (d, rc) \<Rightarrow> if rc > 0 then (h, d) # canon_values hs overlay else canon_values hs overlay
      | None \<Rightarrow> canon_values hs overlay)"

fun drain_records ::
  "string \<Rightarrow> nat \<Rightarrow> bytes \<Rightarrow> memory_db \<Rightarrow> journal_entry list \<Rightarrow> nat \<Rightarrow>
     db_transaction \<times> (bytes \<times> bytes) list \<times> bytes list \<times> bytes list \<Rightarrow>
     (db_transaction \<times> (bytes \<times> bytes) list \<times> bytes list \<times> bytes list) option" where
  "drain_records name end_era canon_id overlay [] index st = Some st"
| "drain_records name end_era canon_id overlay (journal # records) index
     (batch, canon_insertions, canon_deletions, overlay_deletions) =
     do { key \<leftarrow> journal_key end_era index;
          let batch = tx_delete batch name key;
              (canon_insertions, canon_deletions) =
                (if canon_id = je_id journal
                 then (canon_insertions @ canon_values (je_insertions journal) overlay, je_deletions journal)
                 else (canon_insertions, canon_deletions))
          in drain_records name end_era canon_id overlay records (index + 1)
               (batch, canon_insertions, canon_deletions, overlay_deletions @ je_insertions journal) }"

fun apply_canon_insertions ::
  "string \<Rightarrow> (bytes \<times> bytes) list \<Rightarrow> db_transaction \<Rightarrow> (bytes \<rightharpoonup> bytes) \<Rightarrow>
     db_transaction \<times> (bytes \<rightharpoonup> bytes)" where
  "apply_canon_insertions name [] batch waiting = (batch, waiting)"
| "apply_canon_insertions name ((k, v) # es) batch waiting =
     apply_canon_insertions name es (tx_put batch name k v) (waiting(to_short_key k \<mapsto> v))"

text \<open>\<open>None\<close> is the underflow of \<open>cumulative_size\<close>.\<close>

fun drop_overlay :: "bytes list \<Rightarrow> memory_db \<Rightarrow> nat \<Rightarrow> (memory_db \<times> nat) option" where
  "drop_overlay [] overlay cumulative_size = Some (overlay, cumulative_size)"
| "drop_overlay (k # ks) overlay cumulative_size =
     (case mdb_remove_and_purge overlay (to_short_key k) of
        (Some val, overlay) \<Rightarrow>
          do { cumulative_size \<leftarrow> checked_sub cumulative_size (length val);
               drop_overlay ks overlay cumulative_size }
      | (None, overlay) \<Rightarrow> drop_overlay ks overlay cumulative_size)"

fun apply_canon_deletions :: "string \<Rightarrow> bytes list \<Rightarrow> memory_db \<Rightarrow> db_transaction \<Rightarrow> db_transaction" where
  "apply_canon_deletions name [] overlay batch = batch"
| "apply_canon_deletions name (k # ks) overlay batch =
     apply_canon_deletions name ks overlay
       (if \<not> mdb_contains overlay (to_short_key k) then tx_delete batch name k else batch)"

text \<open>The last step: the era is forgotten and the earliest era moves on; \<open>None\<close> is the overflow
  of \<open>end_era + 1\<close>.\<close>

definition close_era :: "journal_overlay \<Rightarrow> nat \<Rightarrow> journal_overlay option" where
  "close_era jo end_era =
     (let jo = jo\<lparr>jo_journal := (jo_journal jo)(end_era := None)\<rparr>
      in if jo_journal jo = Map.empty then Some jo
         else if end_era + 1 < 2 ^ 64 then Some (jo\<lparr>jo_earliest_era := Some (end_era + 1)\<rparr>)
         else None)"

definition overlay_mark_canonical ::
  "overlay_db \<Rightarrow> db_transaction \<Rightarrow> nat \<Rightarrow> bytes \<Rightarrow> (overlay_db \<times> db_transaction \<times> nat) option" where
  "overlay_mark_canonical d batch end_era canon_id =
     (let jo = ov_journal_overlay d; name = ov_db_name d
      in do { (jo, batch, ops) \<leftarrow>
                (case jo_journal jo end_era of
                   Some records \<Rightarrow>
                     do { (batch, canon_insertions, canon_deletions, overlay_deletions) \<leftarrow>
                            drain_records name end_era canon_id (jo_backing_overlay jo) records 0 (batch, [], [], []);
                          let ops = length canon_insertions + length canon_deletions;
                              (batch, waiting) =
                                apply_canon_insertions name canon_insertions batch (jo_pending_overlay jo)
                          in do { (overlay, cumulative_size) \<leftarrow>
                                    drop_overlay overlay_deletions (jo_backing_overlay jo) (jo_cumulative_size jo);
                                  Some (jo\<lparr>jo_pending_overlay := waiting, jo_backing_overlay := overlay,
                                           jo_cumulative_size := cumulative_size\<rparr>,
                                        apply_canon_deletions name canon_deletions overlay batch, ops) } }
                 | None \<Rightarrow> Some (jo, batch, 0));
              jo \<leftarrow> close_era jo end_era;
              Some (d\<lparr>ov_journal_overlay := jo\<rparr>, batch, ops mod 2 ^ 32) })"

definition overlay_flush :: "overlay_db \<Rightarrow> overlay_db" where
  "overlay_flush d =
     d\<lparr>ov_journal_overlay := (ov_journal_overlay d)\<lparr>jo_pending_overlay := Map.empty\<rparr>\<rparr>"

text \<open>\<open>inject\<close>; \<open>debug\<close> is \<open>cfg!(debug_assertions)\<close>.\<close>

fun overlay_inject_entries ::
  "bool \<Rightarrow> overlay_db \<Rightarrow> (bytes \<times> bytes \<times> int) list \<Rightarrow> db_transaction \<Rightarrow> nat \<Rightarrow>
     db_transaction \<times> (base_data_error, nat) outcome" where
  "overlay_inject_entries debug d [] batch ops = (batch, Ok ops)"
| "overlay_inject_entries debug d ((key, value, rc) # es) batch ops =
     (let ops = (if rc \<noteq> 0 then ops + 1 else ops)
      in if rc = 0 then overlay_inject_entries debug d es batch ops
         else if rc > 0 then overlay_inject_entries debug d es (tx_put batch (ov_db_name d) key value) ops
         else if rc = -1 then
           (case (if debug then overlay_payload d key else Some (Some [])) of
              None \<Rightarrow> (batch, Panic)
            | Some None \<Rightarrow> (batch, Err (NegativelyReferencedHash key))
            | Some (Some _) \<Rightarrow>
                overlay_inject_entries debug d es (tx_delete batch (ov_db_name d) key) ops)
         else (batch, Panic))"

definition overlay_inject ::
  "bool \<Rightarrow> overlay_db \<Rightarrow> (bytes \<times> bytes \<times> int) list \<Rightarrow> db_transaction \<Rightarrow>
     overlay_db \<times> db_transaction \<times> (base_data_error, nat) outcome" where
  "overlay_inject debug d entries batch =
     (case overlay_inject_entries debug d entries batch 0 of
        (batch, r) \<Rightarrow> (d\<lparr>ov_transaction_overlay := Map.empty\<rparr>, batch, r))"

definition overlay_consolidate :: "overlay_db \<Rightarrow> (bytes \<times> bytes \<times> int) list \<Rightarrow> overlay_db" where
  "overlay_consolidate d entries =
     d\<lparr>ov_transaction_overlay := mdb_consolidate (ov_transaction_overlay d) entries\<rparr>"

text \<open>\<open>commit_batch\<close>, the default method of \<open>JournalDB\<close>; \<open>names\<close> is the order in which the
  databases of the batch are written.\<close>

definition overlay_commit_batch ::
  "overlay_db \<Rightarrow> (bytes \<times> bytes \<times> int) list \<Rightarrow> nat \<Rightarrow> bytes \<Rightarrow> (nat \<times> bytes) option \<Rightarrow> (db_transaction \<Rightarrow> string list) \<Rightarrow>
     (overlay_db \<times> nat) option" where
  "overlay_commit_batch d tx now eid fin names =
     do { (d, batch, ops) \<leftarrow> overlay_journal_under d tx tx_new now eid;
          (d, batch, ops) \<leftarrow>
            (case fin of
               Some (end_era, canon_id) \<Rightarrow>
                 do { (d, batch, n) \<leftarrow> overlay_mark_canonical d batch end_era canon_id;
                      Some (d, batch, (ops + n) mod 2 ^ 32) }
             | None \<Rightarrow> Some (d, batch, ops));
          Some (overlay_flush (d\<lparr>ov_backing := write_buffered batch (names batch) (ov_backing d)\<rparr>), ops) }"

section \<open>The history overlay as a function of the journal\<close>

text \<open>
  How often the journal inserts a short key.  \<open>content\<close> gives each short key its value: keys
  are hashes, and two keys with the same first twelve bytes are assumed to hold the same value.
\<close>

definition entry_keys :: "journal_entry \<Rightarrow> bytes list" where
  "entry_keys e = map to_short_key (je_insertions e)"

definition era_keys :: "journal_entry list \<Rightarrow> bytes list" where
  "era_keys es = concat (map entry_keys es)"

definition refs :: "(nat \<rightharpoonup> journal_entry list) \<Rightarrow> bytes \<Rightarrow> nat" where
  "refs j s = (\<Sum>e \<in> dom j. count_list (era_keys (the (j e))) s)"

definition overlay_of :: "(bytes \<Rightarrow> bytes) \<Rightarrow> (bytes \<Rightarrow> nat) \<Rightarrow> memory_db" where
  "overlay_of content r = (\<lambda>s. if r s = 0 then None else Some (content s, int (r s)))"

definition size_of :: "(bytes \<Rightarrow> bytes) \<Rightarrow> (bytes \<Rightarrow> nat) \<Rightarrow> nat" where
  "size_of content r = (\<Sum>s \<in> {s. r s \<noteq> 0}. length (content s))"

lemma count_list_append [simp]: "count_list (xs @ ys) x = count_list xs x + count_list ys x"
  by (induction xs) auto

lemma refs_push:
  assumes "finite (dom j)"
  shows "refs (push_entry j era e) s = refs j s + count_list (entry_keys e) s"
proof -
  let ?k = "\<lambda>j e. count_list (era_keys (the (j e))) s"
  have other: "(\<Sum>x \<in> dom j - {era}. ?k (push_entry j era e) x) = (\<Sum>x \<in> dom j - {era}. ?k j x)"
    by (rule sum.cong) (auto simp: push_entry_def)
  have "dom (push_entry j era e) = insert era (dom j - {era})" by (auto simp: push_entry_def)
  then have "refs (push_entry j era e) s = ?k (push_entry j era e) era + (\<Sum>x \<in> dom j - {era}. ?k j x)"
    using assms by (simp add: refs_def other [symmetric] sum.insert_remove)
  also have "\<dots> = count_list (entry_keys e) s +
      ((if era \<in> dom j then ?k j era else 0) + (\<Sum>x \<in> dom j - {era}. ?k j x))"
    by (cases "j era") (auto simp: push_entry_def era_keys_def domIff)
  also have "(if era \<in> dom j then ?k j era else 0) + (\<Sum>x \<in> dom j - {era}. ?k j x) = refs j s"
    using assms by (auto simp: refs_def sum.remove)
  finally show ?thesis by simp
qed

lemma refs_close:
  assumes "finite (dom j)" and "j era = Some es"
  shows "refs j s = refs (j(era := None)) s + count_list (era_keys es) s"
proof -
  have "era \<in> dom j" using assms(2) by auto
  moreover have "(\<Sum>x \<in> dom j - {era}. count_list (era_keys (the (j x))) s) = refs (j(era := None)) s"
    unfolding refs_def by (rule sum.cong) auto
  ultimately show ?thesis using assms by (simp add: refs_def sum.remove)
qed

lemma short_key_not_null: "to_short_key k \<noteq> BLAKE2B_NULL_RLP"
proof
  assume "to_short_key k = BLAKE2B_NULL_RLP"
  then have "last (to_short_key k) = last BLAKE2B_NULL_RLP" by simp
  then show False by (simp add: to_short_key_def PREFIX_LEN_def BLAKE2B_NULL_RLP_def)
qed

lemma overlay_of_emplace:
  assumes "content s \<noteq> NULL_RLP" and "int (r s) + 1 < 2 ^ 31"
  shows "mdb_emplace (overlay_of content r) s (content s) = overlay_of content (r(s := r s + 1))"
  using assms
  by (auto simp: mdb_emplace_def bump_entry_def overlay_of_def fun_eq_iff add_i32_in_range)

lemma overlay_of_contains:
  "mdb_contains (overlay_of content r) (to_short_key k) \<longleftrightarrow> r (to_short_key k) \<noteq> 0"
  by (simp add: mdb_contains_def overlay_of_def short_key_not_null)

lemma overlay_of_get:
  "mdb_get (overlay_of content r) (to_short_key k) =
     (if r (to_short_key k) = 0 then None else Some (content (to_short_key k)))"
  by (simp add: mdb_get_def overlay_of_def short_key_not_null)

lemma size_of_insert:
  assumes "finite {s. r s \<noteq> 0}"
  shows "size_of content (r(s := r s + 1)) = size_of content r + (if r s = 0 then length (content s) else 0)"
proof (cases "r s = 0")
  case True
  then have "{x. (r(s := r s + 1)) x \<noteq> 0} = insert s {s. r s \<noteq> 0}" by auto
  then show ?thesis using True assms by (simp add: size_of_def)
next
  case False
  then have "{x. (r(s := r s + 1)) x \<noteq> 0} = {s. r s \<noteq> 0}" by auto
  then show ?thesis using False by (simp add: size_of_def)
qed

lemma overlay_of_remove:
  assumes "r (to_short_key k) \<noteq> 0" and "int (r (to_short_key k)) < 2 ^ 31"
  shows "mdb_remove_and_purge (overlay_of content r) (to_short_key k) =
    (if r (to_short_key k) = 1 then Some (content (to_short_key k)) else None,
     overlay_of content (r(to_short_key k := r (to_short_key k) - 1)))"
  using assms
  by (auto simp: mdb_remove_and_purge_def overlay_of_def short_key_not_null fun_eq_iff add_i32_in_range)

lemma size_of_remove:
  assumes "finite {s. r s \<noteq> 0}" and "r s \<noteq> 0"
  shows "size_of content r = size_of content (r(s := r s - 1)) + (if r s = 1 then length (content s) else 0)"
proof -
  have "(r(s := r s - 1))(s := (r(s := r s - 1)) s + 1) = r" using assms(2) by auto
  moreover have "finite {x. (r(s := r s - 1)) x \<noteq> 0}" by (rule finite_subset [OF _ assms(1)]) auto
  ultimately show ?thesis
    using size_of_insert [of "r(s := r s - 1)" content s] assms(2) by (simp split: if_splits)
qed

text \<open>Dropping keys the overlay counts often enough: no underflow.\<close>

lemma drop_overlay_of:
  assumes "finite {s. r s \<noteq> 0}" and "\<And>s. count_list (map to_short_key ks) s \<le> r s"
    and "\<And>s. int (r s) < 2 ^ 31"
  shows "drop_overlay ks (overlay_of content r) (size_of content r) =
    Some (overlay_of content (\<lambda>s. r s - count_list (map to_short_key ks) s),
          size_of content (\<lambda>s. r s - count_list (map to_short_key ks) s))"
  using assms
proof (induction ks arbitrary: r)
  case (Cons k ks)
  let ?s = "to_short_key k" and ?r = "r(to_short_key k := r (to_short_key k) - 1)"
  have s: "r ?s \<noteq> 0" using Cons.prems(2) [of ?s] by simp
  have fin: "finite {x. ?r x \<noteq> 0}" by (rule finite_subset [OF _ Cons.prems(1)]) auto
  have le: "count_list (map to_short_key ks) x \<le> ?r x" for x
    using Cons.prems(2) [of x] by (auto split: if_splits)
  have bound: "int (?r x) < 2 ^ 31" for x using Cons.prems(3) [of x] by auto
  have "drop_overlay (k # ks) (overlay_of content r) (size_of content r) =
      drop_overlay ks (overlay_of content ?r) (size_of content ?r)"
    using overlay_of_remove [of r k content] s Cons.prems(3) [of ?s] size_of_remove [OF Cons.prems(1) s, of content]
    by simp
  also have "\<dots> = Some (overlay_of content (\<lambda>x. ?r x - count_list (map to_short_key ks) x),
      size_of content (\<lambda>x. ?r x - count_list (map to_short_key ks) x))"
    by (rule Cons.IH [OF fin le bound])
  also have "(\<lambda>x. ?r x - count_list (map to_short_key ks) x) =
      (\<lambda>x. r x - count_list (map to_short_key (k # ks)) x)"
    by (auto simp: fun_eq_iff)
  finally show ?case .
qed simp

section \<open>What \<open>journal_under\<close> writes\<close>

text \<open>A journal record as an RLP tree, and its database key.\<close>

definition insertion_item :: "bytes \<times> bytes \<Rightarrow> rlp_item" where
  "insertion_item e = RList [RData (fst e), RData (snd e)]"

definition record_item :: "bytes \<Rightarrow> (bytes \<times> bytes) list \<Rightarrow> bytes list \<Rightarrow> rlp_item" where
  "record_item eid ins removed = RList [RData eid, RList (map insertion_item ins), RList (map RData removed)]"

definition key_item :: "nat \<Rightarrow> nat \<Rightarrow> rlp_item" where
  "key_item era index = RList [RData (min_be era), RData (min_be index), RData PADDING]"

definition insertion_call :: "bytes \<times> bytes \<Rightarrow> rlp_stream \<Rightarrow> rlp_stream option" where
  "insertion_call e r =
     do { r \<leftarrow> begin_list r 2;
          run_each [append_with (rlp_append_hash (fst e)), append_with (rlp_append_bytes (snd e))] r }"

lemma appends_item_u64: "n < 2 ^ 64 \<Longrightarrow> appends_item (rlp_append_u64 n) (RData (min_be n))"
  using rlp_codec.appends [OF uint_codec, of n 8] by simp

lemma pushes_insertion: "pushes (insertion_call e) (code_enc (insertion_item e))"
proof -
  have "list_all2 pushes [append_with (rlp_append_hash (fst e)), append_with (rlp_append_bytes (snd e))]
      [code_enc (RData (fst e)), code_enc (RData (snd e))]"
    by (simp add: pushes_item appends_item_bytes del: code_enc.simps(1))
  from pushes_list [OF this] show ?thesis
    by (simp add: insertion_call_def [abs_def] insertion_item_def Let_def numeral_2_eq_2 del: run_each.simps)
qed

lemma enc_list_three:
  "code_header 0xc0 (length (concat (map code_enc ts))) @ concat (map code_enc ts) = code_enc (RList ts)"
  by (simp add: Let_def)

lemma length_enc_u64:
  assumes "n < 2 ^ 64"
  shows "0 < length (rlp_enc (RData (min_be n)))" and "length (rlp_enc (RData (min_be n))) \<le> 9"
proof -
  have "byte_len n \<le> 8" using assms by (simp add: byte_len_le_iff)
  then show "length (rlp_enc (RData (min_be n))) \<le> 9" by (auto simp: length_rlp_header)
  show "0 < length (rlp_enc (RData (min_be n)))" using rlp_enc_ne [of "RData (min_be n)"] by blast
qed

lemma key_item_enc:
  assumes "era < 2 ^ 64" and "index < 2 ^ 64"
  shows "length (rlp_enc (key_item era index)) < 32" and "hd (rlp_enc (key_item era index)) \<noteq> 0x6c"
proof -
  have "length (rlp_enc (RData PADDING)) = 11" by (simp add: PADDING_def length_rlp_header)
  then have len: "length (concat (map rlp_enc [RData (min_be era), RData (min_be index), RData PADDING])) \<le> 29"
    using length_enc_u64 [OF assms(1)] length_enc_u64 [OF assms(2)] by (simp del: rlp_enc.simps)
  let ?n = "length (concat (map rlp_enc [RData (min_be era), RData (min_be index), RData PADDING]))"
  have eq: "rlp_enc (key_item era index) =
      rlp_header 0xc0 ?n @ concat (map rlp_enc [RData (min_be era), RData (min_be index), RData PADDING])"
    by (simp add: key_item_def Let_def del: rlp_enc.simps(1))
  show "length (rlp_enc (key_item era index)) < 32"
    unfolding eq length_append length_rlp_header using len by simp
  have "hd (rlp_header 0xc0 ?n) = 0xc0 + word_of_nat ?n" using len unfolding rlp_header_def by simp
  moreover have "unat (0xc0 + word_of_nat ?n :: byte) = 0xc0 + ?n"
    using len by (simp only: unat_word_ariths unat_byte_of_nat) simp
  ultimately have "unat (hd (rlp_enc (key_item era index))) \<ge> 0xc0"
    unfolding eq by (simp del: rlp_enc.simps)
  then show "hd (rlp_enc (key_item era index)) \<noteq> 0x6c" by auto
qed

lemma journal_key_eq:
  assumes "era < 2 ^ 64" and "index < 2 ^ 64"
  shows "journal_key era index = Some (rlp_enc (key_item era index))"
proof -
  let ?ts = "[RData (min_be era), RData (min_be index), RData PADDING]"
  have "list_all2 pushes [append_with (rlp_append_u64 era), append_with (rlp_append_usize index),
      append_with (rlp_append_bytes PADDING)] (map code_enc ?ts)"
    using appends_item_u64 [OF assms(1)] appends_item_u64 [OF assms(2)]
    by (simp add: pushes_item appends_item_bytes rlp_append_usize_def del: code_enc.simps(1))
  from new_list_run_each [OF this]
  have "journal_key era index = Some (code_enc (RList ?ts))"
    unfolding enc_list_three
    by (simp add: journal_key_def run_each_Nil drain_def out_def numeral_3_eq_3 del: code_enc.simps cong: Option.bind_cong)
  moreover have "length (rlp_enc (RList ?ts)) < 2 ^ 32"
    using key_item_enc(1) [OF assms] by (simp add: key_item_def del: rlp_enc.simps)
  ultimately show ?thesis using code_enc_eq by (simp add: key_item_def del: rlp_enc.simps code_enc.simps)
qed

lemma key_item_inject:
  assumes "rlp_enc (key_item e i) = rlp_enc (key_item e' i')"
    and "e < 2 ^ 64" "i < 2 ^ 64" "e' < 2 ^ 64" "i' < 2 ^ 64"
  shows "e = e' \<and> i = i'"
proof -
  have "length (rlp_enc (key_item e i)) < 2 ^ 64"
    using key_item_enc(1) [OF assms(2,3)] by (rule less_trans) simp
  then have "key_item e i = key_item e' i'" by (rule rlp_enc_inject [OF assms(1)])
  then have "min_be e = min_be e'" "min_be i = min_be i'" by (simp_all add: key_item_def)
  then show ?thesis by (metis be_nat_min_be)
qed

lemma appends_hashes: "list_all2 appends_item (map rlp_append_hash hs) (map RData hs)"
  by (simp add: list_all2_conv_all_nth)

lemma record_written:
  "\<exists>s0 s1 s2 s3 s4. new_list 3 = Some s0 \<and> append_with (rlp_append_hash eid) s0 = Some s1 \<and>
    begin_list s1 (length ins) = Some s2 \<and> run_each (map insertion_call ins) s2 = Some s3 \<and>
    append_list (map rlp_append_hash removed) s3 = Some s4 \<and>
    out s4 = Some (code_enc (record_item eid ins removed))"
proof -
  let ?ts = "[RData eid, RList (map insertion_item ins), RList (map RData removed)]"
  have ins: "pushes (\<lambda>s. do { s \<leftarrow> begin_list s (length ins); run_each (map insertion_call ins) s })
      (code_enc (RList (map insertion_item ins)))"
    using pushes_list [of "map insertion_call ins" "map code_enc (map insertion_item ins)"]
    by (simp add: list_all2_conv_all_nth pushes_insertion Let_def o_def)
  have "list_all2 pushes [append_with (rlp_append_hash eid),
      \<lambda>s. do { s \<leftarrow> begin_list s (length ins); run_each (map insertion_call ins) s },
      append_list (map rlp_append_hash removed)] (map code_enc ?ts)"
    using ins pushes_append_list [OF appends_hashes, of removed]
      pushes_item [OF appends_item_hash, of eid]
    by (simp del: code_enc.simps)
  from new_list_run_each [OF this] show ?thesis
    unfolding enc_list_three record_item_def
    by (simp add: run_each_Nil numeral_3_eq_3 bind_eq_Some_conv del: code_enc.simps)
qed

definition overlay_inv :: "(bytes \<Rightarrow> bytes) \<Rightarrow> journal_overlay \<Rightarrow> bool" where
  "overlay_inv content jo \<longleftrightarrow>
     finite (dom (jo_journal jo)) \<and>
     (\<forall>s. int (refs (jo_journal jo) s) < 2 ^ 31) \<and>
     jo_backing_overlay jo = overlay_of content (refs (jo_journal jo)) \<and>
     jo_cumulative_size jo = size_of content (refs (jo_journal jo))"

lemma overlay_invD:
  assumes "overlay_inv content jo"
  shows "finite (dom (jo_journal jo))" and "int (refs (jo_journal jo) s) < 2 ^ 31"
    and "jo_backing_overlay jo = overlay_of content (refs (jo_journal jo))"
    and "jo_cumulative_size jo = size_of content (refs (jo_journal jo))"
  using assms by (simp_all add: overlay_inv_def)

lemma finite_refs: "finite (dom j) \<Longrightarrow> finite {s. refs j s \<noteq> 0}"
proof (rule finite_subset)
  show "{s. refs j s \<noteq> 0} \<subseteq> (\<Union>e \<in> dom j. set (era_keys (the (j e))))"
  proof
    fix s assume "s \<in> {s. refs j s \<noteq> 0}"
    then have "\<not> (\<forall>e \<in> dom j. count_list (era_keys (the (j e))) s = 0)"
      unfolding refs_def by (metis (mono_tags, lifting) mem_Collect_eq sum.neutral)
    then obtain e where "e \<in> dom j" "count_list (era_keys (the (j e))) s \<noteq> 0" by blast
    moreover from this have "s \<in> set (era_keys (the (j e)))" using count_notin by metis
    ultimately show "s \<in> (\<Union>e \<in> dom j. set (era_keys (the (j e))))" by blast
  qed
qed simp

text \<open>The insertions enter the overlay with their counts; the record is written alongside.\<close>

lemma journal_insertions_of:
  assumes "\<And>k v. (k, v) \<in> set es \<Longrightarrow> v = content (to_short_key k) \<and> v \<noteq> NULL_RLP"
    and "finite {s. r s \<noteq> 0}"
    and "\<And>s. int (r s + count_list (map to_short_key (map fst es)) s) < 2 ^ 31"
  shows "journal_insertions es st (overlay_of content r) (size_of content r) =
    map_option (\<lambda>st. (st, overlay_of content (\<lambda>s. r s + count_list (map to_short_key (map fst es)) s),
                      size_of content (\<lambda>s. r s + count_list (map to_short_key (map fst es)) s)))
      (run_each (map insertion_call es) st)"
  using assms
proof (induction es arbitrary: r st)
  case (Cons e es)
  obtain k v where e: "e = (k, v)" by (cases e)
  let ?s = "to_short_key k"
  let ?r = "r(?s := r ?s + 1)"
  have v: "v = content ?s" "content ?s \<noteq> NULL_RLP" using Cons.prems(1) [of k v] e by auto
  have "int (r ?s) + 1 < 2 ^ 31" using Cons.prems(3) [of ?s] e by simp
  note emplace = overlay_of_emplace [of content ?s r, OF v(2) this]
  have fin: "finite {s. ?r s \<noteq> 0}"
    by (rule finite_subset [of _ "insert ?s {s. r s \<noteq> 0}"]) (use Cons.prems(2) in auto)
  have room: "int (?r s + count_list (map to_short_key (map fst es)) s) < 2 ^ 31" for s
    using Cons.prems(3) [of s] e by (auto split: if_splits)
  have total: "(\<lambda>s. ?r s + count_list (map to_short_key (map fst es)) s) =
      (\<lambda>s. r s + count_list (map to_short_key (map fst (e # es))) s)"
    by (auto simp: e fun_eq_iff)
  have "journal_insertions (e # es) st (overlay_of content r) (size_of content r) =
      do { st \<leftarrow> insertion_call e st; journal_insertions es st (overlay_of content ?r) (size_of content ?r) }"
    using emplace size_of_insert [OF Cons.prems(2), of content ?s]
    by (simp add: e v(1) insertion_call_def run_each_Nil overlay_of_contains Let_def cong: Option.bind_cong)
  also have "\<dots> = do { st \<leftarrow> insertion_call e st;
      map_option (\<lambda>st. (st, overlay_of content (\<lambda>s. r s + count_list (map to_short_key (map fst (e # es))) s),
                      size_of content (\<lambda>s. r s + count_list (map to_short_key (map fst (e # es))) s)))
      (run_each (map insertion_call es) st) }"
    unfolding total [symmetric]
    by (subst Cons.IH [OF _ fin room]) (use Cons.prems(1) in auto)
  finally show ?case by (simp add: map_option_case Option.bind_assoc cong: Option.bind_cong) (auto split: Option.bind_splits)
qed simp

section \<open>The effect of \<open>journal_under\<close>\<close>

definition insertions_of :: "(bytes \<times> bytes \<times> int) list \<Rightarrow> (bytes \<times> bytes) list" where
  "insertions_of es = map (\<lambda>(k, v, c). (k, v)) (filter (\<lambda>(k, v, c). c > 0) es)"

definition removals_of :: "(bytes \<times> bytes \<times> int) list \<Rightarrow> bytes list" where
  "removals_of es = map fst (filter (\<lambda>(k, v, c). c < 0) es)"

definition new_entry :: "bytes \<Rightarrow> (bytes \<times> bytes \<times> int) list \<Rightarrow> journal_entry" where
  "new_entry eid es =
     \<lparr>je_id = eid, je_insertions = map fst (insertions_of es), je_deletions = removals_of es\<rparr>"

definition newest :: "journal_overlay \<Rightarrow> nat \<Rightarrow> bool" where
  "newest jo now \<longleftrightarrow> (case jo_latest_era jo of None \<Rightarrow> True | Some e \<Rightarrow> e < now)"

definition next_index :: "journal_overlay \<Rightarrow> nat \<Rightarrow> nat" where
  "next_index jo now = (case jo_journal jo now of Some j \<Rightarrow> length j | None \<Rightarrow> 0)"

definition committed :: "(bytes \<Rightarrow> bytes) \<Rightarrow> journal_overlay \<Rightarrow> nat \<Rightarrow> journal_entry \<Rightarrow> journal_overlay" where
  "committed content jo now e =
     (let j = push_entry (jo_journal jo) now e
      in \<lparr>jo_backing_overlay = overlay_of content (refs j), jo_pending_overlay = Map.empty, jo_journal = j,
          jo_latest_era = (if newest jo now then Some now else jo_latest_era jo),
          jo_earliest_era = (case jo_earliest_era jo of None \<Rightarrow> Some now | Some e \<Rightarrow> Some (min e now)),
          jo_cumulative_size = size_of content (refs j)\<rparr>)"

definition commit_batch_of :: "overlay_db \<Rightarrow> (bytes \<times> bytes \<times> int) list \<Rightarrow> db_transaction \<Rightarrow> nat \<Rightarrow> bytes \<Rightarrow> db_transaction" where
  "commit_batch_of d es batch now eid =
     (let jo = ov_journal_overlay d; name = ov_db_name d;
          batch = tx_put batch name (rlp_enc (key_item now (next_index jo now)))
                    (code_enc (record_item eid (insertions_of es) (removals_of es)))
      in if newest jo now then tx_put batch name LATEST_ERA_KEY (rlp_enc (RData (min_be now))) else batch)"

lemma insertions_of_keys: "map fst (filter (\<lambda>(k, v, c). c > 0) es) = map fst (insertions_of es)"
  by (induction es) (auto simp: insertions_of_def)

lemma in_insertions_of: "(k, v) \<in> set (insertions_of es) \<longleftrightarrow> (\<exists>c > 0. (k, v, c) \<in> set es)"
  by (force simp: insertions_of_def)

text \<open>The values of the insertions, and room for their counts.\<close>

definition insertions_ok :: "(bytes \<Rightarrow> bytes) \<Rightarrow> (bytes \<times> bytes \<times> int) list \<Rightarrow> bool" where
  "insertions_ok content es \<longleftrightarrow>
     (\<forall>(k, v) \<in> set (insertions_of es). length k = 32 \<and> v = content (to_short_key k) \<and> v \<noteq> NULL_RLP)"

definition refs_room :: "journal_overlay \<Rightarrow> journal_entry \<Rightarrow> bool" where
  "refs_room jo e \<longleftrightarrow> (\<forall>s. int (refs (jo_journal jo) s + count_list (entry_keys e) s) < 2 ^ 31)"

lemma encode_u64: "n < 2 ^ 64 \<Longrightarrow> encode_with (rlp_append_u64 n) = Some (rlp_enc (RData (min_be n)))"
proof -
  assume n: "n < 2 ^ 64"
  have "length (rlp_enc (RData (min_be n))) < 2 ^ 32" using length_enc_u64 [OF n] by (simp del: rlp_enc.simps)
  with n show ?thesis
    using rlp_codec.encode_value_of [OF uint_codec, of n 8] by (simp del: rlp_enc.simps)
qed

lemma overlay_journal_under_eq:
  assumes inv: "overlay_inv content (ov_journal_overlay d)" and ok: "insertions_ok content es"
    and room: "refs_room (ov_journal_overlay d) (new_entry eid es)"
    and now: "now < 2 ^ 64" and index: "next_index (ov_journal_overlay d) now < 2 ^ 64"
  shows "\<exists>n. overlay_journal_under d es batch now eid =
    Some (d\<lparr>ov_transaction_overlay := Map.empty,
            ov_journal_overlay := committed content (ov_journal_overlay d) now (new_entry eid es)\<rparr>,
          commit_batch_of d es batch now eid, n)"
proof -
  let ?jo = "ov_journal_overlay d" and ?ins = "insertions_of es" and ?rem = "removals_of es"
  let ?j = "push_entry (jo_journal ?jo) now (new_entry eid es)"
  obtain s0 s1 s2 s3 s4 where rec: "new_list 3 = Some s0" "append_with (rlp_append_hash eid) s0 = Some s1"
    "begin_list s1 (length ?ins) = Some s2" "run_each (map insertion_call ?ins) s2 = Some s3"
    "append_list (map rlp_append_hash ?rem) s3 = Some s4"
    "out s4 = Some (code_enc (record_item eid ?ins ?rem))"
    using record_written [of eid ?ins ?rem] by blast
  have fin: "finite (dom (jo_journal ?jo))" by (rule overlay_invD(1) [OF inv])
  have keys: "map to_short_key (map fst ?ins) = entry_keys (new_entry eid es)"
    by (simp add: entry_keys_def new_entry_def)
  have refs: "refs ?j = (\<lambda>s. refs (jo_journal ?jo) s + count_list (map to_short_key (map fst ?ins)) s)"
    unfolding keys by (rule ext) (rule refs_push [OF fin])
  have "journal_insertions ?ins s2 (jo_backing_overlay ?jo) (jo_cumulative_size ?jo) =
      Some (s3, overlay_of content (refs ?j), size_of content (refs ?j))"
    unfolding overlay_invD(3,4) [OF inv] refs
    by (subst journal_insertions_of)
      (use ok room rec(4) finite_refs [OF fin] in \<open>auto simp: insertions_ok_def refs_room_def keys [simplified]\<close>)
  moreover have "length (filter (\<lambda>(k, v, c). 0 < c) es) = length ?ins"
    by (simp add: insertions_of_def)
  ultimately show ?thesis
    using rec encode_u64 [OF now] journal_key_eq [OF now index]
    unfolding overlay_journal_under_def
    by (auto simp: Let_def insertions_of_keys insertions_of_def [symmetric] removals_of_def [symmetric]
        commit_batch_of_def committed_def new_entry_def newest_def next_index_def min_def split: option.splits
        simp del: code_enc.simps rlp_enc.simps)
qed

lemma committed_inv:
  assumes "overlay_inv content jo" and "refs_room jo e"
  shows "overlay_inv content (committed content jo now e)"
proof -
  have "dom (push_entry (jo_journal jo) now e) = insert now (dom (jo_journal jo))"
    by (auto simp: push_entry_def)
  then show ?thesis
    using assms refs_push [OF overlay_invD(1) [OF assms(1)]]
    by (simp add: overlay_inv_def committed_def Let_def refs_room_def)
qed

section \<open>The effect of \<open>mark_canonical\<close>\<close>

definition era_records :: "journal_overlay \<Rightarrow> nat \<Rightarrow> journal_entry list" where
  "era_records jo era = (case jo_journal jo era of Some rs \<Rightarrow> rs | None \<Rightarrow> [])"

definition canon_insertions :: "bytes \<Rightarrow> journal_entry list \<Rightarrow> bytes list" where
  "canon_insertions canon_id rs = concat (map je_insertions (filter (\<lambda>e. je_id e = canon_id) rs))"

definition last_deletions :: "bytes \<Rightarrow> journal_entry list \<Rightarrow> bytes list \<Rightarrow> bytes list" where
  "last_deletions canon_id rs ds =
     (case filter (\<lambda>e. je_id e = canon_id) rs of [] \<Rightarrow> ds | es \<Rightarrow> je_deletions (last es))"

definition canon_deletions :: "bytes \<Rightarrow> journal_entry list \<Rightarrow> bytes list" where
  "canon_deletions canon_id rs = last_deletions canon_id rs []"

definition valued :: "(bytes \<Rightarrow> bytes) \<Rightarrow> bytes list \<Rightarrow> (bytes \<times> bytes) list" where
  "valued content ks = map (\<lambda>k. (k, content (to_short_key k))) ks"

definition waiting_with :: "(bytes \<rightharpoonup> bytes) \<Rightarrow> (bytes \<times> bytes) list \<Rightarrow> bytes \<rightharpoonup> bytes" where
  "waiting_with m es = fold (\<lambda>(k, v) m. m(to_short_key k \<mapsto> v)) es m"

definition marked :: "(bytes \<Rightarrow> bytes) \<Rightarrow> journal_overlay \<Rightarrow> nat \<Rightarrow> bytes \<Rightarrow> journal_overlay" where
  "marked content jo end_era canon_id =
     (let j = (jo_journal jo)(end_era := None)
      in \<lparr>jo_backing_overlay = overlay_of content (refs j),
          jo_pending_overlay = waiting_with (jo_pending_overlay jo)
            (valued content (canon_insertions canon_id (era_records jo end_era))),
          jo_journal = j, jo_latest_era = jo_latest_era jo,
          jo_earliest_era = (if j = Map.empty then jo_earliest_era jo else Some (end_era + 1)),
          jo_cumulative_size = size_of content (refs j)\<rparr>)"

definition mark_ops :: "(bytes \<Rightarrow> bytes) \<Rightarrow> journal_overlay \<Rightarrow> nat \<Rightarrow> bytes \<Rightarrow> db_op list" where
  "mark_ops content jo end_era canon_id =
     (let rs = era_records jo end_era
      in map (\<lambda>i. DB_Delete (rlp_enc (key_item end_era i))) [0..<length rs] @
         map (\<lambda>(k, v). DB_Insert k v) (valued content (canon_insertions canon_id rs)) @
         map DB_Delete (filter (\<lambda>k. refs ((jo_journal jo)(end_era := None)) (to_short_key k) = 0)
           (canon_deletions canon_id rs)))"

lemma dom_tx_delete [simp]: "dom (tx_delete tx name k) = insert name (dom tx)"
  by (simp add: tx_delete_def multimap_insert_def)

lemma apply_canon_insertions_eq:
  "\<exists>batch'. apply_canon_insertions name es batch w = (batch', waiting_with w es) \<and>
    tx_ops batch' name = tx_ops batch name @ map (\<lambda>(k, v). DB_Insert k v) es \<and>
    dom batch' \<subseteq> insert name (dom batch)"
proof (induction name es batch w rule: apply_canon_insertions.induct)
  case (2 name k v es batch w)
  then show ?case by (auto simp: waiting_with_def simp del: fun_upd_apply)
qed (auto simp: waiting_with_def)

lemma apply_canon_deletions_eq:
  "tx_ops (apply_canon_deletions name ks m batch) name =
     tx_ops batch name @ map DB_Delete (filter (\<lambda>k. \<not> mdb_contains m (to_short_key k)) ks) \<and>
   dom (apply_canon_deletions name ks m batch) \<subseteq> insert name (dom batch)"
proof (induction name ks m batch rule: apply_canon_deletions.induct)
  case (2 name k ks overlay batch)
  then show ?case by (cases "mdb_contains overlay (to_short_key k)") simp_all
qed auto

lemma canon_values_eq:
  "\<forall>k \<in> set ks. r (to_short_key k) \<noteq> 0 \<Longrightarrow> canon_values ks (overlay_of content r) = valued content ks"
  by (induction ks) (auto simp: valued_def mdb_raw_def overlay_of_def short_key_not_null)

lemma last_deletions_Cons:
  "last_deletions canon_id (r # rs) ds = last_deletions canon_id rs (if je_id r = canon_id then je_deletions r else ds)"
  by (auto simp: last_deletions_def split: list.split)

lemma drain_records_eq:
  assumes "end_era < 2 ^ 64" and "index + length rs \<le> 2 ^ 64"
    and "\<forall>e \<in> set rs. \<forall>k \<in> set (je_insertions e). r (to_short_key k) \<noteq> 0"
  shows "\<exists>batch'. drain_records name end_era canon_id (overlay_of content r) rs index (batch, ci, cd, od) =
      Some (batch', ci @ valued content (canon_insertions canon_id rs), last_deletions canon_id rs cd,
            od @ concat (map je_insertions rs)) \<and>
    tx_ops batch' name = tx_ops batch name @
      map (\<lambda>i. DB_Delete (rlp_enc (key_item end_era i))) [index..<index + length rs] \<and>
    dom batch' \<subseteq> insert name (dom batch)"
  using assms(2,3)
proof (induction rs arbitrary: index batch ci cd od)
  case Nil
  then show ?case by (auto simp: canon_insertions_def valued_def last_deletions_def)
next
  case (Cons e rs)
  have key: "journal_key end_era index = Some (rlp_enc (key_item end_era index))"
    using Cons.prems(1) by (intro journal_key_eq assms(1)) simp
  have vals: "canon_values (je_insertions e) (overlay_of content r) = valued content (je_insertions e)"
    using Cons.prems(2) by (intro canon_values_eq) simp
  have idx: "[index..<index + length (e # rs)] = index # [index + 1..<index + 1 + length rs]"
    by (simp add: upt_conv_Cons del: upt_Suc)
  let ?batch = "tx_delete batch name (rlp_enc (key_item end_era index))"
  have bound: "index + 1 + length rs \<le> 2 ^ 64" and ins: "\<forall>e \<in> set rs. \<forall>k \<in> set (je_insertions e). r (to_short_key k) \<noteq> 0"
    using Cons.prems by simp_all
  show ?case
    using Cons.IH [OF bound ins, of ?batch "if canon_id = je_id e then ci @ valued content (je_insertions e) else ci"
        "if canon_id = je_id e then je_deletions e else cd" "od @ je_insertions e"]
    unfolding idx last_deletions_Cons
    by (auto simp: key vals canon_insertions_def valued_def split: if_splits)
qed

lemma records_counted:
  assumes "finite (dom j)" and "j era = Some rs" and "e \<in> set rs" and "k \<in> set (je_insertions e)"
  shows "refs j (to_short_key k) \<noteq> 0"
proof -
  have "to_short_key k \<in> set (era_keys rs)" using assms(3,4) by (auto simp: era_keys_def entry_keys_def)
  then have "count_list (era_keys rs) (to_short_key k) \<noteq> 0" by (simp add: count_list_0_iff)
  then show ?thesis using refs_close [OF assms(1,2), of "to_short_key k"] by simp
qed

lemma era_keys_map: "era_keys rs = map to_short_key (concat (map je_insertions rs))"
  by (simp add: era_keys_def entry_keys_def [abs_def] map_concat o_def)

lemma close_era_eq:
  "end_era + 1 < 2 ^ 64 \<Longrightarrow>
    close_era (jo\<lparr>jo_pending_overlay := w, jo_backing_overlay := m, jo_cumulative_size := n\<rparr>) end_era =
    Some \<lparr>jo_backing_overlay = m, jo_pending_overlay = w, jo_journal = (jo_journal jo)(end_era := None),
      jo_latest_era = jo_latest_era jo,
      jo_earliest_era = (if (jo_journal jo)(end_era := None) = Map.empty then jo_earliest_era jo else Some (end_era + 1)),
      jo_cumulative_size = n\<rparr>"
  by (cases jo) (simp add: close_era_def)

lemma overlay_mark_canonical_eq:
  assumes inv: "overlay_inv content (ov_journal_overlay d)" and era: "end_era + 1 < 2 ^ 64"
    and len: "length (era_records (ov_journal_overlay d) end_era) \<le> 2 ^ 64"
  shows "\<exists>batch' n. overlay_mark_canonical d batch end_era canon_id =
      Some (d\<lparr>ov_journal_overlay := marked content (ov_journal_overlay d) end_era canon_id\<rparr>, batch', n) \<and>
    tx_ops batch' (ov_db_name d) =
      tx_ops batch (ov_db_name d) @ mark_ops content (ov_journal_overlay d) end_era canon_id \<and>
    dom batch' \<subseteq> insert (ov_db_name d) (dom batch)"
proof (cases "jo_journal (ov_journal_overlay d) end_era")
  case None
  let ?jo = "ov_journal_overlay d"
  have "(jo_journal ?jo)(end_era := None) = jo_journal ?jo" using None by auto
  then show ?thesis
    using None era overlay_invD(3,4) [OF inv]
    by (auto simp: overlay_mark_canonical_def close_era_def marked_def mark_ops_def era_records_def Let_def
        canon_insertions_def canon_deletions_def last_deletions_def valued_def waiting_with_def)
next
  case (Some rs)
  let ?jo = "ov_journal_overlay d" and ?name = "ov_db_name d"
  let ?j = "jo_journal ?jo"
  let ?j' = "?j(end_era := None)"
  note fin = overlay_invD(1) [OF inv]
  have rs: "era_records ?jo end_era = rs" using Some by (simp add: era_records_def)
  have counted: "\<forall>e \<in> set rs. \<forall>k \<in> set (je_insertions e). refs ?j (to_short_key k) \<noteq> 0"
    using records_counted [OF fin Some] by blast
  have bounds: "end_era < 2 ^ 64" "0 + length rs \<le> 2 ^ 64" using era len rs by simp_all
  obtain b1 where drain: "drain_records ?name end_era canon_id (overlay_of content (refs ?j)) rs 0 (batch, [], [], []) =
      Some (b1, valued content (canon_insertions canon_id rs), canon_deletions canon_id rs, concat (map je_insertions rs))"
    and ops1: "tx_ops b1 ?name = tx_ops batch ?name @ map (\<lambda>i. DB_Delete (rlp_enc (key_item end_era i))) [0..<length rs]"
    and dom1: "dom b1 \<subseteq> insert ?name (dom batch)"
    using drain_records_eq [OF bounds counted, of ?name canon_id content batch "[]" "[]" "[]"]
    by (auto simp: canon_deletions_def)
  obtain b2 where ins: "apply_canon_insertions ?name (valued content (canon_insertions canon_id rs)) b1 (jo_pending_overlay ?jo) =
      (b2, waiting_with (jo_pending_overlay ?jo) (valued content (canon_insertions canon_id rs)))"
    and ops2: "tx_ops b2 ?name = tx_ops b1 ?name @ map (\<lambda>(k, v). DB_Insert k v) (valued content (canon_insertions canon_id rs))"
    and dom2: "dom b2 \<subseteq> insert ?name (dom b1)"
    using apply_canon_insertions_eq [of ?name "valued content (canon_insertions canon_id rs)" b1 "jo_pending_overlay ?jo"] by blast
  have sub: "refs ?j s - count_list (map to_short_key (concat (map je_insertions rs))) s = refs ?j' s"
    and le: "count_list (map to_short_key (concat (map je_insertions rs))) s \<le> refs ?j s" for s
    using refs_close [OF fin Some, of s] unfolding era_keys_map by simp_all
  have drop: "drop_overlay (concat (map je_insertions rs)) (overlay_of content (refs ?j)) (size_of content (refs ?j)) =
      Some (overlay_of content (refs ?j'), size_of content (refs ?j'))"
    using drop_overlay_of [OF finite_refs [OF fin] le overlay_invD(2) [OF inv]] unfolding sub by simp
  let ?b3 = "apply_canon_deletions ?name (canon_deletions canon_id rs) (overlay_of content (refs ?j')) b2"
  have run: "overlay_mark_canonical d batch end_era canon_id =
      Some (d\<lparr>ov_journal_overlay := marked content ?jo end_era canon_id\<rparr>, ?b3,
        (length (valued content (canon_insertions canon_id rs)) + length (canon_deletions canon_id rs)) mod 2 ^ 32)"
    unfolding overlay_mark_canonical_def
    by (simp add: Some overlay_invD(3,4) [OF inv] drain ins drop close_era_eq [OF era] marked_def rs Let_def
        del: fun_upd_apply)
  note del = apply_canon_deletions_eq [of ?name "canon_deletions canon_id rs" "overlay_of content (refs ?j')" b2]
  have "tx_ops ?b3 ?name = tx_ops batch ?name @ mark_ops content ?jo end_era canon_id"
    using del ops1 ops2 by (simp add: mark_ops_def rs Let_def overlay_of_contains del: fun_upd_apply)
  moreover have "dom ?b3 \<subseteq> insert ?name (dom batch)" using del dom1 dom2 by blast
  ultimately show ?thesis using run by blast
qed

lemma marked_inv:
  assumes "overlay_inv content jo"
  shows "overlay_inv content (marked content jo end_era canon_id)"
proof -
  have "refs ((jo_journal jo)(end_era := None)) s \<le> refs (jo_journal jo) s" for s
  proof (cases "jo_journal jo end_era")
    case None
    then have "(jo_journal jo)(end_era := None) = jo_journal jo" by auto
    then show ?thesis by simp
  next
    case (Some rs)
    then show ?thesis using refs_close [OF overlay_invD(1) [OF assms] Some, of s] by simp
  qed
  then have "int (refs ((jo_journal jo)(end_era := None)) s) < 2 ^ 31" for s
    using overlay_invD(2) [OF assms, of s] by (meson le_less_trans of_nat_mono)
  then show ?thesis
    using overlay_invD(1) [OF assms] by (simp add: overlay_inv_def marked_def Let_def)
qed

section \<open>Reads after a write\<close>

text \<open>The database of a journal: it exists and its keys are in order.\<close>

definition disk_ok :: "mock_repository \<Rightarrow> string \<Rightarrow> bool" where
  "disk_ok r name \<longleftrightarrow> (\<forall>db \<in> ran (repo_dbs r). mock_ok db) \<and> repo_dbs r name \<noteq> None"

definition write_to :: "overlay_db \<Rightarrow> db_transaction \<Rightarrow> string list \<Rightarrow> overlay_db" where
  "write_to d batch names = d\<lparr>ov_backing := write_buffered batch names (ov_backing d)\<rparr>"

lemma write_to_simps [simp]:
  "ov_transaction_overlay (write_to d batch names) = ov_transaction_overlay d"
  "ov_journal_overlay (write_to d batch names) = ov_journal_overlay d"
  "ov_db_name (write_to d batch names) = ov_db_name d"
  "ov_backing (write_to d batch names) = write_buffered batch names (ov_backing d)"
  by (simp_all add: write_to_def)

lemma write_to_payload:
  assumes "disk_ok (ov_backing d) (ov_db_name d)" and "distinct names" and "set names = dom batch"
  shows "overlay_payload (write_to d batch names) k =
    map_option (last_op (tx_ops batch (ov_db_name d)) k) (overlay_payload d k)"
  using write_reads [of "ov_backing d" names batch "ov_db_name d" k] assms
  by (auto simp: overlay_payload_def disk_ok_def)

lemma write_disk_ok: "disk_ok r name \<Longrightarrow> disk_ok (write_buffered batch names r) name"
  unfolding write_buffered_def
proof (induction names arbitrary: r)
  case (Cons n names)
  have "disk_ok (write_one_db batch n r) name"
    using Cons.prems write_one_db_get(1) [of r batch n]
    by (auto simp: disk_ok_def write_one_db_def split: option.splits)
  then show ?case using Cons.IH by simp
qed simp

lemma payload_exists: "disk_ok (ov_backing d) (ov_db_name d) \<Longrightarrow> \<exists>v. overlay_payload d k = Some v"
  by (auto simp: disk_ok_def overlay_payload_def backing_get_def repo_get_def)

lemma last_op_other:
  "k \<notin> db_op_key ` set ops \<Longrightarrow> last_op ops k old = old"
  by (induction ops k old rule: last_op.induct) auto

lemma tx_ops_commit:
  "tx_ops (commit_batch_of d es batch now eid) (ov_db_name d) = tx_ops batch (ov_db_name d) @
     DB_Insert (rlp_enc (key_item now (next_index (ov_journal_overlay d) now)))
       (code_enc (record_item eid (insertions_of es) (removals_of es))) #
     (if newest (ov_journal_overlay d) now then [DB_Insert LATEST_ERA_KEY (rlp_enc (RData (min_be now)))] else [])"
  by (simp add: commit_batch_of_def Let_def)

lemma commit_keeps_state_keys:
  assumes "length k = 32" and "now < 2 ^ 64" and "next_index (ov_journal_overlay d) now < 2 ^ 64"
  shows "last_op (tx_ops (commit_batch_of d es tx_new now eid) (ov_db_name d)) k old = old"
proof (rule last_op_other)
  have "length (rlp_enc (key_item now (next_index (ov_journal_overlay d) now))) \<noteq> length k"
    "length LATEST_ERA_KEY \<noteq> length k"
    using key_item_enc(1) [OF assms(2,3)] assms(1) by (simp_all add: LATEST_ERA_KEY_def)
  then show "k \<notin> db_op_key ` set (tx_ops (commit_batch_of d es tx_new now eid) (ov_db_name d))"
    unfolding tx_ops_commit by auto
qed

text \<open>A read below the transaction overlay.\<close>

definition later_get :: "overlay_db \<Rightarrow> bytes \<Rightarrow> bytes option option" where
  "later_get d key =
     (case mdb_get (jo_backing_overlay (ov_journal_overlay d)) (to_short_key key) of
        Some v \<Rightarrow> Some (Some v)
      | None \<Rightarrow>
          (case jo_pending_overlay (ov_journal_overlay d) (to_short_key key) of
             Some v \<Rightarrow> Some (Some v) | None \<Rightarrow> overlay_payload d key))"

lemma overlay_get_later:
  "overlay_get d key =
     (case mdb_raw (ov_transaction_overlay d) key of
        Some (v, rc) \<Rightarrow> if rc > 0 then Some (Some v) else later_get d key
      | None \<Rightarrow> later_get d key)"
  by (auto simp: overlay_get_def later_get_def Let_def split: option.splits)

lemma later_get_inv:
  assumes "overlay_inv content (ov_journal_overlay d)"
  shows "later_get d k =
    (if refs (jo_journal (ov_journal_overlay d)) (to_short_key k) \<noteq> 0 then Some (Some (content (to_short_key k)))
     else case jo_pending_overlay (ov_journal_overlay d) (to_short_key k) of
            Some v \<Rightarrow> Some (Some v) | None \<Rightarrow> overlay_payload d k)"
  by (simp add: later_get_def overlay_invD(3) [OF assms] overlay_of_get)

lemma mdb_raw_cases: "mdb_raw Map.empty k = (if k = BLAKE2B_NULL_RLP then Some (NULL_RLP, 1) else None)"
  by (simp add: mdb_raw_def)

text \<open>What the operations of \<open>mark_canonical\<close> leave under a key of the state.\<close>

lemma last_op_deletes:
  "last_op (map DB_Delete ks) k old = (if k \<in> set ks then None else old)"
  by (induction ks arbitrary: old) auto

lemma last_op_inserts:
  "last_op (map (\<lambda>(k, v). DB_Insert k v) (valued content ks)) k old =
     (if k \<in> set ks then Some (content (to_short_key k)) else old)"
  unfolding valued_def by (induction ks arbitrary: old) auto

lemma mark_ops_read:
  assumes "length k = 32" and "end_era < 2 ^ 64" and "length (era_records jo end_era) \<le> 2 ^ 64"
  shows "last_op (mark_ops content jo end_era canon_id) k old =
    (if k \<in> set (canon_deletions canon_id (era_records jo end_era)) \<and>
        refs ((jo_journal jo)(end_era := None)) (to_short_key k) = 0 then None
     else if k \<in> set (canon_insertions canon_id (era_records jo end_era)) then Some (content (to_short_key k))
     else old)"
proof -
  let ?ks = "map (\<lambda>i. rlp_enc (key_item end_era i)) [0..<length (era_records jo end_era)]"
  have "length (rlp_enc (key_item end_era i)) \<noteq> length k" if "i < length (era_records jo end_era)" for i
    using key_item_enc(1) [OF assms(2), of i] that assms(1,3) by simp
  then have "k \<notin> set ?ks" by (metis (no_types, lifting) atLeastLessThan_iff imageE set_map set_upt)
  then have "last_op (map DB_Delete ?ks) k old = old" for old by (simp only: last_op_deletes if_False)
  then have "last_op (map (\<lambda>i. DB_Delete (rlp_enc (key_item end_era i))) [0..<length (era_records jo end_era)]) k old = old" for old
    by (simp only: map_map o_def)
  then show ?thesis
    by (auto simp: mark_ops_def Let_def last_op_inserts last_op_deletes simp del: fun_upd_apply)
qed

section \<open>Properties\<close>

text \<open>C12. Committing to the pruning journal is invisible to reads: with consistent values and
  room for the counts, \<open>journal_under\<close> does not panic, keeps the journal invariant (the history
  overlay counts exactly the insertions of the journal, and the size is that of its values), and
  after its batch is written every key reads as before, if no other pending key shares its first
  twelve bytes and what was pending for it had been written.\<close>

theorem overlay_commit_invisible:
  assumes inv: "overlay_inv content (ov_journal_overlay d)" and disk: "disk_ok (ov_backing d) (ov_db_name d)"
    and es: "distinct (map fst es)" "map_of es = ov_transaction_overlay d" and ok: "insertions_ok content es"
    and room: "refs_room (ov_journal_overlay d) (new_entry eid es)"
    and now: "now < 2 ^ 64" and index: "next_index (ov_journal_overlay d) now < 2 ^ 64"
  shows "\<exists>d' batch n. overlay_journal_under d es tx_new now eid = Some (d', batch, n) \<and>
    overlay_inv content (ov_journal_overlay d') \<and>
    (\<forall>names k. distinct names \<longrightarrow> set names = dom batch \<longrightarrow> length k = 32 \<longrightarrow>
       (\<forall>k' \<in> dom (ov_transaction_overlay d). to_short_key k' = to_short_key k \<longrightarrow> k' = k) \<longrightarrow>
       (\<forall>v. jo_pending_overlay (ov_journal_overlay d) (to_short_key k) = Some v \<longrightarrow>
          overlay_payload d k = Some (Some v)) \<longrightarrow>
       overlay_get (write_to d' batch names) k = overlay_get d k)"
proof -
  let ?jo = "ov_journal_overlay d" and ?e = "new_entry eid es" and ?tx = "ov_transaction_overlay d"
  let ?jo' = "committed content ?jo now ?e" and ?b = "commit_batch_of d es tx_new now eid"
  let ?d' = "d\<lparr>ov_transaction_overlay := Map.empty, ov_journal_overlay := ?jo'\<rparr>"
  obtain n where run: "overlay_journal_under d es tx_new now eid = Some (?d', ?b, n)"
    using overlay_journal_under_eq [OF inv ok room now index] by blast
  have inv': "overlay_inv content ?jo'" by (rule committed_inv [OF inv room])
  have reads: "overlay_get (write_to ?d' ?b names) k = overlay_get d k"
    if names: "distinct names" "set names = dom ?b" and len: "length k = 32"
      and alone: "\<forall>k' \<in> dom ?tx. to_short_key k' = to_short_key k \<longrightarrow> k' = k"
      and flushed: "\<forall>v. jo_pending_overlay ?jo (to_short_key k) = Some v \<longrightarrow> overlay_payload d k = Some (Some v)"
    for names k
  proof (cases "k = BLAKE2B_NULL_RLP")
    case True
    then show ?thesis by (simp add: overlay_get_later mdb_raw_def)
  next
    case nonnull: False
    let ?s = "to_short_key k"
    let ?c = "count_list (entry_keys ?e) ?s"
    have disk': "disk_ok (ov_backing ?d') (ov_db_name ?d')" using disk by simp
    have "last_op (tx_ops ?b (ov_db_name d)) k = (\<lambda>old. old)"
      by (rule ext) (rule commit_keeps_state_keys [OF len now index])
    then have payload: "overlay_payload (write_to ?d' ?b names) k = overlay_payload d k"
      using write_to_payload [OF disk' names, of k] by (simp add: overlay_payload_def option.map_ident)
    have refs': "refs (jo_journal ?jo') ?s = refs (jo_journal ?jo) ?s + ?c"
      using refs_push [OF overlay_invD(1) [OF inv]] by (simp add: committed_def Let_def)
    have waiting: "jo_pending_overlay ?jo' = Map.empty" by (simp add: committed_def Let_def)
    have "overlay_inv content (ov_journal_overlay (write_to ?d' ?b names))" using inv' by simp
    note later = later_get_inv [OF this, of k]
    have "later_get (write_to ?d' ?b names) k =
        (if refs (jo_journal ?jo) ?s + ?c \<noteq> 0 then Some (Some (content ?s)) else overlay_payload d k)"
      unfolding later payload by (simp add: refs' waiting)
    then have after: "overlay_get (write_to ?d' ?b names) k =
        (if refs (jo_journal ?jo) ?s + ?c \<noteq> 0 then Some (Some (content ?s)) else overlay_payload d k)"
      using nonnull by (simp add: overlay_get_later mdb_raw_cases)
    have counted: "?c \<noteq> 0 \<longleftrightarrow> (\<exists>v c. ?tx k = Some (v, c) \<and> 0 < c)"
    proof -
      have "?c \<noteq> 0 \<longleftrightarrow> (\<exists>k' v c. (k', v, c) \<in> set es \<and> 0 < c \<and> to_short_key k' = ?s)"
        by (auto simp: entry_keys_def new_entry_def count_list_0_iff insertions_of_def image_iff) metis+
      also have "\<dots> \<longleftrightarrow> (\<exists>k' v c. ?tx k' = Some (v, c) \<and> 0 < c \<and> to_short_key k' = ?s)"
        using map_of_eq_Some_iff [OF es(1)] unfolding es(2) by auto
      also have "\<dots> \<longleftrightarrow> (\<exists>v c. ?tx k = Some (v, c) \<and> 0 < c)" using alone by blast
      finally show ?thesis .
    qed
    have val: "v = content ?s" if "?tx k = Some (v, c)" "0 < c" for v c
    proof -
      have "(k, v, c) \<in> set es" using that(1) map_of_eq_Some_iff [OF es(1)] unfolding es(2) by auto
      then show ?thesis using ok that(2) in_insertions_of [of k v es] by (auto simp: insertions_ok_def)
    qed
    have below: "later_get d k =
        (if refs (jo_journal ?jo) ?s \<noteq> 0 then Some (Some (content ?s)) else overlay_payload d k)"
      unfolding later_get_inv [OF inv] using flushed by (auto split: option.split)
    show ?thesis
    proof (cases "\<exists>v c. ?tx k = Some (v, c) \<and> 0 < c")
      case True
      then show ?thesis unfolding after using counted val nonnull by (auto simp: overlay_get_later mdb_raw_def)
    next
      case False
      then have "overlay_get d k = later_get d k"
        using nonnull by (auto simp: overlay_get_later mdb_raw_def split: option.split)
      then show ?thesis unfolding after below using counted False by simp
    qed
  qed
  show ?thesis using run inv' reads by (intro exI conjI) (assumption | simp)+
qed

definition sample_overlay :: "memory_db \<Rightarrow> overlay_db" where
  "sample_overlay tx = \<lparr>ov_transaction_overlay = tx, ov_backing = repo_init [''state''],
     ov_journal_overlay = \<lparr>jo_backing_overlay = mdb_new, jo_pending_overlay = Map.empty, jo_journal = Map.empty,
       jo_latest_era = None, jo_earliest_era = None, jo_cumulative_size = 0\<rparr>, ov_db_name = ''state''\<rparr>"

lemma sample_overlay_ok:
  "overlay_inv content (ov_journal_overlay (sample_overlay tx))"
  "disk_ok (ov_backing (sample_overlay tx)) (ov_db_name (sample_overlay tx))"
  by (simp_all add: sample_overlay_def overlay_inv_def overlay_of_def size_of_def refs_def mdb_new_def
      disk_ok_def repo_init_def mock_new_def mock_ok_def)

theorem overlay_commit_invisible_witness:
  "\<exists>d' batch n. overlay_journal_under (sample_overlay [replicate 32 1 \<mapsto> ([7], 1)]) [(replicate 32 1, [7], 1)] tx_new 5 [] =
      Some (d', batch, n) \<and> overlay_inv (\<lambda>_. [7]) (ov_journal_overlay d') \<and>
    (\<forall>names k. distinct names \<longrightarrow> set names = dom batch \<longrightarrow> length k = 32 \<longrightarrow>
       (\<forall>k' \<in> dom (ov_transaction_overlay (sample_overlay [replicate 32 1 \<mapsto> ([7], 1)])).
          to_short_key k' = to_short_key k \<longrightarrow> k' = k) \<longrightarrow>
       (\<forall>v. jo_pending_overlay (ov_journal_overlay (sample_overlay [replicate 32 1 \<mapsto> ([7], 1)])) (to_short_key k) = Some v \<longrightarrow>
          overlay_payload (sample_overlay [replicate 32 1 \<mapsto> ([7], 1)]) k = Some (Some v)) \<longrightarrow>
       overlay_get (write_to d' batch names) k = overlay_get (sample_overlay [replicate 32 1 \<mapsto> ([7], 1)]) k)"
proof (rule overlay_commit_invisible)
  show "insertions_ok (\<lambda>_. [7]) [(replicate 32 1, [7], 1)]"
    by (simp add: insertions_ok_def insertions_of_def NULL_RLP_def)
  show "refs_room (ov_journal_overlay (sample_overlay [replicate 32 1 \<mapsto> ([7], 1)])) (new_entry [] [(replicate 32 1, [7], 1)])"
    by (simp add: refs_room_def refs_def sample_overlay_def entry_keys_def new_entry_def insertions_of_def)
qed (simp_all add: sample_overlay_ok, simp_all add: sample_overlay_def next_index_def)

text \<open>C13. What canonicalisation does to reads: \<open>mark_canonical\<close> does not panic (the size does not
  underflow), keeps the journal invariant, and after its batch is written and the pending values
  are flushed, a key is read from the eras still in the journal if they insert it, is gone if the
  canonical block deletes it, is on disk if the canonical block inserts it, and is otherwise read
  from disk as before: rival blocks leave no trace.\<close>

theorem overlay_canonical_reads:
  assumes inv: "overlay_inv content (ov_journal_overlay d)" and disk: "disk_ok (ov_backing d) (ov_db_name d)"
    and era: "end_era + 1 < 2 ^ 64" and len: "length (era_records (ov_journal_overlay d) end_era) \<le> 2 ^ 64"
  shows "\<exists>d' batch n. overlay_mark_canonical d tx_new end_era canon_id = Some (d', batch, n) \<and>
    overlay_inv content (ov_journal_overlay d') \<and>
    (\<forall>names k. distinct names \<longrightarrow> set names = dom batch \<longrightarrow> length k = 32 \<longrightarrow>
       later_get (overlay_flush (write_to d' batch names)) k =
         (if refs (jo_journal (ov_journal_overlay d')) (to_short_key k) \<noteq> 0 then Some (Some (content (to_short_key k)))
          else if k \<in> set (canon_deletions canon_id (era_records (ov_journal_overlay d) end_era)) then Some None
          else if k \<in> set (canon_insertions canon_id (era_records (ov_journal_overlay d) end_era))
            then Some (Some (content (to_short_key k)))
          else overlay_payload d k))"
proof -
  let ?jo = "ov_journal_overlay d"
  let ?d' = "d\<lparr>ov_journal_overlay := marked content ?jo end_era canon_id\<rparr>"
  obtain b n where run: "overlay_mark_canonical d tx_new end_era canon_id = Some (?d', b, n)"
    and ops: "tx_ops b (ov_db_name d) = mark_ops content ?jo end_era canon_id"
    using overlay_mark_canonical_eq [OF inv era len, of tx_new canon_id] by auto
  have inv': "overlay_inv content (ov_journal_overlay ?d')" using marked_inv [OF inv] by simp
  have reads: "later_get (overlay_flush (write_to ?d' b names)) k =
         (if refs (jo_journal (ov_journal_overlay ?d')) (to_short_key k) \<noteq> 0 then Some (Some (content (to_short_key k)))
          else if k \<in> set (canon_deletions canon_id (era_records ?jo end_era)) then Some None
          else if k \<in> set (canon_insertions canon_id (era_records ?jo end_era)) then Some (Some (content (to_short_key k)))
          else overlay_payload d k)"
    if names: "distinct names" "set names = dom b" and k: "length k = 32" for names k
  proof -
    let ?f = "overlay_flush (write_to ?d' b names)"
    have "overlay_inv content (ov_journal_overlay ?f)" using inv' by (simp add: overlay_flush_def overlay_inv_def)
    note later = later_get_inv [OF this, of k]
    obtain v where v: "overlay_payload d k = Some v" using payload_exists [OF disk] by blast
    have "disk_ok (ov_backing ?d') (ov_db_name ?d')" using disk by simp
    note written = write_to_payload [OF this names, of k]
    have "end_era < 2 ^ 64" using era by simp
    note read = mark_ops_read [OF k this len, of content canon_id v]
    have "overlay_payload ?f k = Some (last_op (mark_ops content ?jo end_era canon_id) k v)"
      using written v ops by (simp add: overlay_payload_def overlay_flush_def)
    then show ?thesis
      unfolding later using read v by (simp add: overlay_flush_def) (auto simp: marked_def Let_def)
  qed
  show ?thesis using run inv' reads by (intro exI conjI) (assumption | simp)+
qed

definition sample_committed :: overlay_db where
  "sample_committed = (sample_overlay Map.empty)\<lparr>ov_journal_overlay :=
     committed (\<lambda>_. [7]) (ov_journal_overlay (sample_overlay Map.empty)) 5
       (new_entry [] [(replicate 32 1, [7], 1)])\<rparr>"

lemma sample_committed_ok:
  "overlay_inv (\<lambda>_. [7]) (ov_journal_overlay sample_committed)"
  "disk_ok (ov_backing sample_committed) (ov_db_name sample_committed)"
  "era_records (ov_journal_overlay sample_committed) 5 =
     [\<lparr>je_id = [], je_insertions = [replicate 32 1], je_deletions = []\<rparr>]"
proof -
  have "refs_room (ov_journal_overlay (sample_overlay Map.empty)) (new_entry [] [(replicate 32 1, [7], 1)])"
    by (simp add: refs_room_def refs_def sample_overlay_def entry_keys_def new_entry_def insertions_of_def)
  then show "overlay_inv (\<lambda>_. [7]) (ov_journal_overlay sample_committed)"
    using committed_inv [OF sample_overlay_ok(1)] by (simp add: sample_committed_def)
  show "disk_ok (ov_backing sample_committed) (ov_db_name sample_committed)"
    using sample_overlay_ok(2) by (simp add: sample_committed_def)
  show "era_records (ov_journal_overlay sample_committed) 5 =
     [\<lparr>je_id = [], je_insertions = [replicate 32 1], je_deletions = []\<rparr>]"
    by (simp add: sample_committed_def committed_def sample_overlay_def era_records_def push_entry_def
        new_entry_def insertions_of_def removals_of_def Let_def)
qed

theorem overlay_canonical_reads_witness:
  "\<exists>d' batch n. overlay_mark_canonical sample_committed tx_new 5 [] = Some (d', batch, n) \<and>
    overlay_inv (\<lambda>_. [7]) (ov_journal_overlay d') \<and>
    (\<forall>names k. distinct names \<longrightarrow> set names = dom batch \<longrightarrow> length k = 32 \<longrightarrow>
       later_get (overlay_flush (write_to d' batch names)) k =
         (if refs (jo_journal (ov_journal_overlay d')) (to_short_key k) \<noteq> 0 then Some (Some [7])
          else if k \<in> set (canon_deletions [] (era_records (ov_journal_overlay sample_committed) 5)) then Some None
          else if k \<in> set (canon_insertions [] (era_records (ov_journal_overlay sample_committed) 5))
            then Some (Some [7])
          else overlay_payload sample_committed k))"
  by (rule overlay_canonical_reads) (simp_all add: sample_committed_ok)

end
