(* ===== verification/Overlay_Recovery.thy ===== *)
theory Overlay_Recovery
  imports Overlay_DB
begin

text \<open>
  Restarting \<open>OverlayRecentDB\<close>: the journal in memory against its records on disk.

  \<open>on_disk\<close> says that the database holds, under the keys of the journal, exactly the encoded
  records of the journal in memory.  Reading them back (\<open>read_overlay\<close>) is the decoder run on
  what the encoder wrote.  \<open>overlay_reach\<close> is the system: a fresh database, changes to the
  transaction overlay, commits and canonicalisations each written in one batch, flushes and
  restarts, where eras are committed without gaps and canonicalised oldest first.
\<close>

declare rlp_enc.simps [simp del] code_enc.simps [simp del]

section \<open>One record\<close>

definition entry_item :: "(bytes \<Rightarrow> bytes) \<Rightarrow> journal_entry \<Rightarrow> rlp_item" where
  "entry_item content e = record_item (je_id e) (valued content (je_insertions e)) (je_deletions e)"

definition entry_ok :: "(bytes \<Rightarrow> bytes) \<Rightarrow> journal_entry \<Rightarrow> bool" where
  "entry_ok content e \<longleftrightarrow>
     length (je_id e) = 32 \<and> (\<forall>k \<in> set (je_insertions e). length k = 32 \<and> content (to_short_key k) \<noteq> NULL_RLP) \<and>
     (\<forall>k \<in> set (je_deletions e). length k = 32) \<and> length (rlp_enc (entry_item content e)) < 2 ^ 32"

lemma read_hash:
  assumes "cache_ok r" and "rlp_bytes r = rlp_enc (RList ts)" and "length (rlp_enc (RList ts)) < 2 ^ 64 - 1"
    and "index < length ts" and "ts ! index = RData h" and "length h = 32"
  shows "\<exists>r'. trusted_val_at (decode_hash 32) r index = (Some h, r') \<and> cache_ok r' \<and> rlp_bytes r' = rlp_enc (RList ts)"
proof -
  have "length (rlp_enc (RData h)) < 2 ^ 64 - 1"
    using length_item_le [OF nth_mem [OF assms(4)]] assms(3,5) by simp
  then have "trusted_as_val (decode_hash 32) (untrusted_new (rlp_enc (RData h))) = Some h"
    using rlp_codec.decodes [OF hash_codec, of h 32] assms(6) by (simp add: trusted_as_val_def)
  then show ?thesis
    using trusted_at_enc [OF assms(1-4)] unfolding assms(5) by (auto simp: trusted_val_at_def)
qed

lemma read_insertions_of:
  assumes "list_all (\<lambda>k. length k = 32 \<and> content (to_short_key k) \<noteq> NULL_RLP) ks"
    and "list_all (\<lambda>e. length (rlp_enc (insertion_item e)) < 2 ^ 64 - 1) (valued content ks)"
    and "finite {s. r s \<noteq> 0}" and "\<And>s. int (r s + count_list (map to_short_key ks) s) < 2 ^ 31"
  shows "read_insertions (map untrusted_new (map rlp_enc (map insertion_item (valued content ks))))
      (overlay_of content r) (size_of content r) acc =
    Some (overlay_of content (\<lambda>s. r s + count_list (map to_short_key ks) s),
          size_of content (\<lambda>s. r s + count_list (map to_short_key ks) s), acc @ ks)"
  using assms
proof (induction ks arbitrary: r acc)
  case Nil
  then show ?case by (simp add: valued_def)
next
  case (Cons k ks)
  let ?s = "to_short_key k"
  let ?r = "r(?s := r ?s + 1)"
  let ?v = "content ?s"
  let ?ts = "[RData k, RData ?v]"
  have k: "length k = 32" "?v \<noteq> NULL_RLP" and ks: "list_all (\<lambda>k. length k = 32 \<and> content (to_short_key k) \<noteq> NULL_RLP) ks"
    using Cons.prems(1) by simp_all
  have small: "length (rlp_enc (RList ?ts)) < 2 ^ 64 - 1"
    using Cons.prems(2) by (simp add: valued_def insertion_item_def)
  obtain r1 where r1: "trusted_val_at (decode_hash 32) (untrusted_new (rlp_enc (RList ?ts))) 0 = (Some k, r1)"
    "cache_ok r1" "rlp_bytes r1 = rlp_enc (RList ?ts)"
    using read_hash [of "untrusted_new (rlp_enc (RList ?ts))" ?ts 0 k] small k(1) by auto
  obtain r2 where r2: "trusted_at r1 1 = (Some (untrusted_new (rlp_enc (RData ?v))), r2)"
    using trusted_at_enc [OF r1(2,3) small, of 1] by auto
  have "length (rlp_enc (RData ?v)) < 2 ^ 64"
    using length_item_le [of "RData ?v" ?ts] small by simp
  then have data: "trusted_data (untrusted_new (rlp_enc (RData ?v))) = Some ?v"
    by (simp add: trusted_data_def rlp_data_enc)
  have "int (r ?s) + 1 < 2 ^ 31" using Cons.prems(4) [of ?s] by simp
  note emplace = overlay_of_emplace [of content ?s r, OF k(2) this]
  have fin: "finite {s. ?r s \<noteq> 0}"
    by (rule finite_subset [of _ "insert ?s {s. r s \<noteq> 0}"]) (use Cons.prems(3) in auto)
  have room: "int (?r s + count_list (map to_short_key ks) s) < 2 ^ 31" for s
    using Cons.prems(4) [of s] by (auto split: if_splits)
  have rest: "list_all (\<lambda>e. length (rlp_enc (insertion_item e)) < 2 ^ 64 - 1) (valued content ks)"
    using Cons.prems(2) by (simp add: valued_def)
  have total: "(\<lambda>s. ?r s + count_list (map to_short_key ks) s) = (\<lambda>s. r s + count_list (map to_short_key (k # ks)) s)"
    by (auto simp: fun_eq_iff)
  have items: "map untrusted_new (map rlp_enc (map insertion_item (valued content (k # ks)))) =
      untrusted_new (rlp_enc (RList ?ts)) # map untrusted_new (map rlp_enc (map insertion_item (valued content ks)))"
    by (simp add: valued_def insertion_item_def)
  have step: "read_insertions (map untrusted_new (map rlp_enc (map insertion_item (valued content (k # ks)))))
      (overlay_of content r) (size_of content r) acc =
    read_insertions (map untrusted_new (map rlp_enc (map insertion_item (valued content ks))))
      (overlay_of content ?r) (size_of content ?r) (acc @ [k])"
    unfolding items
    using r1 r2 data emplace size_of_insert [OF Cons.prems(3), of content ?s]
    by (simp add: overlay_of_contains Let_def del: fun_upd_apply)
  have "(acc @ [k]) @ ks = acc @ k # ks" by simp
  then show ?case using step Cons.IH [OF ks rest fin room, of "acc @ [k]"] unfolding total by (simp only:)
qed

lemma trusted_list_at_hashes:
  assumes "cache_ok r" and "rlp_bytes r = rlp_enc (RList ts)" and "length (rlp_enc (RList ts)) < 2 ^ 64 - 1"
    and "index < length ts" and "ts ! index = RList (map RData hs)" and "list_all (\<lambda>h. length h = 32) hs"
  shows "fst (trusted_list_at (decode_hash 32) r index) = Some hs"
proof -
  obtain r' where "trusted_at r index = (Some (untrusted_new (rlp_enc (RList (map RData hs)))), r')"
    using trusted_at_enc [OF assms(1-4)] unfolding assms(5) by blast
  moreover have "length (rlp_enc (RList (map RData hs))) < 2 ^ 64 - 1"
    using length_item_le [OF nth_mem [OF assms(4)]] assms(3,5) by simp
  then have "trusted_as_list (decode_hash 32) (untrusted_new (rlp_enc (RList (map RData hs)))) = Some hs"
    using rlp_codec.decodes_list [OF hash_codec assms(6)] rlp_decode_list_eq [of "decode_hash 32"]
    by (simp add: rlp_decode_list_def)
  ultimately show ?thesis by (simp add: trusted_list_at_def)
qed

lemma entry_eta:
  "push_entry j era \<lparr>je_id = je_id e, je_insertions = je_insertions e, je_deletions = je_deletions e\<rparr> = push_entry j era e"
  by (cases e) simp

lemma read_record_of:
  assumes ok: "entry_ok content e" and fin: "finite {s. r s \<noteq> 0}"
    and room: "\<And>s. int (r s + count_list (entry_keys e) s) < 2 ^ 31"
  shows "read_record era (rlp_enc (entry_item content e)) (j, overlay_of content r, earliest, size_of content r) =
    Some (push_entry j era e, overlay_of content (\<lambda>s. r s + count_list (entry_keys e) s), Some era,
          size_of content (\<lambda>s. r s + count_list (entry_keys e) s))"
proof -
  let ?es = "valued content (je_insertions e)"
  let ?ins = "RList (map insertion_item ?es)"
  let ?ts = "[RData (je_id e), ?ins, RList (map RData (je_deletions e))]"
  have item: "entry_item content e = RList ?ts" by (simp add: entry_item_def record_item_def)
  have small: "length (rlp_enc (RList ?ts)) < 2 ^ 64 - 1"
  proof (rule less_trans)
    show "length (rlp_enc (RList ?ts)) < 2 ^ 32" using ok unfolding entry_ok_def item by blast
  qed simp
  obtain r1 where r1: "trusted_val_at (decode_hash 32) (untrusted_new (rlp_enc (RList ?ts))) 0 = (Some (je_id e), r1)"
    "cache_ok r1" "rlp_bytes r1 = rlp_enc (RList ?ts)"
    using read_hash [of "untrusted_new (rlp_enc (RList ?ts))" ?ts 0 "je_id e"] small ok by (auto simp: entry_ok_def)
  obtain r2 where r2: "trusted_at r1 1 = (Some (untrusted_new (rlp_enc ?ins)), r2)"
    "cache_ok r2" "rlp_bytes r2 = rlp_enc (RList ?ts)"
    using trusted_at_enc [OF r1(2,3) small, of 1] by auto
  have del: "fst (trusted_list_at (decode_hash 32) r2 2) = Some (je_deletions e)"
    using trusted_list_at_hashes [OF r2(2,3) small, of 2 "je_deletions e"] ok
    by (simp add: entry_ok_def list_all_iff)
  have ins: "length (rlp_enc ?ins) < 2 ^ 64 - 1" using length_item_le [of ?ins ?ts] small by simp
  have "rlp_items (rlp_enc ?ins) = map rlp_enc (map insertion_item ?es)" using ins by (intro rlp_items_enc) linarith
  then obtain it where it: "iter_collect (length (rlp_enc ?ins) + 1) (rlp_iter (untrusted_new (rlp_enc ?ins))) =
      Some (map untrusted_new (map rlp_enc (map insertion_item ?es)), it)"
    using iter_collect_all [of "untrusted_new (rlp_enc ?ins)"] ins by auto
  have each: "list_all (\<lambda>x. length (rlp_enc (insertion_item x)) < 2 ^ 64 - 1) ?es"
  proof (unfold list_all_iff, intro ballI)
    fix x assume "x \<in> set ?es"
    then have "insertion_item x \<in> set (map insertion_item ?es)" by simp
    from length_item_le [OF this] ins show "length (rlp_enc (insertion_item x)) < 2 ^ 64 - 1" by simp
  qed
  have keys: "list_all (\<lambda>k. length k = 32 \<and> content (to_short_key k) \<noteq> NULL_RLP) (je_insertions e)"
    using ok by (simp add: entry_ok_def list_all_iff)
  have "read_insertions (map untrusted_new (map rlp_enc (map insertion_item ?es)))
      (overlay_of content r) (size_of content r) [] =
    Some (overlay_of content (\<lambda>s. r s + count_list (entry_keys e) s),
          size_of content (\<lambda>s. r s + count_list (entry_keys e) s), je_insertions e)"
    using read_insertions_of [OF keys each fin, of "[]"] room by (simp add: entry_keys_def)
  then show ?thesis
    unfolding item read_record_def
    using r1 r2 del it by (simp del: iter_collect.simps) (rule entry_eta)
qed

section \<open>All records of an era\<close>

definition push_all :: "(nat \<rightharpoonup> journal_entry list) \<Rightarrow> nat \<Rightarrow> journal_entry list \<Rightarrow> nat \<rightharpoonup> journal_entry list" where
  "push_all j era es = fold (\<lambda>e j. push_entry j era e) es j"

lemma push_all_eq: "es \<noteq> [] \<Longrightarrow> push_all j era es = j(era \<mapsto> (case j era of Some x \<Rightarrow> x | None \<Rightarrow> []) @ es)"
  unfolding push_all_def
proof (induction es arbitrary: j)
  case (Cons e es)
  then show ?case by (cases "es = []") (auto simp: push_entry_def)
qed simp

lemma era_keys_Cons: "era_keys (e # es) = entry_keys e @ era_keys es"
  by (simp add: era_keys_def)

lemma read_era_of:
  assumes disk: "\<And>i. i < 2 ^ 64 \<Longrightarrow> backing_get db name (rlp_enc (key_item era i)) =
      Some (if i < length rs then Some (rlp_enc (entry_item content (rs ! i))) else None)"
    and era: "era < 2 ^ 64" and len: "length rs < 2 ^ 64" and ok: "list_all (entry_ok content) rs"
  shows "index + length es = length rs \<Longrightarrow> es = drop index rs \<Longrightarrow> finite {s. r s \<noteq> 0} \<Longrightarrow>
    (\<And>s. int (r s + count_list (era_keys es) s) < 2 ^ 31) \<Longrightarrow>
    read_era db name era index (j, overlay_of content r, earliest, size_of content r) =
      Some (length rs, push_all j era es, overlay_of content (\<lambda>s. r s + count_list (era_keys es) s),
            if es = [] then earliest else Some era, size_of content (\<lambda>s. r s + count_list (era_keys es) s))"
proof (induction es arbitrary: index j r earliest)
  case Nil
  then have "journal_key era index = Some (rlp_enc (key_item era index))" using len by (intro journal_key_eq era) simp
  then show ?case
    using Nil disk [of index] len by (simp add: read_era.simps push_all_def era_keys_def)
next
  case (Cons e es)
  have i: "index < length rs" using Cons.prems(1) by simp
  have e: "rs ! index = e" and rest: "es = drop (index + 1) rs"
    using Cons.prems(2) i by (metis Cons_nth_drop_Suc list.inject, metis Cons_nth_drop_Suc Suc_eq_plus1 i list.inject)
  have key: "journal_key era index = Some (rlp_enc (key_item era index))" using i len by (intro journal_key_eq era) simp
  have val: "backing_get db name (rlp_enc (key_item era index)) = Some (Some (rlp_enc (entry_item content e)))"
    using disk [of index] i len e by simp
  have eok: "entry_ok content e" using ok i e by (metis list_all_length)
  let ?r = "\<lambda>s. r s + count_list (entry_keys e) s"
  have "int (?r s) < 2 ^ 31" for s using Cons.prems(4) [of s] by (simp add: era_keys_Cons)
  note step = read_record_of [OF eok Cons.prems(3) this]
  have fin: "finite {s. ?r s \<noteq> 0}"
    by (rule finite_subset [of _ "{s. r s \<noteq> 0} \<union> set (entry_keys e)"])
      (use Cons.prems(3) in \<open>auto simp: count_list_0_iff\<close>)
  have room: "int (?r s + count_list (era_keys es) s) < 2 ^ 31" for s
    using Cons.prems(4) [of s] by (simp add: era_keys_Cons add.assoc)
  have idx: "index + 1 + length es = length rs" using Cons.prems(1) by simp
  have "read_era db name era index (j, overlay_of content r, earliest, size_of content r) =
      read_era db name era (index + 1) (push_entry j era e, overlay_of content ?r, Some era, size_of content ?r)"
    using key val step by (subst read_era.simps) simp
  also have "\<dots> = Some (length rs, push_all (push_entry j era e) era es,
      overlay_of content (\<lambda>s. ?r s + count_list (era_keys es) s),
      if es = [] then Some era else Some era, size_of content (\<lambda>s. ?r s + count_list (era_keys es) s))"
    by (rule Cons.IH [OF idx rest fin room])
  finally show ?case by (simp add: push_all_def era_keys_Cons add.assoc)
qed

section \<open>All eras\<close>

definition on_disk :: "(bytes \<Rightarrow> bytes) \<Rightarrow> overlay_db \<Rightarrow> bool" where
  "on_disk content d \<longleftrightarrow>
     (\<forall>e i. e < 2 ^ 64 \<longrightarrow> i < 2 ^ 64 \<longrightarrow> overlay_payload d (rlp_enc (key_item e i)) =
        Some (if i < length (era_records (ov_journal_overlay d) e)
              then Some (rlp_enc (entry_item content (era_records (ov_journal_overlay d) e ! i))) else None)) \<and>
     overlay_payload d LATEST_ERA_KEY =
       Some (map_option (\<lambda>e. rlp_enc (RData (min_be e))) (jo_latest_era (ov_journal_overlay d)))"

definition journal_ok :: "(bytes \<Rightarrow> bytes) \<Rightarrow> journal_overlay \<Rightarrow> bool" where
  "journal_ok content jo \<longleftrightarrow>
     (\<forall>e rs. jo_journal jo e = Some rs \<longrightarrow>
        e < 2 ^ 64 \<and> rs \<noteq> [] \<and> length rs < 2 ^ 64 \<and> list_all (entry_ok content) rs) \<and>
     (\<forall>e. jo_latest_era jo = Some e \<longrightarrow> e < 2 ^ 64)"

text \<open>The eras of the journal have no gaps and end with the latest one.\<close>

definition window :: "journal_overlay \<Rightarrow> bool" where
  "window jo \<longleftrightarrow>
     dom (jo_journal jo) = {} \<or> (\<exists>a l. jo_latest_era jo = Some l \<and> a \<le> l \<and> dom (jo_journal jo) = {a..l})"

lemma refs_restrict_le:
  assumes "finite (dom j)"
  shows "refs (j |` A) s \<le> refs j s"
  unfolding refs_def
proof -
  have "(\<Sum>e \<in> dom (j |` A). count_list (era_keys (the ((j |` A) e))) s) =
      (\<Sum>e \<in> dom (j |` A). count_list (era_keys (the (j e))) s)"
    by (rule sum.cong) auto
  also have "\<dots> \<le> (\<Sum>e \<in> dom j. count_list (era_keys (the (j e))) s)"
    by (rule sum_mono2) (use assms in auto)
  finally show "(\<Sum>e \<in> dom (j |` A). count_list (era_keys (the ((j |` A) e))) s) \<le>
      (\<Sum>e \<in> dom j. count_list (era_keys (the (j e))) s)" .
qed

lemma refs_add_era:
  assumes "finite (dom j)" and "j n = Some rs"
  shows "refs (j |` {n..}) s = refs (j |` {Suc n..}) s + count_list (era_keys rs) s"
proof -
  have "(j |` {n..})(n := None) = j |` {Suc n..}" by (auto simp: restrict_map_def fun_eq_iff)
  moreover have "finite (dom (j |` {n..}))" using assms(1) by simp
  ultimately show ?thesis using refs_close [of "j |` {n..}" n rs s] assms(2) by simp
qed

lemma add_era:
  assumes "j n = Some rs" and "rs \<noteq> []"
  shows "push_all (j |` {Suc n..}) n rs = j |` {n..}"
  unfolding push_all_eq [OF assms(2)] using assms(1) by (auto simp: restrict_map_def fun_eq_iff)

lemma read_eras_of:
  assumes disk: "\<And>e i. e < 2 ^ 64 \<Longrightarrow> i < 2 ^ 64 \<Longrightarrow> backing_get db name (rlp_enc (key_item e i)) =
      Some (if i < length (case j e of Some rs \<Rightarrow> rs | None \<Rightarrow> [])
            then Some (rlp_enc (entry_item content ((case j e of Some rs \<Rightarrow> rs | None \<Rightarrow> []) ! i))) else None)"
    and ok: "\<And>e rs. j e = Some rs \<Longrightarrow> e < 2 ^ 64 \<and> rs \<noteq> [] \<and> length rs < 2 ^ 64 \<and> list_all (entry_ok content) rs"
    and bound: "\<And>s. int (refs j s) < 2 ^ 31"
    and dom: "dom j \<subseteq> {a..}" and all: "\<And>e. a \<le> e \<Longrightarrow> e < n' \<Longrightarrow> e \<in> dom j"
  shows "n < 2 ^ 64 \<Longrightarrow> n < n' \<Longrightarrow> a \<le> Suc n \<Longrightarrow> finite (dom j) \<Longrightarrow>
    \<exists>earliest'. read_eras db name n (j |` {Suc n..}, overlay_of content (refs (j |` {Suc n..})), earliest,
        size_of content (refs (j |` {Suc n..}))) =
      Some (j, overlay_of content (refs j), earliest', size_of content (refs j))"
proof (induction n arbitrary: earliest rule: less_induct)
  case (less n)
  let ?rs = "case j n of Some rs \<Rightarrow> rs | None \<Rightarrow> []"
  have fin: "finite (dom (j |` {Suc n..}))" using less.prems(4) by simp
  show ?case
  proof (cases "j n")
    case None
    then have a: "a = Suc n" using all [of n] less.prems(2,3) by (cases "a \<le> n") (auto simp: domIff)
    then have j: "j |` {Suc n..} = j" using dom by (auto simp: restrict_map_def fun_eq_iff domIff) (metis domIff subsetD atLeast_iff option.distinct(1))
    have "read_era db name n 0 (j, overlay_of content (refs j), earliest, size_of content (refs j)) =
        Some (0, j, overlay_of content (refs j), earliest, size_of content (refs j))"
      using journal_key_eq [OF less.prems(1), of 0] disk [OF less.prems(1), of 0] None by (simp add: read_era.simps)
    then show ?thesis unfolding j by (subst read_eras.simps) simp
  next
    case (Some rs)
    note rs = ok [OF Some]
    have disk_n: "backing_get db name (rlp_enc (key_item n i)) =
        Some (if i < length rs then Some (rlp_enc (entry_item content (rs ! i))) else None)" if "i < 2 ^ 64" for i
      using disk [OF less.prems(1) that] Some by simp
    have sum: "refs (j |` {Suc n..}) s + count_list (era_keys rs) s = refs (j |` {n..}) s" for s
      using refs_add_era [OF less.prems(4) Some] by simp
    have room: "int (refs (j |` {Suc n..}) s + count_list (era_keys rs) s) < 2 ^ 31" for s
      unfolding sum using bound [of s] refs_restrict_le [OF less.prems(4), of "{n..}" s] by linarith
    have "read_era db name n 0 (j |` {Suc n..}, overlay_of content (refs (j |` {Suc n..})), earliest,
        size_of content (refs (j |` {Suc n..}))) =
      Some (length rs, push_all (j |` {Suc n..}) n rs,
        overlay_of content (\<lambda>s. refs (j |` {Suc n..}) s + count_list (era_keys rs) s),
        if rs = [] then earliest else Some n,
        size_of content (\<lambda>s. refs (j |` {Suc n..}) s + count_list (era_keys rs) s))"
      using rs less.prems(1) by (intro read_era_of [OF disk_n _ _ _ _ _ finite_refs [OF fin] room]) simp_all
    then have era: "read_era db name n 0 (j |` {Suc n..}, overlay_of content (refs (j |` {Suc n..})), earliest,
        size_of content (refs (j |` {Suc n..}))) =
      Some (length rs, j |` {n..}, overlay_of content (refs (j |` {n..})), Some n, size_of content (refs (j |` {n..})))"
      unfolding sum using add_era [of j n rs] Some rs by simp
    show ?thesis
    proof (cases "n = 0")
      case True
      have "j |` {0..} = j" by (auto simp: restrict_map_def)
      then show ?thesis using era True by (subst read_eras.simps) simp
    next
      case False
      then have n: "Suc (n - 1) = n" by simp
      have "n \<in> dom j" using Some by blast
      then have "a \<le> n" using dom by auto
      then obtain e' where "read_eras db name (n - 1) (j |` {n..}, overlay_of content (refs (j |` {n..})), Some n,
          size_of content (refs (j |` {n..}))) = Some (j, overlay_of content (refs j), e', size_of content (refs j))"
        using less.IH [of "n - 1" "Some n"] False less.prems n by auto
      then show ?thesis using era False rs by (subst read_eras.simps) simp
    qed
  qed
qed

lemma read_overlay_of:
  assumes inv: "overlay_inv content (ov_journal_overlay d)" and ok: "journal_ok content (ov_journal_overlay d)"
    and disk: "on_disk content d" and win: "window (ov_journal_overlay d)"
  shows "\<exists>earliest. read_overlay (ov_backing d) (ov_db_name d) =
    Some ((ov_journal_overlay d)\<lparr>jo_pending_overlay := Map.empty, jo_earliest_era := earliest\<rparr>)"
proof -
  let ?jo = "ov_journal_overlay d"
  let ?j = "jo_journal ?jo"
  have fin: "finite (dom ?j)" by (rule overlay_invD(1) [OF inv])
  have latest: "backing_get (ov_backing d) (ov_db_name d) LATEST_ERA_KEY =
      Some (map_option (\<lambda>e. rlp_enc (RData (min_be e))) (jo_latest_era ?jo))"
    using disk by (simp add: on_disk_def overlay_payload_def)
  have none: "refs Map.empty = (\<lambda>_. 0)" by (simp add: refs_def fun_eq_iff)
  show ?thesis
  proof (cases "jo_latest_era ?jo")
    case None
    then have "?j = Map.empty" using win by (auto simp: window_def)
    then have "overlay_of content (refs ?j) = mdb_new" "size_of content (refs ?j) = 0"
      by (simp_all add: none overlay_of_def size_of_def mdb_new_def)
    then show ?thesis
      using latest None \<open>?j = Map.empty\<close> overlay_invD(3,4) [OF inv]
      by (cases ?jo) (auto simp: read_overlay_def)
  next
    case (Some l)
    then have l: "l < 2 ^ 64" using ok by (simp add: journal_ok_def)
    have dec: "rlp_decode (decode_uint 8) (rlp_enc (RData (min_be l))) = Some l"
      using u64_encoded [OF l] encode_u64 [OF l] by simp
    obtain a where a: "a \<le> Suc l" "dom ?j = {a..l}"
    proof (cases "dom ?j = {}")
      case True
      then show ?thesis using that [of "Suc l"] by simp
    next
      case False
      then show ?thesis using win Some that by (auto simp: window_def)
    qed
    have start: "?j |` {Suc l..} = Map.empty" using a(2) by (auto simp: restrict_map_def fun_eq_iff domIff) (metis atLeastAtMost_iff domIff not_less_eq_eq)
    have "\<exists>e'. read_eras (ov_backing d) (ov_db_name d) l (?j |` {Suc l..}, overlay_of content (refs (?j |` {Suc l..})), None,
        size_of content (refs (?j |` {Suc l..}))) = Some (?j, overlay_of content (refs ?j), e', size_of content (refs ?j))"
    proof (rule read_eras_of [where a = a and n' = "Suc l"])
      show "backing_get (ov_backing d) (ov_db_name d) (rlp_enc (key_item e i)) =
        Some (if i < length (case ?j e of Some rs \<Rightarrow> rs | None \<Rightarrow> [])
            then Some (rlp_enc (entry_item content ((case ?j e of Some rs \<Rightarrow> rs | None \<Rightarrow> []) ! i))) else None)"
        if "e < 2 ^ 64" "i < 2 ^ 64" for e i
        using disk that by (simp add: on_disk_def overlay_payload_def era_records_def)
      show "e < 2 ^ 64 \<and> rs \<noteq> [] \<and> length rs < 2 ^ 64 \<and> list_all (entry_ok content) rs" if "?j e = Some rs" for e rs
        using ok that unfolding journal_ok_def by blast
    qed (use a l fin overlay_invD(2) [OF inv] in auto)
    then obtain e' where "read_eras (ov_backing d) (ov_db_name d) l (Map.empty, mdb_new, None, 0) =
        Some (?j, overlay_of content (refs ?j), e', size_of content (refs ?j))"
      unfolding start none by (auto simp: overlay_of_def size_of_def mdb_new_def)
    then show ?thesis
      using latest Some dec overlay_invD(3,4) [OF inv] by (cases ?jo) (auto simp: read_overlay_def)
  qed
qed

section \<open>The system\<close>

definition tx_ok :: "(bytes \<Rightarrow> bytes) \<Rightarrow> memory_db \<Rightarrow> bool" where
  "tx_ok content m \<longleftrightarrow>
     (\<forall>k v rc. m k = Some (v, rc) \<longrightarrow> length k = 32 \<and> (0 < rc \<longrightarrow> v = content (to_short_key k) \<and> v \<noteq> NULL_RLP))"

text \<open>Eras are committed into the window or right after it.\<close>

definition era_fits :: "journal_overlay \<Rightarrow> nat \<Rightarrow> bool" where
  "era_fits jo now \<longleftrightarrow>
     now < 2 ^ 64 \<and> next_index jo now + 1 < 2 ^ 64 \<and>
     (if jo_journal jo = Map.empty then newest jo now
      else now \<in> dom (jo_journal jo) \<or> (\<exists>l. jo_latest_era jo = Some l \<and> now = l + 1))"

inductive overlay_reach :: "(bytes \<Rightarrow> bytes) \<Rightarrow> overlay_db \<Rightarrow> bool" for content where
  fresh: "name \<in> set configs \<Longrightarrow> overlay_new (repo_init configs) name = Some d \<Longrightarrow> overlay_reach content d"
| insert: "overlay_reach content d \<Longrightarrow> content (to_short_key (blake2b_key v)) = v \<Longrightarrow>
    i32_room (mdb_count (ov_transaction_overlay d) (blake2b_key v)) \<Longrightarrow>
    overlay_reach content (snd (overlay_insert d v))"
| emplace: "overlay_reach content d \<Longrightarrow> length k = 32 \<Longrightarrow> i32_room (mdb_count (ov_transaction_overlay d) k) \<Longrightarrow>
    overlay_reach content (overlay_emplace d k (content (to_short_key k)))"
| remove: "overlay_reach content d \<Longrightarrow> length k = 32 \<Longrightarrow> i32_room (mdb_count (ov_transaction_overlay d) k) \<Longrightarrow>
    overlay_reach content (overlay_remove d k)"
| commit: "overlay_reach content d \<Longrightarrow> distinct (map fst es) \<Longrightarrow> map_of es = ov_transaction_overlay d \<Longrightarrow>
    era_fits (ov_journal_overlay d) now \<Longrightarrow> refs_room (ov_journal_overlay d) (new_entry eid es) \<Longrightarrow>
    length eid = 32 \<Longrightarrow> length (rlp_enc (entry_item content (new_entry eid es))) < 2 ^ 32 \<Longrightarrow>
    overlay_journal_under d es tx_new now eid = Some (d', batch, n) \<Longrightarrow>
    distinct names \<Longrightarrow> set names = dom batch \<Longrightarrow> overlay_reach content (write_to d' batch names)"
| canonical: "overlay_reach content d \<Longrightarrow> \<forall>e \<in> dom (jo_journal (ov_journal_overlay d)). end_era \<le> e \<Longrightarrow>
    end_era + 1 < 2 ^ 64 \<Longrightarrow> overlay_mark_canonical d tx_new end_era canon_id = Some (d', batch, n) \<Longrightarrow>
    distinct names \<Longrightarrow> set names = dom batch \<Longrightarrow> overlay_reach content (write_to d' batch names)"
| flush: "overlay_reach content d \<Longrightarrow> overlay_reach content (overlay_flush d)"
| restart: "overlay_reach content d \<Longrightarrow> overlay_new (ov_backing d) (ov_db_name d) = Some d' \<Longrightarrow> overlay_reach content d'"

definition overlay_sync :: "(bytes \<Rightarrow> bytes) \<Rightarrow> overlay_db \<Rightarrow> bool" where
  "overlay_sync content d \<longleftrightarrow>
     disk_ok (ov_backing d) (ov_db_name d) \<and> tx_ok content (ov_transaction_overlay d) \<and>
     overlay_inv content (ov_journal_overlay d) \<and> journal_ok content (ov_journal_overlay d) \<and>
     on_disk content d \<and> window (ov_journal_overlay d)"

lemma overlay_syncD:
  assumes "overlay_sync content d"
  shows "disk_ok (ov_backing d) (ov_db_name d)" "tx_ok content (ov_transaction_overlay d)"
    "overlay_inv content (ov_journal_overlay d)" "journal_ok content (ov_journal_overlay d)"
    "on_disk content d" "window (ov_journal_overlay d)"
  using assms by (simp_all add: overlay_sync_def)

text \<open>Changes to the transaction overlay and to the pending values do not touch the journal.\<close>

lemma sync_frame:
  assumes "overlay_sync content d" and "ov_backing d' = ov_backing d" and "ov_db_name d' = ov_db_name d"
    and "ov_journal_overlay d' = (ov_journal_overlay d)\<lparr>jo_pending_overlay := w, jo_earliest_era := e\<rparr>"
    and "tx_ok content (ov_transaction_overlay d')"
  shows "overlay_sync content d'"
  using assms
  by (auto simp: overlay_sync_def overlay_inv_def journal_ok_def on_disk_def overlay_payload_def
      era_records_def window_def)

lemma jo_frame: "jo\<lparr>jo_pending_overlay := jo_pending_overlay jo, jo_earliest_era := jo_earliest_era jo\<rparr> = jo"
  by simp

lemma tx_ok_bump:
  assumes "tx_ok content m" and "length k = 32" and "content (to_short_key k) \<noteq> NULL_RLP" and "i32_room (mdb_count m k)"
  shows "tx_ok content (bump_entry m k (content (to_short_key k)))"
  using assms i32_room_step [OF assms(4)]
  by (auto simp: tx_ok_def bump_entry_def mdb_count_def i32_room_def split: option.splits if_splits)

lemma tx_ok_emplace:
  assumes "tx_ok content m" and "length k = 32" and "i32_room (mdb_count m k)"
  shows "tx_ok content (mdb_emplace m k (content (to_short_key k)))"
  using assms tx_ok_bump [OF assms(1,2)] by (auto simp: mdb_emplace_def)

lemma tx_ok_remove:
  assumes "tx_ok content m" and "length k = 32" and "i32_room (mdb_count m k)"
  shows "tx_ok content (mdb_remove m k)"
proof (cases "m k")
  case None
  then show ?thesis using assms(1,2) by (auto simp: tx_ok_def mdb_remove_def)
next
  case (Some p)
  obtain v rc where p: "p = (v, rc)" by (cases p)
  have "0 < rc \<longrightarrow> v = content (to_short_key k) \<and> v \<noteq> NULL_RLP"
    using assms(1) Some unfolding tx_ok_def p by blast
  moreover have "add_i32 rc (-1) = rc - 1"
    using i32_room_step [OF assms(3)] Some by (simp add: p mdb_count_def)
  ultimately show ?thesis using assms(1,2) Some by (auto simp: tx_ok_def mdb_remove_def p)
qed

lemma tx_ok_insertions:
  assumes "tx_ok content m" and "distinct (map fst es)" and "map_of es = m"
  shows "insertions_ok content es" and "\<forall>k \<in> set (removals_of es). length k = 32"
proof -
  have m: "m k = Some (v, c)" if "(k, v, c) \<in> set es" for k v c
    using that map_of_eq_Some_iff [OF assms(2)] unfolding assms(3) by auto
  show "insertions_ok content es"
    using assms(1) m by (fastforce simp: insertions_ok_def in_insertions_of tx_ok_def)
  show "\<forall>k \<in> set (removals_of es). length k = 32"
    using assms(1) m by (fastforce simp: removals_of_def tx_ok_def)
qed

lemma insertions_valued:
  assumes "insertions_ok content es"
  shows "valued content (map fst (insertions_of es)) = insertions_of es"
  unfolding valued_def map_map
  by (rule map_idI) (use assms in \<open>auto simp: insertions_ok_def\<close>)

lemma entry_item_new:
  "insertions_ok content es \<Longrightarrow>
    entry_item content (new_entry eid es) = record_item eid (insertions_of es) (removals_of es)"
  by (simp add: entry_item_def new_entry_def insertions_valued)

lemma key_not_latest:
  "e < 2 ^ 64 \<Longrightarrow> i < 2 ^ 64 \<Longrightarrow> rlp_enc (key_item e i) \<noteq> LATEST_ERA_KEY"
  using key_item_enc(2) [of e i] by (metis LATEST_ERA_KEY_def list.sel(1))

lemma sync_commit:
  assumes sync: "overlay_sync content d" and es: "distinct (map fst es)" "map_of es = ov_transaction_overlay d"
    and fits: "era_fits (ov_journal_overlay d) now" and room: "refs_room (ov_journal_overlay d) (new_entry eid es)"
    and eid: "length eid = 32" and small: "length (rlp_enc (entry_item content (new_entry eid es))) < 2 ^ 32"
    and run: "overlay_journal_under d es tx_new now eid = Some (d', batch, n)"
    and names: "distinct names" "set names = dom batch"
  shows "overlay_sync content (write_to d' batch names)"
proof -
  let ?jo = "ov_journal_overlay d" and ?e = "new_entry eid es"
  let ?jo' = "committed content ?jo now ?e"
  note S = overlay_syncD [OF sync]
  note ins = tx_ok_insertions [OF S(2) es]
  have now: "now < 2 ^ 64" and idx: "next_index ?jo now + 1 < 2 ^ 64" using fits by (simp_all add: era_fits_def)
  then have idx': "next_index ?jo now < 2 ^ 64" by simp
  have d': "d' = d\<lparr>ov_transaction_overlay := Map.empty, ov_journal_overlay := ?jo'\<rparr>"
    and batch: "batch = commit_batch_of d es tx_new now eid"
    using overlay_journal_under_eq [OF S(3) ins(1) room now idx', of tx_new] run by auto
  let ?w = "write_to d' batch names"
  have j': "jo_journal ?jo' = push_entry (jo_journal ?jo) now ?e" by (simp add: committed_def Let_def)
  have recs: "era_records ?jo' e = (if e = now then era_records ?jo now @ [?e] else era_records ?jo e)" for e
    by (simp add: era_records_def j' push_entry_def split: option.split)
  have len_now: "next_index ?jo now = length (era_records ?jo now)"
    by (simp add: next_index_def era_records_def split: option.split)
  have disk': "disk_ok (ov_backing d') (ov_db_name d')" using S(1) by (simp add: d')
  let ?ops = "DB_Insert (rlp_enc (key_item now (next_index ?jo now)))
       (code_enc (record_item eid (insertions_of es) (removals_of es))) #
     (if newest ?jo now then [DB_Insert LATEST_ERA_KEY (rlp_enc (RData (min_be now)))] else [])"
  have "tx_ops batch (ov_db_name d) = ?ops" unfolding batch tx_ops_commit by simp
  then have payload: "overlay_payload ?w k = map_option (last_op ?ops k) (overlay_payload d k)" for k
    using write_to_payload [OF disk' names, of k] by (simp add: d' overlay_payload_def)
  have ok: "entry_ok content ?e"
    using ins eid small
    by (auto simp: entry_ok_def new_entry_def insertions_ok_def)
  have rec: "code_enc (record_item eid (insertions_of es) (removals_of es)) = rlp_enc (entry_item content ?e)"
    using code_enc_eq [OF small] unfolding entry_item_new [OF ins(1)] .
  have disk: "overlay_payload ?w (rlp_enc (key_item e i)) =
      Some (if i < length (era_records ?jo' e) then Some (rlp_enc (entry_item content (era_records ?jo' e ! i))) else None)"
    if ei: "e < 2 ^ 64" "i < 2 ^ 64" for e i
  proof -
    have same: "rlp_enc (key_item e i) = rlp_enc (key_item now (next_index ?jo now)) \<longleftrightarrow> e = now \<and> i = next_index ?jo now"
      using key_item_inject [OF _ ei now idx'] by blast
    have old: "overlay_payload d (rlp_enc (key_item e i)) =
        Some (if i < length (era_records ?jo e) then Some (rlp_enc (entry_item content (era_records ?jo e ! i))) else None)"
      using S(5) ei by (simp add: on_disk_def)
    show ?thesis
      unfolding payload old recs
      using same key_not_latest [OF ei] rec len_now by (auto simp: nth_append)
  qed
  have latest: "overlay_payload ?w LATEST_ERA_KEY = Some (map_option (\<lambda>e. rlp_enc (RData (min_be e))) (jo_latest_era ?jo'))"
    using S(5) key_not_latest [OF now idx']
    by (auto simp: payload on_disk_def committed_def Let_def)
  have jok: "journal_ok content ?jo'"
  proof -
    have "list_all (entry_ok content) (era_records ?jo now)"
      using S(4) by (auto simp: journal_ok_def era_records_def split: option.split)
    then have "list_all (entry_ok content) (era_records ?jo' now) \<and> length (era_records ?jo' now) < 2 ^ 64 \<and> era_records ?jo' now \<noteq> []"
      using ok idx len_now by (simp add: recs)
    then have "rs \<noteq> [] \<and> length rs < 2 ^ 64 \<and> list_all (entry_ok content) rs" if "jo_journal ?jo' now = Some rs" for rs
      using that by (simp add: era_records_def)
    moreover have "jo_journal ?jo' e = jo_journal ?jo e" if "e \<noteq> now" for e using that by (simp add: j' push_entry_def)
    moreover have "jo_latest_era ?jo' = Some e \<Longrightarrow> e < 2 ^ 64" for e
      using S(4) now by (auto simp: committed_def Let_def journal_ok_def split: if_splits)
    ultimately show ?thesis using S(4) now unfolding journal_ok_def by metis
  qed
  have "window ?jo'"
  proof -
    have dom: "dom (jo_journal ?jo') = insert now (dom (jo_journal ?jo))" by (auto simp: j' push_entry_def)
    show ?thesis
    proof (cases "jo_journal ?jo = Map.empty")
      case True
      then have "newest ?jo now" using fits by (simp add: era_fits_def)
      then have "jo_latest_era ?jo' = Some now" by (simp add: committed_def Let_def)
      then show ?thesis using dom True by (auto simp: window_def)
    next
      case False
      then obtain a l where l: "jo_latest_era ?jo = Some l" "a \<le> l" "dom (jo_journal ?jo) = {a..l}"
        using S(6) by (auto simp: window_def)
      have "now \<in> {a..l} \<or> now = l + 1" using fits False l by (auto simp: era_fits_def)
      then show ?thesis
      proof
        assume "now \<in> {a..l}"
        then have "jo_latest_era ?jo' = Some l" "dom (jo_journal ?jo') = {a..l}"
          using l dom by (auto simp: committed_def Let_def newest_def)
        then show ?thesis using l(2) by (auto simp: window_def)
      next
        assume "now = l + 1"
        then have "jo_latest_era ?jo' = Some (l + 1)" "dom (jo_journal ?jo') = {a..l + 1}"
          using l dom by (auto simp: committed_def Let_def newest_def)
        then show ?thesis using l(2) unfolding window_def by (metis le_SucI Suc_eq_plus1)
      qed
    qed
  qed
  moreover have "disk_ok (ov_backing ?w) (ov_db_name ?w)" using write_disk_ok [OF disk'] by simp
  ultimately show ?thesis
    using committed_inv [OF S(3) room] jok disk latest
    by (simp add: overlay_sync_def on_disk_def d' tx_ok_def)
qed

text \<open>A journal key is not touched by the insertions and deletions of state keys.\<close>

lemma mark_ops_journal_key:
  assumes "length k < 32" and "list_all (entry_ok content) (era_records jo end_era)"
  shows "last_op (mark_ops content jo end_era canon_id) k old =
    (if k \<in> (\<lambda>i. rlp_enc (key_item end_era i)) ` {0..<length (era_records jo end_era)} then None else old)"
proof -
  let ?rs = "era_records jo end_era"
  have ins: "k \<notin> set (canon_insertions canon_id ?rs)"
    using assms by (auto simp: canon_insertions_def list_all_iff entry_ok_def)
  have "set (canon_deletions canon_id ?rs) \<subseteq> (\<Union>e \<in> set ?rs. set (je_deletions e))"
  proof (cases "filter (\<lambda>e. je_id e = canon_id) ?rs")
    case (Cons e es)
    then have "last (e # es) \<in> set ?rs" by (metis filter_is_subset last_in_set list.distinct(1) subsetD)
    then show ?thesis unfolding canon_deletions_def last_deletions_def Cons by auto
  qed (simp add: canon_deletions_def last_deletions_def)
  then have del: "k \<notin> set (canon_deletions canon_id ?rs)"
    using assms by (force simp: list_all_iff entry_ok_def)
  have "map (\<lambda>i. DB_Delete (rlp_enc (key_item end_era i))) [0..<length ?rs] =
      map DB_Delete (map (\<lambda>i. rlp_enc (key_item end_era i)) [0..<length ?rs])" by simp
  then show ?thesis
    using ins del by (simp only: mark_ops_def Let_def last_op_append last_op_inserts last_op_deletes) (simp del: fun_upd_apply)
qed

lemma sync_mark:
  assumes sync: "overlay_sync content d" and oldest: "\<forall>e \<in> dom (jo_journal (ov_journal_overlay d)). end_era \<le> e"
    and era: "end_era + 1 < 2 ^ 64" and run: "overlay_mark_canonical d tx_new end_era canon_id = Some (d', batch, n)"
    and names: "distinct names" "set names = dom batch"
  shows "overlay_sync content (write_to d' batch names)"
proof -
  let ?jo = "ov_journal_overlay d"
  let ?jo' = "marked content ?jo end_era canon_id" and ?rs = "era_records ?jo end_era"
  note S = overlay_syncD [OF sync]
  have ok: "list_all (entry_ok content) ?rs" and len: "length ?rs < 2 ^ 64"
    using S(4) by (auto simp: journal_ok_def era_records_def split: option.split)
  have d': "d' = d\<lparr>ov_journal_overlay := ?jo'\<rparr>" and ops: "tx_ops batch (ov_db_name d) = mark_ops content ?jo end_era canon_id"
    using overlay_mark_canonical_eq [OF S(3) era, of tx_new canon_id] run len by auto
  let ?w = "write_to d' batch names"
  have disk': "disk_ok (ov_backing d') (ov_db_name d')" using S(1) by (simp add: d')
  have payload: "overlay_payload ?w k =
      map_option (\<lambda>old. if k \<in> (\<lambda>i. rlp_enc (key_item end_era i)) ` {0..<length ?rs} then None else old) (overlay_payload d k)"
    if "length k < 32" for k
    using write_to_payload [OF disk' names, of k] ops mark_ops_journal_key [OF that ok]
    by (auto simp: d' overlay_payload_def intro: option.map_cong)
  have e64: "end_era < 2 ^ 64" using era by simp
  have j': "jo_journal ?jo' = (jo_journal ?jo)(end_era := None)" by (simp add: marked_def Let_def)
  have recs: "era_records ?jo' e = (if e = end_era then [] else era_records ?jo e)" for e
    by (simp add: era_records_def j')
  have disk: "overlay_payload ?w (rlp_enc (key_item e i)) =
      Some (if i < length (era_records ?jo' e) then Some (rlp_enc (entry_item content (era_records ?jo' e ! i))) else None)"
    if ei: "e < 2 ^ 64" "i < 2 ^ 64" for e i
  proof -
    have "rlp_enc (key_item e i) \<in> (\<lambda>i. rlp_enc (key_item end_era i)) ` {0..<length ?rs} \<longleftrightarrow> e = end_era \<and> i < length ?rs"
      using key_item_inject [OF _ ei e64] len by (auto simp: image_iff)
    moreover have "overlay_payload d (rlp_enc (key_item e i)) =
        Some (if i < length (era_records ?jo e) then Some (rlp_enc (entry_item content (era_records ?jo e ! i))) else None)"
      using S(5) ei by (simp add: on_disk_def)
    ultimately show ?thesis unfolding payload [OF key_item_enc(1) [OF ei]] recs by auto
  qed
  have "rlp_enc (key_item end_era i) \<noteq> LATEST_ERA_KEY" if "i < length ?rs" for i
    by (rule key_not_latest [OF e64 less_trans [OF that len]])
  then have "LATEST_ERA_KEY \<notin> (\<lambda>i. rlp_enc (key_item end_era i)) ` {0..<length ?rs}"
    by (metis atLeastLessThan_iff imageE)
  moreover have "length LATEST_ERA_KEY < 32" by (simp add: LATEST_ERA_KEY_def)
  ultimately have latest: "overlay_payload ?w LATEST_ERA_KEY = Some (map_option (\<lambda>e. rlp_enc (RData (min_be e))) (jo_latest_era ?jo'))"
    using payload [of LATEST_ERA_KEY] S(5) by (simp add: on_disk_def marked_def Let_def)
  have jok: "journal_ok content ?jo'"
    using S(4) by (auto simp: journal_ok_def j' marked_def Let_def)
  have "window ?jo'"
  proof (cases "jo_journal ?jo end_era")
    case None
    then have "jo_journal ?jo' = jo_journal ?jo" by (auto simp: j')
    then show ?thesis using S(6) by (simp add: window_def marked_def Let_def)
  next
    case (Some rs)
    then obtain a l where l: "jo_latest_era ?jo = Some l" "a \<le> l" "dom (jo_journal ?jo) = {a..l}"
      using S(6) by (auto simp: window_def)
    have "end_era = a" using oldest l Some by (metis atLeastAtMost_iff domI le_antisym order_refl)
    then have "dom (jo_journal ?jo') = {a..l} - {a}" unfolding j' by (simp add: l(3))
    also have "\<dots> = {Suc a..l}" by auto
    finally have "dom (jo_journal ?jo') = {Suc a..l}" .
    moreover have "jo_latest_era ?jo' = Some l" using l(1) by (simp add: marked_def Let_def)
    ultimately show ?thesis unfolding window_def by (cases "Suc a \<le> l") auto
  qed
  moreover have "disk_ok (ov_backing ?w) (ov_db_name ?w)" using write_disk_ok [OF disk'] by simp
  ultimately show ?thesis
    using marked_inv [OF S(3)] jok disk latest S(2) by (simp add: overlay_sync_def on_disk_def d')
qed

section \<open>Every reachable state\<close>

lemma repo_init_dbs: "name \<in> set configs \<Longrightarrow> repo_dbs (repo_init configs) name = Some []"
proof -
  have "name \<in> set cs \<or> m name = Some [] \<Longrightarrow> fold (\<lambda>name dbs. dbs(name \<mapsto> mock_new)) cs m name = Some []" for cs m
    by (induction cs arbitrary: m) (auto simp: mock_new_def)
  then show "name \<in> set configs \<Longrightarrow> ?thesis" by (simp add: repo_init_def)
qed

lemma repo_init_ok: "name \<in> set configs \<Longrightarrow> disk_ok (repo_init configs) name"
proof -
  have "\<forall>db \<in> ran m. mock_ok db \<Longrightarrow> \<forall>db \<in> ran (fold (\<lambda>name dbs. dbs(name \<mapsto> mock_new)) cs m). mock_ok db" for cs m
  proof (induction cs arbitrary: m)
    case (Cons c cs)
    have "\<forall>db \<in> ran (m(c \<mapsto> mock_new)). mock_ok db" using Cons.prems by (auto simp: ran_def mock_ok_def mock_new_def)
    then show ?case using Cons.IH by simp
  qed simp
  from this [of Map.empty configs] show "name \<in> set configs \<Longrightarrow> ?thesis"
    using repo_init_dbs [of name configs] by (simp add: disk_ok_def repo_init_def)
qed

definition empty_overlay :: "mock_repository \<Rightarrow> string \<Rightarrow> overlay_db" where
  "empty_overlay r name = \<lparr>ov_transaction_overlay = mdb_new, ov_backing = r,
     ov_journal_overlay = \<lparr>jo_backing_overlay = mdb_new, jo_pending_overlay = Map.empty, jo_journal = Map.empty,
       jo_latest_era = None, jo_earliest_era = None, jo_cumulative_size = 0\<rparr>, ov_db_name = name\<rparr>"

lemma fresh_payload: "name \<in> set configs \<Longrightarrow> backing_get (repo_init configs) name k = Some None"
  by (simp add: backing_get_def repo_get_def repo_init_dbs mock_get_def)

lemma overlay_new_fresh:
  "name \<in> set configs \<Longrightarrow> overlay_new (repo_init configs) name = Some (empty_overlay (repo_init configs) name)"
  by (simp add: overlay_new_def read_overlay_def fresh_payload empty_overlay_def)

lemma fresh_sync: "name \<in> set configs \<Longrightarrow> overlay_sync content (empty_overlay (repo_init configs) name)"
  using repo_init_ok [of name configs] fresh_payload [of name configs]
  by (simp add: overlay_sync_def empty_overlay_def tx_ok_def mdb_new_def overlay_inv_def refs_def overlay_of_def
      size_of_def journal_ok_def on_disk_def overlay_payload_def era_records_def window_def)

lemma reach_sync: "overlay_reach content d \<Longrightarrow> overlay_sync content d"
proof (induction rule: overlay_reach.induct)
  case (fresh name configs d)
  then have "d = empty_overlay (repo_init configs) name" using overlay_new_fresh by simp
  then show ?case using fresh_sync [OF fresh(1)] by simp
next
  case (insert d v)
  have "tx_ok content (snd (mdb_insert blake2b_key (ov_transaction_overlay d) v))"
    using tx_ok_emplace [OF overlay_syncD(2) [OF insert.IH], of "blake2b_key v"] insert.hyps(2,3) overlay_syncD(2) [OF insert.IH]
    by (simp add: mdb_insert_def mdb_emplace_def Let_def split: if_splits)
  then show ?case
    by (intro sync_frame [OF insert.IH, where w = "jo_pending_overlay (ov_journal_overlay d)" and e = "jo_earliest_era (ov_journal_overlay d)"])
      (simp_all add: overlay_insert_def split_def)
next
  case (emplace d k)
  have "tx_ok content (mdb_emplace (ov_transaction_overlay d) k (content (to_short_key k)))"
    by (rule tx_ok_emplace [OF overlay_syncD(2) [OF emplace.IH] emplace.hyps(2,3)])
  then show ?case
    by (intro sync_frame [OF emplace.IH, where w = "jo_pending_overlay (ov_journal_overlay d)" and e = "jo_earliest_era (ov_journal_overlay d)"])
      (simp_all add: overlay_emplace_def)
next
  case (remove d k)
  have "tx_ok content (mdb_remove (ov_transaction_overlay d) k)"
    by (rule tx_ok_remove [OF overlay_syncD(2) [OF remove.IH] remove.hyps(2,3)])
  then show ?case
    by (intro sync_frame [OF remove.IH, where w = "jo_pending_overlay (ov_journal_overlay d)" and e = "jo_earliest_era (ov_journal_overlay d)"])
      (simp_all add: overlay_remove_def)
next
  case (commit d es now eid d' batch n names)
  show ?case by (rule sync_commit [OF commit.IH commit.hyps(2-10)])
next
  case (canonical d end_era canon_id d' batch n names)
  show ?case by (rule sync_mark [OF canonical.IH canonical.hyps(2-6)])
next
  case (flush d)
  show ?case
    by (rule sync_frame [OF flush.IH, where w = Map.empty and e = "jo_earliest_era (ov_journal_overlay d)"])
      (simp_all add: overlay_flush_def overlay_syncD(2) [OF flush.IH])
next
  case (restart d d')
  note S = overlay_syncD [OF restart.IH]
  obtain e where "read_overlay (ov_backing d) (ov_db_name d) =
      Some ((ov_journal_overlay d)\<lparr>jo_pending_overlay := Map.empty, jo_earliest_era := e\<rparr>)"
    using read_overlay_of [OF S(3-6)] by blast
  then have "d' = \<lparr>ov_transaction_overlay = mdb_new, ov_backing = ov_backing d,
      ov_journal_overlay = (ov_journal_overlay d)\<lparr>jo_pending_overlay := Map.empty, jo_earliest_era := e\<rparr>, ov_db_name = ov_db_name d\<rparr>"
    using restart.hyps(2) by (simp add: overlay_new_def)
  then show ?case
    by (intro sync_frame [OF restart.IH, where w = Map.empty and e = e]) (simp_all add: tx_ok_def mdb_new_def)
qed

section \<open>Properties\<close>

text \<open>C11. Restarting recovers the journal: in every state the system can reach, by insertions,
  removals, commits and canonicalisations each written in one batch, flushes and restarts,
  opening the database again terminates without a panic, and the journal, the history overlay
  with its reference counts, the latest era and the size read back from the records on disk are
  those in memory.\<close>

theorem overlay_recovery:
  assumes "overlay_reach content d"
  shows "\<exists>d'. overlay_new (ov_backing d) (ov_db_name d) = Some d' \<and>
    jo_journal (ov_journal_overlay d') = jo_journal (ov_journal_overlay d) \<and>
    jo_backing_overlay (ov_journal_overlay d') = jo_backing_overlay (ov_journal_overlay d) \<and>
    jo_latest_era (ov_journal_overlay d') = jo_latest_era (ov_journal_overlay d) \<and>
    overlay_journal_size d' = overlay_journal_size d"
proof -
  note S = overlay_syncD [OF reach_sync [OF assms]]
  obtain e where "read_overlay (ov_backing d) (ov_db_name d) =
      Some ((ov_journal_overlay d)\<lparr>jo_pending_overlay := Map.empty, jo_earliest_era := e\<rparr>)"
    using read_overlay_of [OF S(3-6)] by blast
  then show ?thesis by (simp add: overlay_new_def overlay_journal_size_def)
qed

theorem overlay_recovery_witness:
  "\<exists>d' batch n d''. overlay_journal_under (sample_overlay [replicate 32 1 \<mapsto> ([7], 1)]) [(replicate 32 1, [7], 1)] tx_new 5 (replicate 32 2) =
      Some (d', batch, n) \<and>
    overlay_new (ov_backing (write_to d' batch [''state''])) ''state'' = Some d'' \<and>
    jo_journal (ov_journal_overlay d'') = jo_journal (ov_journal_overlay d') \<and>
    jo_backing_overlay (ov_journal_overlay d'') = jo_backing_overlay (ov_journal_overlay d') \<and>
    jo_latest_era (ov_journal_overlay d'') = jo_latest_era (ov_journal_overlay d') \<and>
    overlay_journal_size d'' = overlay_journal_size d'"
proof -
  let ?k = "replicate 32 (1 :: byte)" and ?c = "\<lambda>_ :: bytes. [7] :: bytes"
  let ?d = "sample_overlay [?k \<mapsto> ([7], 1)]" and ?es = "[(?k, [7] :: bytes, 1 :: int)]"
  have "empty_overlay (repo_init [''state'']) ''state'' = sample_overlay Map.empty"
    by (simp add: empty_overlay_def sample_overlay_def mdb_new_def)
  then have "overlay_reach ?c (sample_overlay Map.empty)"
    using overlay_reach.fresh [of "''state''" "[''state'']"] overlay_new_fresh [of "''state''" "[''state'']"] by simp
  then have "overlay_reach ?c (overlay_emplace (sample_overlay Map.empty) ?k (?c (to_short_key ?k)))"
    by (rule overlay_reach.emplace) (simp_all add: sample_overlay_def mdb_count_def i32_room_def)
  moreover have "overlay_emplace (sample_overlay Map.empty) ?k [7] = ?d"
    by (simp add: overlay_emplace_def sample_overlay_def mdb_emplace_def bump_entry_def NULL_RLP_def)
  ultimately have reach: "overlay_reach ?c ?d" by simp
  have ok: "insertions_ok ?c ?es" by (simp add: insertions_ok_def insertions_of_def NULL_RLP_def)
  have room: "refs_room (ov_journal_overlay ?d) (new_entry (replicate 32 2) ?es)"
    by (simp add: refs_room_def refs_def sample_overlay_def entry_keys_def new_entry_def insertions_of_def)
  have next_: "next_index (ov_journal_overlay ?d) 5 = 0" by (simp add: sample_overlay_def next_index_def)
  then have fits: "era_fits (ov_journal_overlay ?d) 5"
    unfolding era_fits_def by (simp add: newest_def) (simp add: sample_overlay_def)
  obtain n where run: "overlay_journal_under ?d ?es tx_new 5 (replicate 32 2) =
      Some (?d\<lparr>ov_transaction_overlay := Map.empty,
              ov_journal_overlay := committed ?c (ov_journal_overlay ?d) 5 (new_entry (replicate 32 2) ?es)\<rparr>,
            commit_batch_of ?d ?es tx_new 5 (replicate 32 2), n)"
    using overlay_journal_under_eq [OF sample_overlay_ok(1) ok room, of 5 tx_new] next_ by auto
  let ?d' = "?d\<lparr>ov_transaction_overlay := Map.empty,
              ov_journal_overlay := committed ?c (ov_journal_overlay ?d) 5 (new_entry (replicate 32 2) ?es)\<rparr>"
  let ?b = "commit_batch_of ?d ?es tx_new 5 (replicate 32 2)"
  have dom: "set [''state''] = dom ?b" by (simp add: commit_batch_of_def Let_def sample_overlay_def newest_def)
  have "byte_len 70 \<le> 1" by (simp only: byte_len_le_iff) simp
  then have small: "length (rlp_enc (entry_item ?c (new_entry (replicate 32 2) ?es))) < 2 ^ 32"
    by (simp add: entry_item_def record_item_def new_entry_def insertions_of_def removals_of_def valued_def
        insertion_item_def rlp_enc.simps length_rlp_header Let_def)
  have "overlay_reach ?c (write_to ?d' ?b [''state''])"
    by (rule overlay_reach.commit [OF reach _ _ fits room _ small run _ dom]) (simp_all add: sample_overlay_def)
  from overlay_recovery [OF this] show ?thesis
    using run by (auto simp: overlay_journal_size_def sample_overlay_def)
qed

end
