(* ===== verification/Account_DB.thy ===== *)
theory Account_DB
  imports Trie_Persist
begin

text \<open>
  The stores of accounts: \<open>accounts/src/account_db.rs\<close>.

  \<open>AccountDB\<close> and \<open>AccountDBMut\<close> give every account a store of its own inside one \<open>HashStore\<close>: the
  last 20 bytes of a key are mixed with those of the hash of the address.  The write methods and
  \<open>keys\<close> of the read-only wrappers are \<open>unimplemented!()\<close>, so a read-only store is its \<open>get\<close> and
  \<open>contains\<close>; \<open>keys\<close> of the mutable ones panics too.  \<open>account_view\<close> is the store an account sees.
\<close>

unbundle bit_operations_syntax

section \<open>The wrappers\<close>

text \<open>\<open>zip\<close> ends with the shorter of the two slices.\<close>

definition combine_key :: "bytes \<Rightarrow> bytes \<Rightarrow> bytes" where
  "combine_key address_hash key =
     (let last_src = drop 12 address_hash; last_dst = drop 12 key in
      take 12 key @ map2 (\<lambda>k a. k XOR a) last_dst last_src @ drop (length last_src) last_dst)"

datatype db_factory = Mangled | Plain

definition default_factory :: db_factory where
  "default_factory = Mangled"

definition account_db_get :: "bytes \<Rightarrow> (bytes \<Rightarrow> bytes option) \<Rightarrow> bytes \<Rightarrow> bytes option" where
  "account_db_get address_hash get key =
     (if key = BLAKE2B_NULL_RLP then Some NULL_RLP else get (combine_key address_hash key))"

definition account_db_contains :: "bytes \<Rightarrow> (bytes \<Rightarrow> bool) \<Rightarrow> bytes \<Rightarrow> bool" where
  "account_db_contains address_hash contains key =
     (if key = BLAKE2B_NULL_RLP then True else contains (combine_key address_hash key))"

definition wrapping_get :: "(bytes \<Rightarrow> bytes option) \<Rightarrow> bytes \<Rightarrow> bytes option" where
  "wrapping_get get key = (if key = BLAKE2B_NULL_RLP then Some NULL_RLP else get key)"

definition wrapping_contains :: "(bytes \<Rightarrow> bool) \<Rightarrow> bytes \<Rightarrow> bool" where
  "wrapping_contains contains key = (if key = BLAKE2B_NULL_RLP then True else contains key)"

definition account_db_mut :: "(bytes \<Rightarrow> bytes) \<Rightarrow> bytes \<Rightarrow> 'db hash_store_ops \<Rightarrow> 'db hash_store_ops" where
  "account_db_mut blake address_hash D =
     \<lparr>hs_get = (\<lambda>db. account_db_get address_hash (hs_get D db)),
      hs_contains = (\<lambda>db. account_db_contains address_hash (hs_contains D db)),
      hs_insert = (\<lambda>db v.
        if v = NULL_RLP then (BLAKE2B_NULL_RLP, db)
        else let k = blake v; ak = combine_key address_hash k in (k, hs_emplace D db ak v)),
      hs_emplace = (\<lambda>db key v.
        if key = BLAKE2B_NULL_RLP then db else hs_emplace D db (combine_key address_hash key) v),
      hs_remove = (\<lambda>db key.
        if key = BLAKE2B_NULL_RLP then db else hs_remove D db (combine_key address_hash key))\<rparr>"

definition wrapping_mut :: "'db hash_store_ops \<Rightarrow> 'db hash_store_ops" where
  "wrapping_mut D =
     \<lparr>hs_get = (\<lambda>db. wrapping_get (hs_get D db)),
      hs_contains = (\<lambda>db. wrapping_contains (hs_contains D db)),
      hs_insert = (\<lambda>db v. if v = NULL_RLP then (BLAKE2B_NULL_RLP, db) else hs_insert D db v),
      hs_emplace = (\<lambda>db key v. if key = BLAKE2B_NULL_RLP then db else hs_emplace D db key v),
      hs_remove = (\<lambda>db key. if key = BLAKE2B_NULL_RLP then db else hs_remove D db key)\<rparr>"

fun factory_store_readonly ::
  "db_factory \<Rightarrow> (bytes \<Rightarrow> bytes option) \<Rightarrow> (bytes \<Rightarrow> bool) \<Rightarrow> bytes \<Rightarrow> (bytes \<Rightarrow> bytes option) \<times> (bytes \<Rightarrow> bool)" where
  "factory_store_readonly Mangled get contains address_hash =
     (account_db_get address_hash get, account_db_contains address_hash contains)"
| "factory_store_readonly Plain get contains address_hash = (wrapping_get get, wrapping_contains contains)"

fun factory_store_create ::
  "(bytes \<Rightarrow> bytes) \<Rightarrow> db_factory \<Rightarrow> 'db hash_store_ops \<Rightarrow> bytes \<Rightarrow> 'db hash_store_ops" where
  "factory_store_create blake Mangled D address_hash = account_db_mut blake address_hash D"
| "factory_store_create blake Plain D address_hash = wrapping_mut D"

section \<open>Keys\<close>

lemma length_combine_key [simp]: "length (combine_key ah k) = length k"
  by (simp add: combine_key_def Let_def)

lemma combine_key_32:
  assumes "length ah = 32" and "length k = 32"
  shows "combine_key ah k = take 12 k @ map2 (\<lambda>k a. k XOR a) (drop 12 k) (drop 12 ah)"
  using assms by (simp add: combine_key_def)

lemma map2_xor_twice: "length xs = length ys \<Longrightarrow> map2 (\<lambda>k a. k XOR a) (map2 (\<lambda>k a. k XOR a) xs ys) ys = (xs :: bytes)"
  by (induction xs ys rule: list_induct2) (simp_all add: xor.assoc)

text \<open>Mixing twice with the same address gives the key back, so no two keys of an account meet.\<close>

lemma combine_key_twice:
  assumes "length ah = 32" and "length k = 32"
  shows "combine_key ah (combine_key ah k) = k"
proof -
  have "combine_key ah (combine_key ah k) =
      take 12 k @ map2 (\<lambda>k a. k XOR a) (map2 (\<lambda>k a. k XOR a) (drop 12 k) (drop 12 ah)) (drop 12 ah)"
    using assms combine_key_32 [OF assms(1), of "combine_key ah k"] by (simp add: combine_key_32 [OF assms])
  also have "\<dots> = k" using assms by (simp only: map2_xor_twice length_drop) (simp add: append_take_drop_id)
  finally show ?thesis .
qed

lemma combine_key_inject:
  assumes len: "length ah = 32" "length k = 32" "length k' = 32"
  shows "combine_key ah k = combine_key ah k' \<longleftrightarrow> k = k'"
proof
  assume eq: "combine_key ah k = combine_key ah k'"
  show "k = k'"
    using combine_key_twice [OF len(1,2)] combine_key_twice [OF len(1,3)] unfolding eq by (rule subst)
qed simp

text \<open>Two accounts meet in a key only if their hashes agree in the last 20 bytes.\<close>

lemma map2_xor_cancel:
  "length ys = length xs \<Longrightarrow> length zs = length xs \<Longrightarrow>
     map2 (\<lambda>k a. k XOR a) xs ys = map2 (\<lambda>k a. k XOR a) xs zs \<longleftrightarrow> ys = (zs :: bytes)"
proof (induction xs arbitrary: ys zs)
  case (Cons x xs)
  have "x XOR y = x XOR z \<longleftrightarrow> y = z" for y z :: byte
  proof -
    have "x XOR (x XOR w) = w" for w by (simp only: xor.assoc [symmetric] xor_self_eq xor.left_neutral)
    then show ?thesis by metis
  qed
  then show ?case using Cons by (cases ys; cases zs) auto
qed simp

lemma combine_key_accounts:
  assumes "length ah = 32" and "length bh = 32" and "length k = 32"
  shows "combine_key ah k = combine_key bh k \<longleftrightarrow> drop 12 ah = drop 12 bh"
  using assms by (simp add: combine_key_32 map2_xor_cancel)

section \<open>The store an account sees\<close>

definition account_view :: "bytes \<Rightarrow> memory_db \<Rightarrow> memory_db" where
  "account_view ah m = (\<lambda>k. if length k = 32 then m (combine_key ah k) else None)"

abbreviation account_mem :: "(bytes \<Rightarrow> bytes) \<Rightarrow> bytes \<Rightarrow> memory_db hash_store_ops" where
  "account_mem blake ah \<equiv> account_db_mut blake ah (memory_ops blake)"

text \<open>
  The calls of a client that change a store, run on any implementation of \<open>HashStore\<close>; the result
  is the key that \<open>insert\<close> returns.
\<close>

datatype store_call = Insert_Call bytes | Emplace_Call bytes bytes | Remove_Call bytes

fun call_step :: "'db hash_store_ops \<Rightarrow> store_call \<Rightarrow> 'db \<Rightarrow> bytes option \<times> 'db" where
  "call_step D (Insert_Call v) db = map_prod Some id (hs_insert D db v)"
| "call_step D (Emplace_Call k v) db = (None, hs_emplace D db k v)"
| "call_step D (Remove_Call k) db = (None, hs_remove D db k)"

fun call_run :: "('db \<Rightarrow> store_call \<Rightarrow> bytes option \<times> 'db) \<Rightarrow> store_call list \<Rightarrow> 'db \<Rightarrow> bytes option list \<times> 'db" where
  "call_run run [] db = ([], db)"
| "call_run run (c # cs) db =
     (let (r, db) = run db c; (rs, db) = call_run run cs db in (r # rs, db))"

abbreviation account_run ::
  "(bytes \<Rightarrow> bytes) \<Rightarrow> bytes \<Rightarrow> store_call list \<Rightarrow> memory_db \<Rightarrow> bytes option list \<times> memory_db" where
  "account_run blake ah \<equiv> call_run (\<lambda>db c. call_step (account_mem blake ah) c db)"

text \<open>
  The store of its own that an account should see: a \<open>MemoryDB\<close>, where a value placed under the
  key of the null node is ignored (\<open>MemoryDB::emplace\<close> tests the value, \<open>AccountDBMut::emplace\<close> the
  key).
\<close>

definition own_step :: "(bytes \<Rightarrow> bytes) \<Rightarrow> memory_db \<Rightarrow> store_call \<Rightarrow> bytes option \<times> memory_db" where
  "own_step blake m c =
     (case c of
        Emplace_Call k v \<Rightarrow> (None, if k = BLAKE2B_NULL_RLP then m else mdb_emplace m k v)
      | _ \<Rightarrow> call_step (memory_ops blake) c m)"

text \<open>The key a call touches; \<open>MemoryDB\<close> reserves one key, which no key of the account may become.\<close>

fun call_target :: "(bytes \<Rightarrow> bytes) \<Rightarrow> store_call \<Rightarrow> bytes" where
  "call_target blake (Insert_Call v) = blake v"
| "call_target blake (Emplace_Call k v) = k"
| "call_target blake (Remove_Call k) = k"

definition usable_key :: "bytes \<Rightarrow> bytes \<Rightarrow> bool" where
  "usable_key ah k \<longleftrightarrow> length k = 32 \<and> combine_key ah k \<noteq> BLAKE2B_NULL_RLP"

lemma account_get_view:
  assumes "usable_key ah k"
  shows "hs_get (account_mem blake ah) m k = mdb_get (account_view ah m) k"
    and "hs_contains (account_mem blake ah) m k = mdb_contains (account_view ah m) k"
  using assms by (simp_all add: usable_key_def account_db_mut_def memory_ops_def account_db_get_def account_db_contains_def
      mdb_get_def mdb_contains_def account_view_def)

lemma account_step_view:
  assumes "length ah = 32" and "usable_key ah (call_target blake c)"
  shows "map_prod id (account_view ah) (call_step (account_mem blake ah) c m) = own_step blake (account_view ah m) c"
proof -
  have upd: "account_view ah (m(combine_key ah k \<mapsto> e)) = (account_view ah m)(k \<mapsto> e)" if "length k = 32" for k e
    using that combine_key_inject [OF assms(1) _ that] by (auto simp: account_view_def fun_eq_iff)
  have at: "account_view ah m k = m (combine_key ah k)" if "length k = 32" for k
    using that by (simp add: account_view_def)
  show ?thesis
    using assms(2) by (cases c)
      (auto simp: own_step_def usable_key_def account_db_mut_def memory_ops_def mdb_insert_def mdb_emplace_def
        mdb_remove_def bump_entry_def upd at Let_def split: option.split)
qed

lemma account_step_other:
  assumes "combine_key bh k \<noteq> combine_key ah (call_target blake c)"
  shows "snd (call_step (account_mem blake ah) c m) (combine_key bh k) = m (combine_key bh k)"
  using assms by (cases c)
    (auto simp: account_db_mut_def memory_ops_def mdb_emplace_def mdb_remove_def
      bump_entry_def Let_def split: option.split)

lemma account_run_view:
  assumes "length ah = 32" and "\<forall>c \<in> set cs. usable_key ah (call_target blake c)"
  shows "map_prod id (account_view ah) (account_run blake ah cs m) = call_run (own_step blake) cs (account_view ah m)"
  using assms(2)
proof (induction cs arbitrary: m)
  case (Cons c cs)
  obtain r m' where step: "call_step (account_mem blake ah) c m = (r, m')" by fastforce
  have "own_step blake (account_view ah m) c = (r, account_view ah m')"
    using account_step_view [OF assms(1), of blake c m] Cons.prems step by simp
  moreover have "map_prod id (account_view ah) (account_run blake ah cs m') = call_run (own_step blake) cs (account_view ah m')"
    by (rule Cons.IH) (use Cons.prems in simp)
  ultimately show ?case
    using step by (cases "account_run blake ah cs m'"; cases "call_run (own_step blake) cs (account_view ah m')") simp
qed simp

lemma account_run_other:
  assumes "\<forall>c \<in> set cs. combine_key bh k \<noteq> combine_key ah (call_target blake c)"
  shows "snd (account_run blake ah cs m) (combine_key bh k) = m (combine_key bh k)"
  using assms
proof (induction cs arbitrary: m)
  case (Cons c cs)
  then show ?case
    using account_step_other [of bh k ah blake c m] by (simp add: Let_def split_def)
qed simp

text \<open>Insertions alone, the calls of a commit.\<close>

lemma call_run_inserts:
  "snd (call_run (\<lambda>db c. call_step D c db) (map Insert_Call vals) db) = insert_all D vals db"
  by (induction vals arbitrary: db) (simp_all add: insert_all_def Let_def split_def)

lemma own_run_inserts: "snd (call_run (own_step blake) (map Insert_Call vals) m) = insert_all (memory_ops blake) vals m"
  by (induction vals arbitrary: m) (simp_all add: insert_all_def own_step_def Let_def split_def)

section \<open>Other accounts\<close>

text \<open>Mixing keeps the first 12 bytes of a key and separates accounts whose hashes differ in the
  other 20.\<close>

lemma combine_key_separates:
  assumes len: "length ah = 32" "length bh = 32" "length k = 32"
    and "drop 12 ah \<noteq> drop 12 bh" and "t = k \<or> take 12 t \<noteq> take 12 k"
  shows "combine_key bh k \<noteq> combine_key ah t"
proof (cases "t = k")
  case True
  then show ?thesis using combine_key_accounts [OF len] assms(4) by metis
next
  case False
  have "take 12 (combine_key ah t) = take 12 t" for ah t :: bytes
    by (cases "12 \<le> length t") (simp_all add: combine_key_def Let_def)
  then show ?thesis using False assms(5) by metis
qed

lemma unchanged_reads:
  assumes "m' (combine_key bh k) = m (combine_key bh k)"
  shows "hs_get (account_mem blake bh) m' k = hs_get (account_mem blake bh) m k"
    and "hs_contains (account_mem blake bh) m' k = hs_contains (account_mem blake bh) m k"
  using assms by (simp_all add: account_db_mut_def memory_ops_def account_db_get_def account_db_contains_def
      mdb_get_def mdb_contains_def)

section \<open>Properties\<close>

text \<open>C17. An account has a store of its own. Any sequence of insertions, placements and removals that an
  account does through its \<open>AccountDBMut\<close> over a shared \<open>MemoryDB\<close> returns the keys, and acts on the
  entries the account sees, exactly as the same sequence on a \<open>MemoryDB\<close> of its own; \<open>get\<close> and
  \<open>contains\<close> answer as that store does. Another account, whose address hash differs in the last 20
  bytes, sees no change at a key (neither by \<open>get\<close> nor by \<open>contains\<close>) when every key written is that
  same key or differs from it in the first 12 bytes: storing the same value in two accounts, for
  one, never makes them share an entry. Assumed is that keys have 32 bytes and that none is mixed
  into the one key that \<open>MemoryDB\<close> reserves.\<close>

theorem account_db_refines:
  assumes "length ah = 32" and "\<forall>c \<in> set cs. usable_key ah (call_target blake c)"
    and "account_run blake ah cs m = (keys, m')"
  shows "call_run (own_step blake) cs (account_view ah m) = (keys, account_view ah m') \<and>
    (\<forall>k. usable_key ah k \<longrightarrow>
       hs_get (account_mem blake ah) m' k = mdb_get (account_view ah m') k \<and>
       hs_contains (account_mem blake ah) m' k = mdb_contains (account_view ah m') k) \<and>
    (\<forall>bh k. length bh = 32 \<and> drop 12 ah \<noteq> drop 12 bh \<and> length k = 32 \<and>
         (\<forall>c \<in> set cs. call_target blake c = k \<or> take 12 (call_target blake c) \<noteq> take 12 k) \<longrightarrow>
       account_view bh m' k = account_view bh m k \<and>
       hs_get (account_mem blake bh) m' k = hs_get (account_mem blake bh) m k \<and>
       hs_contains (account_mem blake bh) m' k = hs_contains (account_mem blake bh) m k)"
proof -
  have own: "call_run (own_step blake) cs (account_view ah m) = (keys, account_view ah m')"
    using account_run_view [OF assms(1,2), of m] assms(3) by simp
  have other: "account_view bh m' k = account_view bh m k \<and>
      hs_get (account_mem blake bh) m' k = hs_get (account_mem blake bh) m k \<and>
      hs_contains (account_mem blake bh) m' k = hs_contains (account_mem blake bh) m k"
    if bh: "length bh = 32" "drop 12 ah \<noteq> drop 12 bh" "length k = 32"
      and targets: "\<forall>c \<in> set cs. call_target blake c = k \<or> take 12 (call_target blake c) \<noteq> take 12 k" for bh k
  proof -
    have "\<forall>c \<in> set cs. combine_key bh k \<noteq> combine_key ah (call_target blake c)"
      using targets combine_key_separates [OF assms(1) bh(1,3,2)] by blast
    from account_run_other [OF this, of m] have same: "m' (combine_key bh k) = m (combine_key bh k)"
      by (simp only: assms(3) snd_conv)
    show ?thesis using unchanged_reads [of m' bh k m blake] same by (simp only: account_view_def)
  qed
  show ?thesis
    by (intro conjI allI impI) (use own account_get_view other in blast)+
qed

theorem account_db_refines_witness:
  "hs_get (account_mem (\<lambda>v. replicate 32 7) (replicate 32 1))
     (snd (account_run (\<lambda>v. replicate 32 7) (replicate 32 1) [Insert_Call [5]] mdb_new)) (replicate 32 7) = Some [5] \<and>
   hs_get (account_mem (\<lambda>v. replicate 32 7) (replicate 32 2))
     (snd (account_run (\<lambda>v. replicate 32 7) (replicate 32 1) [Insert_Call [5]] mdb_new)) (replicate 32 7) = None"
proof -
  let ?h = "\<lambda>v :: bytes. replicate 32 (7 :: byte)" and ?k = "replicate 32 (7 :: byte)"
  let ?a = "replicate 32 (1 :: byte)" and ?b = "replicate 32 (2 :: byte)"
  obtain keys m where run: "account_run ?h ?a [Insert_Call [5]] mdb_new = (keys, m)" by fastforce
  have hd_ne: "x \<noteq> BLAKE2B_NULL_RLP" if "hd x = 7" for x using that by (auto simp: BLAKE2B_NULL_RLP_def)
  have "hd (combine_key ?a ?k) = 7" "hd (combine_key ?b ?k) = 7" by (simp_all add: combine_key_def)
  then have key: "usable_key ?a ?k" "combine_key ?b ?k \<noteq> BLAKE2B_NULL_RLP" "?k \<noteq> BLAKE2B_NULL_RLP"
    using hd_ne by (auto simp: usable_key_def)
  have acts: "call_run (own_step ?h) [Insert_Call [5]] (account_view ?a mdb_new) = (keys, account_view ?a m) \<and>
      hs_get (account_mem ?h ?a) m ?k = mdb_get (account_view ?a m) ?k \<and>
      hs_get (account_mem ?h ?b) m ?k = hs_get (account_mem ?h ?b) mdb_new ?k"
    using account_db_refines [OF _ _ run] key(1) by simp
  have "account_view ?a m = Map.empty(?k \<mapsto> ([5], 1))"
    using acts by (simp add: own_step_def memory_ops_def account_view_def mdb_new_def mdb_insert_def bump_entry_def
        NULL_RLP_def fun_eq_iff Let_def)
  moreover have "hs_get (account_mem ?h ?b) mdb_new ?k = None"
    using key by (simp add: account_db_mut_def memory_ops_def account_db_get_def mdb_get_def mdb_new_def)
  ultimately show ?thesis using acts run key(3) by (simp add: mdb_get_def)
qed

end
