(* ===== verification/Rlp_Records.thy ===== *)
theory Rlp_Records
  imports Rlp_Impls
begin

text \<open>
  The RLP of structs: what \<open>#[derive(RlpEncodable, RlpDecodable)]\<close> generates (\<open>rlp_derive/src/en.rs\<close>
  and \<open>de.rs\<close>), and \<open>BasicAccount\<close> (\<open>accounts/src/accounts.rs\<close>, \<open>common_types/src/basic_account.rs\<close>).

  The generated encoder opens a list with one item per field and appends the fields in order, a
  \<open>Vec\<close> with \<open>append_list\<close>; the generated decoder reads the fields by their index with \<open>val_at\<close> and
  \<open>list_at\<close>, so it accepts a longer list too.  A struct of fields with codecs is again a codec.
\<close>

declare rlp_enc.simps [simp del] code_enc.simps [simp del]

section \<open>Generated encoders\<close>

definition derived_append :: "(rlp_stream \<Rightarrow> rlp_stream option) list \<Rightarrow> rlp_stream \<Rightarrow> rlp_stream option" where
  "derived_append stmts stream = do { stream \<leftarrow> begin_list stream (length stmts); run_each stmts stream }"

lemma run_each_Cons: "run_each (f # fs) = (\<lambda>s. Option.bind (f s) (run_each fs))"
  by (rule ext) simp

text \<open>A statement that appends one item and reports when it has closed a list.\<close>

definition pushes_closing :: "(rlp_stream \<Rightarrow> rlp_stream option) \<Rightarrow> bytes \<Rightarrow> bool" where
  "pushes_closing f e \<longleftrightarrow>
     (\<forall>fs base fl. \<exists>g. (closes fs 1 \<longrightarrow> g) \<and>
        f (conc fs base fl) = map_option (\<lambda>(fs', base'). conc fs' base' g) (push fs base e 1))"

lemma pushes_closing_pushes: "pushes_closing f e \<Longrightarrow> pushes f e"
  unfolding pushes_closing_def pushes_def by blast

lemma closing_append: "appends_item f t \<Longrightarrow> pushes_closing (append_with f) (code_enc t)"
  unfolding pushes_closing_def appends_item_def by blast

lemma closing_list:
  assumes "list_all2 appends_item vs ts"
  shows "pushes_closing (append_list vs) (code_enc (RList ts))"
proof -
  have "append_list vs (conc fs base fl) =
      map_option (\<lambda>(fs', base'). conc fs' base' True) (push fs base (code_enc (RList ts)) 1)" for fs base fl
  proof (cases "ts = []")
    case True
    then have "vs = []" "code_enc (RList []) = [0xc0]"
      using assms by (simp_all add: code_enc.simps code_header_def)
    then show ?thesis using True by (auto simp: append_list_def begin_list_0_conc append_each_Nil Option.bind_runit)
  next
    case False
    have "append_list vs (conc fs base fl) = append_list vs (conc fs base False)"
      by (simp add: append_list_def begin_list_def Let_def)
    then show ?thesis using append_list_conc [OF assms False] by simp
  qed
  then show ?thesis unfolding pushes_closing_def by blast
qed

lemma derived_append_item:
  assumes "list_all2 pushes_closing stmts (map code_enc ts)" and "ts \<noteq> []"
  shows "appends_item (derived_append stmts) (RList ts)"
proof -
  obtain us u where ts: "ts = us @ [u]" using assms(2) by (metis append_butlast_last_id)
  obtain gs f where stmts: "stmts = gs @ [f]" and gs: "list_all2 pushes_closing gs (map code_enc us)"
    and f: "pushes_closing f (code_enc u)"
    using assms(1) unfolding ts by (auto simp: list_all2_append2 list_all2_Cons2)
  have gs': "list_all2 pushes gs (map code_enc us)" using gs by (rule list_all2_mono) (rule pushes_closing_pushes)
  have len: "length stmts = length ts" using list_all2_lengthD [OF assms(1)] by simp
  have "derived_append stmts (conc fs base fl) =
      map_option (\<lambda>(fs', base'). conc fs' base' True) (push fs base (code_enc (RList ts)) 1)" for fs base fl
  proof -
    obtain g where open_part: "run_each gs (conc ((Some (length ts), 0, []) # fs) base False) =
        Some (conc ((Some (length ts), length us, concat (map code_enc us)) # fs) base g)"
      using run_each_open [OF gs', of 0 "length ts" "[]" fs base False] ts by auto
    obtain h where closes: "closes ((Some (length ts), length us, concat (map code_enc us)) # fs) 1 \<longrightarrow> h"
      and last: "f (conc ((Some (length ts), length us, concat (map code_enc us)) # fs) base g) =
        map_option (\<lambda>(fs', base'). conc fs' base' h)
          (push ((Some (length ts), length us, concat (map code_enc us)) # fs) base (code_enc u) 1)"
      using f unfolding pushes_closing_def by blast
    have h using closes by (simp add: ts)
    then show ?thesis
      unfolding derived_append_def len using assms(2)
      by (simp add: stmts run_each_append begin_list_conc open_part [unfolded ts, simplified] last [unfolded ts, simplified] run_each_Nil Option.bind_runit code_enc.simps Let_def ts)
  qed
  then show ?thesis
    unfolding appends_item_def append_with_def
    by (auto simp: split_def map_option_case split: option.split intro: exI [where x = True])
qed

section \<open>Generated decoders\<close>

text \<open>A view of the encoding of a list, whatever its caches hold.\<close>

definition views_list :: "untrusted_rlp \<Rightarrow> rlp_item list \<Rightarrow> bool" where
  "views_list r ts \<longleftrightarrow> cache_ok r \<and> rlp_bytes r = rlp_enc (RList ts) \<and> length (rlp_enc (RList ts)) < 2 ^ 64 - 1"

lemma views_list_new: "length (rlp_enc (RList ts)) < 2 ^ 64 - 1 \<Longrightarrow> views_list (untrusted_new (rlp_enc (RList ts))) ts"
  by (simp add: views_list_def)

lemma views_list_item: "views_list r ts \<Longrightarrow> i < length ts \<Longrightarrow> length (rlp_enc (ts ! i)) < 2 ^ 64 - 1"
  using length_item_le [OF nth_mem [of i ts]] by (simp add: views_list_def)

definition field_reads :: "rlp_item list \<Rightarrow> nat \<Rightarrow> (untrusted_rlp \<Rightarrow> 'a decoded) \<Rightarrow> 'a decoded \<Rightarrow> bool" where
  "field_reads ts i decode x \<longleftrightarrow> i < length ts \<and> decode (untrusted_new (rlp_enc (ts ! i))) = x"

lemma val_at_enc:
  assumes "views_list r ts" and "field_reads ts i decode x"
  obtains r' where "val_at decode r i = (x, r')" and "views_list r' ts"
  using trusted_at_enc [of r ts i] assms unfolding views_list_def field_reads_def
  by (cases "rlp_at r i") (auto simp: trusted_at_def val_at_def)

lemma list_at_enc:
  assumes "views_list r ts" and "field_reads ts i (as_list decode) x"
  obtains r' where "list_at decode r i = (x, r')" and "views_list r' ts"
  using trusted_at_enc [of r ts i] assms unfolding views_list_def field_reads_def
  by (cases "rlp_at r i") (auto simp: trusted_at_def list_at_def)

section \<open>Big integers\<close>

text \<open>The conversions of a big integer, as its crate provides them, and their documented behaviour: \<open>val\<close>
  is the number, \<open>n\<close> the bytes of the type.\<close>

record 'u uint_conv =
  uc_bits :: "'u \<Rightarrow> nat"
  uc_to_be :: "'u \<Rightarrow> bytes"
  uc_from :: "bytes \<Rightarrow> 'u"

definition uint_law :: "nat \<Rightarrow> 'u uint_conv \<Rightarrow> ('u \<Rightarrow> nat) \<Rightarrow> bool" where
  "uint_law n U val \<longleftrightarrow>
     (\<forall>u. uc_bits U u = bit_len (val u) \<and> uc_to_be U u = be_bytes n (val u) \<and> val u < 256 ^ n) \<and>
     (\<forall>bs u. length bs \<le> n \<longrightarrow> be_nat bs = val u \<longrightarrow> uc_from U bs = u)"

abbreviation append_big :: "nat \<Rightarrow> 'u uint_conv \<Rightarrow> 'u \<Rightarrow> rlp_stream \<Rightarrow> rlp_stream option" where
  "append_big n U \<equiv> rlp_append_big n (uc_bits U) (uc_to_be U)"

abbreviation read_big :: "nat \<Rightarrow> 'u uint_conv \<Rightarrow> untrusted_rlp \<Rightarrow> 'u decoded" where
  "read_big n U \<equiv> decode_big n (uc_from U)"

lemma big_codec:
  assumes "uint_law n U val"
  shows "rlp_codec (append_big n U) (read_big n U) (\<lambda>x. RData (min_be (val x))) (\<lambda>_. True)"
proof (rule data_codec)
  fix x
  have len: "byte_len (val x) \<le> n" using assms by (simp add: uint_law_def byte_len_le_iff)
  have "drop (n - (uc_bits U x + 7) div 8) (uc_to_be U x) = min_be (val x)"
    using drop_be_bytes [of "n - byte_len (val x)" "byte_len (val x)" "val x"] len assms
    by (simp add: uint_law_def min_be_def byte_len_def)
  then show "append_big n U x = rlp_append_bytes (min_be (val x))" by (simp add: rlp_append_big_def)
  show "read_big n U (untrusted_new (rlp_enc (RData (min_be (val x))))) =
      decode_value (rlp_enc (RData (min_be (val x))))
        (\<lambda>bytes. if length bytes \<noteq> 0 \<and> bytes ! 0 = 0 then Err RlpInvalidIndirection
                 else if length bytes \<le> n then Ok (uc_from U bytes) else Err RlpIsTooBig)"
    by (simp add: decode_big_def)
  have "uc_from U (min_be (val x)) = x" using assms len by (simp add: uint_law_def)
  then show "(if length (min_be (val x)) \<noteq> 0 \<and> min_be (val x) ! 0 = 0 then Err RlpInvalidIndirection
      else if length (min_be (val x)) \<le> n then Ok (uc_from U (min_be (val x))) else Err RlpIsTooBig) = Ok x"
    using len min_be_first [of "val x"] by auto
qed

lemma rlp_enc_short:
  assumes "length b \<le> 256"
  shows "length (rlp_enc (RData b)) \<le> 300"
proof -
  have "byte_len (length b) \<le> 2" using assms by (simp add: byte_len_le_iff)
  then show ?thesis using assms by (auto simp: rlp_enc.simps length_rlp_header)
qed

lemma rlp_enc_list_small:
  assumes "length (concat (map rlp_enc ts)) < 10000"
  shows "length (rlp_enc (RList ts)) < 2 ^ 32"
proof -
  have "byte_len (length (concat (map rlp_enc ts))) \<le> 8" using assms by (intro byte_len_le_8) simp
  then show ?thesis using assms by (auto simp: rlp_enc.simps length_rlp_header Let_def)
qed

text \<open>A model of \<open>U256\<close> with the documented conversions.\<close>

definition word256 :: "256 word uint_conv" where
  "word256 = \<lparr>uc_bits = (\<lambda>u. bit_len (unat u)), uc_to_be = (\<lambda>u. be_bytes 32 (unat u)), uc_from = (\<lambda>bs. of_nat (be_nat bs))\<rparr>"

lemma word256_law: "uint_law 32 word256 unat"
proof -
  have "unat u < 256 ^ 32" for u :: "256 word"
    using unsigned_less [of u] by simp
  then show ?thesis by (simp add: uint_law_def word256_def)
qed

section \<open>\<open>BasicAccount\<close>\<close>

record 'u basic_account =
  ba_nonce :: 'u
  ba_balance :: 'u
  ba_storage_root :: bytes
  ba_code_hash :: bytes

definition rlp_append_basic :: "'u uint_conv \<Rightarrow> 'u basic_account \<Rightarrow> rlp_stream \<Rightarrow> rlp_stream option" where
  "rlp_append_basic U a =
     derived_append
       [append_with (append_big 32 U (ba_nonce a)), append_with (append_big 32 U (ba_balance a)),
        append_with (rlp_append_hash (ba_storage_root a)), append_with (rlp_append_hash (ba_code_hash a))]"

definition decode_basic :: "'u uint_conv \<Rightarrow> untrusted_rlp \<Rightarrow> 'u basic_account decoded" where
  "decode_basic U rlp =
     (case val_at (read_big 32 U) rlp 0 of (x, rlp) \<Rightarrow> obind x (\<lambda>nonce.
      case val_at (read_big 32 U) rlp 1 of (x, rlp) \<Rightarrow> obind x (\<lambda>balance.
      case val_at (decode_hash 32) rlp 2 of (x, rlp) \<Rightarrow> obind x (\<lambda>storage_root.
      case val_at (decode_hash 32) rlp 3 of (x, rlp) \<Rightarrow> obind x (\<lambda>code_hash.
      Ok \<lparr>ba_nonce = nonce, ba_balance = balance, ba_storage_root = storage_root, ba_code_hash = code_hash\<rparr>)))))"

definition basic_item :: "('u \<Rightarrow> nat) \<Rightarrow> 'u basic_account \<Rightarrow> rlp_item" where
  "basic_item val a =
     RList [RData (min_be (val (ba_nonce a))), RData (min_be (val (ba_balance a))),
       RData (ba_storage_root a), RData (ba_code_hash a)]"

definition basic_ok :: "'u basic_account \<Rightarrow> bool" where
  "basic_ok a \<longleftrightarrow> length (ba_storage_root a) = 32 \<and> length (ba_code_hash a) = 32"

lemma basic_codec:
  assumes "uint_law 32 U val"
  shows "rlp_codec (rlp_append_basic U) (decode_basic U) (basic_item val) basic_ok"
proof
  fix a :: "'a basic_account"
  note big = big_codec [OF assms] and hash = hash_codec [of 32]
  show "basic_ok a \<Longrightarrow> appends_item (rlp_append_basic U a) (basic_item val a)"
    unfolding rlp_append_basic_def basic_item_def
    by (rule derived_append_item)
      (simp_all add: closing_append rlp_codec.appends [OF big] rlp_codec.appends [OF hash])
  let ?ts = "[RData (min_be (val (ba_nonce a))), RData (min_be (val (ba_balance a))),
       RData (ba_storage_root a), RData (ba_code_hash a)]"
  let ?r = "untrusted_new (rlp_enc (RList ?ts))"
  assume ok: "basic_ok a" and "length (rlp_enc (basic_item val a)) < 2 ^ 64 - 1"
  then have r0: "views_list ?r ?ts" unfolding basic_item_def by (intro views_list_new)
  note each = views_list_item [OF this]
  have "field_reads ?ts 0 (read_big 32 U) (Ok (ba_nonce a))" "field_reads ?ts 1 (read_big 32 U) (Ok (ba_balance a))"
    "field_reads ?ts 2 (decode_hash 32) (Ok (ba_storage_root a))" "field_reads ?ts 3 (decode_hash 32) (Ok (ba_code_hash a))"
    using each [of 0] each [of 1] each [of 2] each [of 3] ok
    by (simp_all add: field_reads_def rlp_codec.decodes [OF big] rlp_codec.decodes [OF hash] basic_ok_def)
  note fields = this
  obtain r1 where r1: "val_at (read_big 32 U) ?r 0 = (Ok (ba_nonce a), r1)" "views_list r1 ?ts"
    by (rule val_at_enc [OF r0 fields(1)])
  obtain r2 where r2: "val_at (read_big 32 U) r1 1 = (Ok (ba_balance a), r2)" "views_list r2 ?ts"
    by (rule val_at_enc [OF r1(2) fields(2)])
  obtain r3 where r3: "val_at (decode_hash 32) r2 2 = (Ok (ba_storage_root a), r3)" "views_list r3 ?ts"
    by (rule val_at_enc [OF r2(2) fields(3)])
  obtain r4 where r4: "val_at (decode_hash 32) r3 3 = (Ok (ba_code_hash a), r4)"
    by (rule val_at_enc [OF r3(2) fields(4)])
  show "decode_basic U (untrusted_new (rlp_enc (basic_item val a))) = Ok a"
    using r1(1) r2(1) r3(1) r4 by (simp add: decode_basic_def basic_item_def)
qed

end
