(* ===== verification/Accounts.thy ===== *)
theory Accounts
  imports Account_DB Rlp_Records
begin

text \<open>
  Accounts: \<open>accounts/src/accounts.rs\<close>, \<open>generic.rs\<close> and \<open>traits/mod.rs\<close>, over a trie of the account's
  store (\<open>Account_DB\<close>) and the factory of mutable tries (\<open>patricia_trie/src/lib.rs\<close>).

  \<open>Account<T, U>\<close> is a record with the storage cache and the storage changes as type parameters.
  The macro \<open>impl_account!\<close> gives both kinds of accounts the same methods (\<open>account_\<dots>\<close>); the methods of
  one kind are \<open>avm_\<dots>\<close> and \<open>fvm_\<dots>\<close>.  A \<open>HashMap\<close> is a map, and draining it takes the order of the
  visit as an argument; the LRU cache is the crate \<open>lru_cache\<close> and the numbers are those of \<open>U256\<close>,
  so their operations are arguments.  Hashes and the keys and values of FVM storage are byte
  strings; \<open>println!\<close> and \<open>trace!\<close> are left out.  A trie is committed when it is dropped, at the end
  of \<open>commit_storage\<close>, also when an error ends it early.
\<close>

section \<open>The data\<close>

datatype filth = Clean | Dirty

record ('t, 'u, 'n) account =
  ac_balance :: 'n
  ac_nonce :: 'n
  ac_storage_root :: bytes
  ac_storage_cache :: 't
  ac_storage_changes :: 'u
  ac_code_hash :: bytes
  ac_code_size :: "nat option"
  ac_code_cache :: bytes
  ac_code_filth :: filth
  ac_address_hash :: "bytes option"
  ac_empty_but_commit :: bool

text \<open>The operations of \<open>U256\<close>; \<open>None\<close> is the panic on overflow.\<close>

record 'n num_ops =
  no_zero :: 'n
  no_one :: 'n
  no_add :: "'n \<Rightarrow> 'n \<Rightarrow> 'n option"
  no_sub :: "'n \<Rightarrow> 'n \<Rightarrow> 'n option"
  no_ge :: "'n \<Rightarrow> 'n \<Rightarrow> bool"

text \<open>The LRU cache: \<open>lo_get_mut\<close> also moves the entry to the front.\<close>

record 'c lru_ops =
  lo_new :: "nat \<Rightarrow> 'c"
  lo_insert :: "'c \<Rightarrow> bytes \<Rightarrow> bytes \<Rightarrow> 'c"
  lo_get_mut :: "'c \<Rightarrow> bytes \<Rightarrow> bytes option \<times> 'c"
  lo_items :: "'c \<Rightarrow> (bytes \<times> bytes) list"

text \<open>Its documented behaviour: an insertion adds its entry and may evict others, a lookup finds what
  the cache holds and drops nothing.\<close>

definition lru_law :: "'c lru_ops \<Rightarrow> ('c \<Rightarrow> (bytes \<rightharpoonup> bytes)) \<Rightarrow> bool" where
  "lru_law L view \<longleftrightarrow>
     (\<forall>n. view (lo_new L n) = Map.empty) \<and>
     (\<forall>c k v. view (lo_insert L c k v) \<subseteq>\<^sub>m (view c)(k \<mapsto> v)) \<and>
     (\<forall>c k. fst (lo_get_mut L c k) = view c k \<and> view (snd (lo_get_mut L c k)) = view c) \<and>
     (\<forall>c. map_of (lo_items L c) \<subseteq>\<^sub>m view c)"

definition STORAGE_CACHE_ITEMS :: nat where
  "STORAGE_CACHE_ITEMS = 8192"

type_synonym ('c, 'n) avm_account = "('c, bytes \<rightharpoonup> bytes, 'n) account"

type_synonym ('c, 'n) fvm_account = "('c \<times> 'c, (bytes \<rightharpoonup> bytes) \<times> (bytes \<rightharpoonup> bytes), 'n) account"

section \<open>The common methods\<close>

definition account_from_rlp :: "'n uint_conv \<Rightarrow> ('n basic_account \<Rightarrow> ('t, 'u, 'n) account) \<Rightarrow> bytes \<Rightarrow> ('t, 'u, 'n) account option" where
  "account_from_rlp U from_basic rlp = map_option from_basic (rlp_decode (decode_basic U) rlp)"

definition account_init_code :: "(bytes \<Rightarrow> bytes) \<Rightarrow> bytes \<Rightarrow> ('t, 'u, 'n) account \<Rightarrow> ('t, 'u, 'n) account" where
  "account_init_code blake code a =
     a\<lparr>ac_code_hash := blake code, ac_code_cache := code, ac_code_size := Some (length code), ac_code_filth := Dirty\<rparr>"

definition account_reset_code :: "(bytes \<Rightarrow> bytes) \<Rightarrow> bytes \<Rightarrow> ('t, 'u, 'n) account \<Rightarrow> ('t, 'u, 'n) account" where
  "account_reset_code blake code a = account_init_code blake code a"

definition account_get_address_hash ::
  "(bytes \<Rightarrow> bytes) \<Rightarrow> bytes \<Rightarrow> ('t, 'u, 'n) account \<Rightarrow> bytes \<times> ('t, 'u, 'n) account" where
  "account_get_address_hash blake address a =
     (case ac_address_hash a of
        Some hash \<Rightarrow> (hash, a)
      | None \<Rightarrow> let hash = blake address in (hash, a\<lparr>ac_address_hash := Some hash\<rparr>))"

definition account_code :: "('t, 'u, 'n) account \<Rightarrow> bytes option" where
  "account_code a = (if ac_code_cache a = [] then None else Some (ac_code_cache a))"

definition account_is_cached :: "('t, 'u, 'n) account \<Rightarrow> bool" where
  "account_is_cached a \<longleftrightarrow>
     ac_code_cache a \<noteq> [] \<or> ac_code_cache a = [] \<and> ac_code_hash a = BLAKE2B_EMPTY"

definition account_cache_code ::
  "(bytes \<Rightarrow> bytes option) \<Rightarrow> ('t, 'u, 'n) account \<Rightarrow> bytes option \<times> ('t, 'u, 'n) account" where
  "account_cache_code get a =
     (if account_is_cached a then (Some (ac_code_cache a), a)
      else (case get (ac_code_hash a) of
              Some x \<Rightarrow> (Some x, a\<lparr>ac_code_size := Some (length x), ac_code_cache := x\<rparr>)
            | None \<Rightarrow> (None, a)))"

definition account_cache_given_code :: "bytes \<Rightarrow> ('t, 'u, 'n) account \<Rightarrow> ('t, 'u, 'n) account" where
  "account_cache_given_code code a = a\<lparr>ac_code_size := Some (length code), ac_code_cache := code\<rparr>"

definition account_cache_code_size ::
  "(bytes \<Rightarrow> bytes option) \<Rightarrow> ('t, 'u, 'n) account \<Rightarrow> bool \<times> ('t, 'u, 'n) account" where
  "account_cache_code_size get a =
     (if ac_code_size a \<noteq> None then (True, a)
      else if ac_code_hash a \<noteq> BLAKE2B_EMPTY then
        (case get (ac_code_hash a) of
           Some x \<Rightarrow> (True, a\<lparr>ac_code_size := Some (length x)\<rparr>)
         | None \<Rightarrow> (False, a))
      else (False, a))"

definition account_is_null :: "'n num_ops \<Rightarrow> ('t, 'u, 'n) account \<Rightarrow> bool" where
  "account_is_null N a \<longleftrightarrow>
     ac_balance a = no_zero N \<and> ac_nonce a = no_zero N \<and> ac_code_hash a = BLAKE2B_EMPTY"

text \<open>\<open>is_empty\<close> panics when there are uncommitted changes.\<close>

definition account_is_empty ::
  "'n num_ops \<Rightarrow> (('t, 'u, 'n) account \<Rightarrow> bool) \<Rightarrow> ('t, 'u, 'n) account \<Rightarrow> bool option" where
  "account_is_empty N storage_is_clean a =
     (if storage_is_clean a then Some (account_is_null N a \<and> ac_storage_root a = BLAKE2B_NULL_RLP) else None)"

definition account_is_basic :: "('t, 'u, 'n) account \<Rightarrow> bool" where
  "account_is_basic a \<longleftrightarrow> ac_code_hash a = BLAKE2B_EMPTY"

definition account_storage_root ::
  "(('t, 'u, 'n) account \<Rightarrow> bool) \<Rightarrow> ('t, 'u, 'n) account \<Rightarrow> bytes option" where
  "account_storage_root storage_is_clean a = (if storage_is_clean a then Some (ac_storage_root a) else None)"

definition account_inc_nonce :: "'n num_ops \<Rightarrow> ('t, 'u, 'n) account \<Rightarrow> ('t, 'u, 'n) account option" where
  "account_inc_nonce N a = map_option (\<lambda>n. a\<lparr>ac_nonce := n\<rparr>) (no_add N (ac_nonce a) (no_one N))"

definition account_add_balance :: "'n num_ops \<Rightarrow> 'n \<Rightarrow> ('t, 'u, 'n) account \<Rightarrow> ('t, 'u, 'n) account option" where
  "account_add_balance N x a = map_option (\<lambda>n. a\<lparr>ac_balance := n\<rparr>) (no_add N (ac_balance a) x)"

definition account_sub_balance :: "'n num_ops \<Rightarrow> 'n \<Rightarrow> ('t, 'u, 'n) account \<Rightarrow> ('t, 'u, 'n) account option" where
  "account_sub_balance N x a =
     (if no_ge N (ac_balance a) x then map_option (\<lambda>n. a\<lparr>ac_balance := n\<rparr>) (no_sub N (ac_balance a) x) else None)"

definition account_commit_code ::
  "'db hash_store_ops \<Rightarrow> 'db \<Rightarrow> ('t, 'u, 'n) account \<Rightarrow> 'db \<times> ('t, 'u, 'n) account" where
  "account_commit_code D db a =
     (case (ac_code_filth a = Dirty, ac_code_cache a = []) of
        (True, True) \<Rightarrow> (db, a\<lparr>ac_code_size := Some 0, ac_code_filth := Clean\<rparr>)
      | (True, False) \<Rightarrow>
          (hs_emplace D db (ac_code_hash a) (ac_code_cache a),
           a\<lparr>ac_code_size := Some (length (ac_code_cache a)), ac_code_filth := Clean\<rparr>)
      | (False, _) \<Rightarrow> (db, a))"

definition account_rlp :: "'n uint_conv \<Rightarrow> ('t, 'u, 'n) account \<Rightarrow> bytes option" where
  "account_rlp U a =
     do { stream \<leftarrow> new_list 4;
          stream \<leftarrow> append_with (append_big 32 U (ac_nonce a)) stream;
          stream \<leftarrow> append_with (append_big 32 U (ac_balance a)) stream;
          stream \<leftarrow> append_with (rlp_append_hash (ac_storage_root a)) stream;
          stream \<leftarrow> append_with (rlp_append_hash (ac_code_hash a)) stream;
          out stream }"

definition account_clone_dirty ::
  "(('t, 'u, 'n) account \<Rightarrow> ('t, 'u, 'n) account) \<Rightarrow> ('t, 'u, 'n) account \<Rightarrow> ('t, 'u, 'n) account" where
  "account_clone_dirty clone_basic a =
     (clone_basic a)\<lparr>ac_storage_changes := ac_storage_changes a, ac_code_cache := ac_code_cache a\<rparr>"

section \<open>Tries of an account\<close>

text \<open>What \<open>TrieFactory\<close> returns as a \<open>Box<TrieMut>\<close>: a trie with the update methods of its kind.\<close>

fun factory_create :: "trie_spec \<Rightarrow> 'db \<Rightarrow> 'db trie_mut" where
  "factory_create SpecGeneric db = trie_mut_new db"
| "factory_create SpecSecure db = trie_mut_new db"
| "factory_create SpecFat db = trie_mut_new db"

fun factory_from_existing ::
  "trie_spec \<Rightarrow> 'db hash_store_ops \<Rightarrow> 'db \<Rightarrow> bytes \<Rightarrow> (trie_error, 'db trie_mut) outcome" where
  "factory_from_existing SpecGeneric D db root = trie_mut_from_existing D db root"
| "factory_from_existing SpecSecure D db root = trie_mut_from_existing D db root"
| "factory_from_existing SpecFat D db root = trie_mut_from_existing D db root"

fun spec_insert ::
  "(bytes \<Rightarrow> bytes) \<Rightarrow> trie_spec \<Rightarrow> 'db hash_store_ops \<Rightarrow> bytes \<Rightarrow> bytes \<Rightarrow> ('db trie_mut, bytes option) action" where
  "spec_insert blake SpecGeneric D key v = trie_mut_insert D key v"
| "spec_insert blake SpecSecure D key v = sec_mut_insert blake D key v"
| "spec_insert blake SpecFat D key v = fat_mut_insert blake D key v"

fun spec_remove ::
  "(bytes \<Rightarrow> bytes) \<Rightarrow> trie_spec \<Rightarrow> 'db hash_store_ops \<Rightarrow> bytes \<Rightarrow> ('db trie_mut, bytes option) action" where
  "spec_remove blake SpecGeneric D key = trie_mut_remove D key"
| "spec_remove blake SpecSecure D key = sec_mut_remove blake D key"
| "spec_remove blake SpecFat D key = fat_mut_remove blake D key"

text \<open>One round of a loop of \<open>commit_storage\<close>: a zero value is removed, any other is encoded and inserted.\<close>

definition is_zero_value :: "bytes \<Rightarrow> bool" where
  "is_zero_value v \<longleftrightarrow> list_all (\<lambda>item. item = 0) v"

definition write_entry ::
  "(bytes \<Rightarrow> bytes) \<Rightarrow> trie_spec \<Rightarrow> 'db hash_store_ops \<Rightarrow> (bytes \<Rightarrow> bytes option) \<Rightarrow> bytes \<Rightarrow> bytes \<Rightarrow>
     ('db trie_mut, bytes option) action" where
  "write_entry blake spec D encode k v t =
     (if is_zero_value v then spec_remove blake spec D k t
      else Option.bind (encode v) (\<lambda>e. spec_insert blake spec D k e t))"

text \<open>The loop, which an error ends; the rest of the drained map is dropped.\<close>

fun drain_changes ::
  "(bytes \<Rightarrow> bytes \<Rightarrow> ('db trie_mut, bytes option) action) \<Rightarrow> 'c lru_ops \<Rightarrow> (bytes \<times> bytes) list \<Rightarrow> 'c \<Rightarrow> 'db trie_mut \<Rightarrow>
     ((trie_error, unit) outcome \<times> 'c \<times> 'db trie_mut) option" where
  "drain_changes write L [] cache t = Some (Ok (), cache, t)"
| "drain_changes write L ((k, v) # changes) cache t =
     (case write k v t of
        Some (Ok _, t) \<Rightarrow> drain_changes write L changes (lo_insert L cache k v) t
      | Some (Err e, t) \<Rightarrow> Some (Err e, cache, t)
      | Some (Panic, _) \<Rightarrow> None
      | None \<Rightarrow> None)"

text \<open>Reading through \<open>SecTrieDB::get_with\<close> with \<open>rlp::decode\<close> as the query, which panics on bad data.\<close>

definition read_stored ::
  "(bytes \<Rightarrow> bytes) \<Rightarrow> (bytes \<Rightarrow> bytes option) \<Rightarrow> (bytes \<Rightarrow> bool) \<Rightarrow> bytes \<Rightarrow> bytes \<Rightarrow> (bytes \<Rightarrow> 'a option) \<Rightarrow> 'a \<Rightarrow>
     (trie_error, 'a) outcome option" where
  "read_stored blake get contains root key decode zero =
     (case trie_db_new get contains root of
        Err e \<Rightarrow> Some (Err e)
      | Panic \<Rightarrow> None
      | Ok db \<Rightarrow>
          (case sec_get_with blake db key (query_fn decode) () of
             Some (Ok (Some item), _) \<Rightarrow> map_option Ok item
           | Some (Ok None, _) \<Rightarrow> Some (Ok zero)
           | Some (Err e, _) \<Rightarrow> Some (Err e)
           | Some (Panic, _) \<Rightarrow> None
           | None \<Rightarrow> None))"

section \<open>AVM accounts\<close>

definition avm_empty_storage_cache :: "'c lru_ops \<Rightarrow> 'c" where
  "avm_empty_storage_cache L = lo_new L STORAGE_CACHE_ITEMS"

definition avm_empty_storage_change :: "bytes \<rightharpoonup> bytes" where
  "avm_empty_storage_change = Map.empty"

definition avm_from_basic :: "'c lru_ops \<Rightarrow> 'n basic_account \<Rightarrow> ('c, 'n) avm_account" where
  "avm_from_basic L basic =
     \<lparr>ac_balance = ba_balance basic, ac_nonce = ba_nonce basic, ac_storage_root = ba_storage_root basic,
      ac_storage_cache = avm_empty_storage_cache L, ac_storage_changes = avm_empty_storage_change,
      ac_code_hash = ba_code_hash basic, ac_code_size = None, ac_code_cache = [], ac_code_filth = Clean,
      ac_address_hash = None, ac_empty_but_commit = False\<rparr>"

definition avm_new_basic :: "'c lru_ops \<Rightarrow> 'n \<Rightarrow> 'n \<Rightarrow> ('c, 'n) avm_account" where
  "avm_new_basic L balance nonce =
     \<lparr>ac_balance = balance, ac_nonce = nonce, ac_storage_root = BLAKE2B_NULL_RLP,
      ac_storage_cache = avm_empty_storage_cache L, ac_storage_changes = Map.empty,
      ac_code_hash = BLAKE2B_EMPTY, ac_code_size = Some 0, ac_code_cache = [], ac_code_filth = Clean,
      ac_address_hash = None, ac_empty_but_commit = False\<rparr>"

definition avm_storage_is_clean :: "('c, 'n) avm_account \<Rightarrow> bool" where
  "avm_storage_is_clean a \<longleftrightarrow> ac_storage_changes a = Map.empty"

definition avm_clone_basic :: "'c lru_ops \<Rightarrow> ('c, 'n) avm_account \<Rightarrow> ('c, 'n) avm_account" where
  "avm_clone_basic L a =
     a\<lparr>ac_storage_cache := avm_empty_storage_cache L, ac_storage_changes := avm_empty_storage_change\<rparr>"

text \<open>The entries of a consumed cache go to the other one.\<close>

definition merge_cache :: "'c lru_ops \<Rightarrow> 'c \<Rightarrow> 'c \<Rightarrow> 'c" where
  "merge_cache L cache other = fold (\<lambda>(k, v) c. lo_insert L c k v) (lo_items L other) cache"

definition avm_overwrite_with :: "'c lru_ops \<Rightarrow> ('c, 'n) avm_account \<Rightarrow> ('c, 'n) avm_account \<Rightarrow> ('c, 'n) avm_account" where
  "avm_overwrite_with L a other =
     a\<lparr>ac_balance := ac_balance other, ac_nonce := ac_nonce other, ac_storage_root := ac_storage_root other,
       ac_code_hash := ac_code_hash other, ac_code_filth := ac_code_filth other, ac_code_cache := ac_code_cache other,
       ac_code_size := ac_code_size other, ac_address_hash := ac_address_hash other,
       ac_storage_cache := merge_cache L (ac_storage_cache a) (ac_storage_cache other),
       ac_storage_changes := ac_storage_changes other\<rparr>"

definition avm_set_storage :: "bytes \<Rightarrow> bytes \<Rightarrow> ('c, 'n) avm_account \<Rightarrow> ('c, 'n) avm_account" where
  "avm_set_storage key v a = a\<lparr>ac_storage_changes := (ac_storage_changes a)(key \<mapsto> v)\<rparr>"

definition cached_at :: "'c lru_ops \<Rightarrow> (bytes \<rightharpoonup> bytes) \<Rightarrow> 'c \<Rightarrow> bytes \<Rightarrow> bytes option \<times> 'c" where
  "cached_at L changes cache key =
     (case changes key of
        Some v \<Rightarrow> (Some v, cache)
      | None \<Rightarrow> lo_get_mut L cache key)"

definition avm_cached_storage_at ::
  "'c lru_ops \<Rightarrow> bytes \<Rightarrow> ('c, 'n) avm_account \<Rightarrow> bytes option \<times> ('c, 'n) avm_account" where
  "avm_cached_storage_at L key a =
     (case cached_at L (ac_storage_changes a) (ac_storage_cache a) key of
        (x, cache) \<Rightarrow> (x, a\<lparr>ac_storage_cache := cache\<rparr>))"

definition avm_storage_at ::
  "'c lru_ops \<Rightarrow> (bytes \<Rightarrow> bytes) \<Rightarrow> (bytes \<Rightarrow> bytes option) \<Rightarrow> (bytes \<Rightarrow> bool) \<Rightarrow> bytes \<Rightarrow> ('c, 'n) avm_account \<Rightarrow>
     ((trie_error, bytes) outcome \<times> ('c, 'n) avm_account) option" where
  "avm_storage_at L blake get contains key a =
     (case avm_cached_storage_at L key a of
        (Some v, a) \<Rightarrow> Some (Ok v, a)
      | (None, a) \<Rightarrow>
          map_option
            (\<lambda>r. (r, case r of Ok v \<Rightarrow> a\<lparr>ac_storage_cache := lo_insert L (ac_storage_cache a) key v\<rparr> | _ \<Rightarrow> a))
            (read_stored blake get contains (ac_storage_root a) key (rlp_decode decode_bytes) []))"

text \<open>\<open>order\<close> is the order in which the changes are drained, \<open>row\<close> that of the death row.\<close>

definition avm_commit_storage ::
  "'c lru_ops \<Rightarrow> (bytes \<Rightarrow> bytes) \<Rightarrow> trie_spec \<Rightarrow> 'db hash_store_ops \<Rightarrow> (bytes set \<Rightarrow> bytes list) \<Rightarrow> (bytes \<times> bytes) list \<Rightarrow>
     'db \<Rightarrow> ('c, 'n) avm_account \<Rightarrow> ((trie_error, unit) outcome \<times> 'db \<times> ('c, 'n) avm_account) option" where
  "avm_commit_storage L blake spec D row order db a =
     (case factory_from_existing spec D db (ac_storage_root a) of
        Err e \<Rightarrow> Some (Err e, db, a)
      | Panic \<Rightarrow> None
      | Ok t \<Rightarrow>
          Option.bind
            (drain_changes (write_entry blake spec D (\<lambda>v. encode_with (rlp_append_bytes v))) L order (ac_storage_cache a) t)
            (\<lambda>(r, cache, t). Option.bind (trie_mut_commit D (row (tm_death_row t)) t) (\<lambda>t.
               Some (r, tm_db t,
                 a\<lparr>ac_storage_root := tm_root t, ac_storage_cache := cache, ac_storage_changes := Map.empty\<rparr>))))"

section \<open>FVM accounts\<close>

datatype fvm_key = FKey bytes | FWideKey bytes

datatype fvm_value = FValue bytes | FLong bytes

definition fvm_empty_storage_cache :: "'c lru_ops \<Rightarrow> 'c \<times> 'c" where
  "fvm_empty_storage_cache L = (lo_new L STORAGE_CACHE_ITEMS, lo_new L STORAGE_CACHE_ITEMS)"

definition fvm_empty_storage_change :: "(bytes \<rightharpoonup> bytes) \<times> (bytes \<rightharpoonup> bytes)" where
  "fvm_empty_storage_change = (Map.empty, Map.empty)"

definition fvm_from_basic :: "'c lru_ops \<Rightarrow> 'n basic_account \<Rightarrow> ('c, 'n) fvm_account" where
  "fvm_from_basic L basic =
     \<lparr>ac_balance = ba_balance basic, ac_nonce = ba_nonce basic, ac_storage_root = ba_storage_root basic,
      ac_storage_cache = fvm_empty_storage_cache L, ac_storage_changes = (Map.empty, Map.empty),
      ac_code_hash = ba_code_hash basic, ac_code_size = None, ac_code_cache = [], ac_code_filth = Clean,
      ac_address_hash = None, ac_empty_but_commit = False\<rparr>"

definition fvm_new_contract :: "'c lru_ops \<Rightarrow> 'n \<Rightarrow> 'n \<Rightarrow> ('c, 'n) fvm_account" where
  "fvm_new_contract L balance nonce =
     \<lparr>ac_balance = balance, ac_nonce = nonce, ac_storage_root = BLAKE2B_NULL_RLP,
      ac_storage_cache = fvm_empty_storage_cache L, ac_storage_changes = fvm_empty_storage_change,
      ac_code_hash = BLAKE2B_EMPTY, ac_code_size = None, ac_code_cache = [], ac_code_filth = Clean,
      ac_address_hash = None, ac_empty_but_commit = False\<rparr>"

definition fvm_new_basic :: "'c lru_ops \<Rightarrow> 'n \<Rightarrow> 'n \<Rightarrow> ('c, 'n) fvm_account" where
  "fvm_new_basic L balance nonce =
     \<lparr>ac_balance = balance, ac_nonce = nonce, ac_storage_root = BLAKE2B_NULL_RLP,
      ac_storage_cache = fvm_empty_storage_cache L, ac_storage_changes = fvm_empty_storage_change,
      ac_code_hash = BLAKE2B_EMPTY, ac_code_size = Some 0, ac_code_cache = [], ac_code_filth = Clean,
      ac_address_hash = None, ac_empty_but_commit = False\<rparr>"

definition fvm_storage_is_clean :: "('c, 'n) fvm_account \<Rightarrow> bool" where
  "fvm_storage_is_clean a \<longleftrightarrow> fst (ac_storage_changes a) = Map.empty \<and> snd (ac_storage_changes a) = Map.empty"

definition fvm_discard_storage_changes :: "('c, 'n) fvm_account \<Rightarrow> ('c, 'n) fvm_account" where
  "fvm_discard_storage_changes a = a\<lparr>ac_storage_changes := (Map.empty, Map.empty)\<rparr>"

definition fvm_clone_basic :: "'c lru_ops \<Rightarrow> ('c, 'n) fvm_account \<Rightarrow> ('c, 'n) fvm_account" where
  "fvm_clone_basic L a =
     a\<lparr>ac_storage_cache := fvm_empty_storage_cache L, ac_storage_changes := fvm_empty_storage_change\<rparr>"

definition fvm_clone_all :: "'c lru_ops \<Rightarrow> ('c, 'n) fvm_account \<Rightarrow> ('c, 'n) fvm_account" where
  "fvm_clone_all L a = (account_clone_dirty (fvm_clone_basic L) a)\<lparr>ac_storage_cache := ac_storage_cache a\<rparr>"

definition fvm_overwrite_with :: "'c lru_ops \<Rightarrow> ('c, 'n) fvm_account \<Rightarrow> ('c, 'n) fvm_account \<Rightarrow> ('c, 'n) fvm_account" where
  "fvm_overwrite_with L a other =
     a\<lparr>ac_balance := ac_balance other, ac_nonce := ac_nonce other, ac_storage_root := ac_storage_root other,
       ac_code_hash := ac_code_hash other, ac_code_filth := ac_code_filth other, ac_code_cache := ac_code_cache other,
       ac_code_size := ac_code_size other, ac_address_hash := ac_address_hash other,
       ac_storage_cache :=
         (merge_cache L (fst (ac_storage_cache a)) (fst (ac_storage_cache other)),
          merge_cache L (snd (ac_storage_cache a)) (snd (ac_storage_cache other))),
       ac_storage_changes := ac_storage_changes other\<rparr>"

text \<open>A key and a value of different widths panic.\<close>

fun fvm_set_storage :: "fvm_key \<Rightarrow> fvm_value \<Rightarrow> ('c, 'n) fvm_account \<Rightarrow> ('c, 'n) fvm_account option" where
  "fvm_set_storage (FKey key) (FValue v) a =
     Some (a\<lparr>ac_storage_changes := ((fst (ac_storage_changes a))(key \<mapsto> v), snd (ac_storage_changes a))\<rparr>)"
| "fvm_set_storage (FKey key) (FLong v) a = None"
| "fvm_set_storage (FWideKey key) (FLong v) a =
     Some (a\<lparr>ac_storage_changes := (fst (ac_storage_changes a), (snd (ac_storage_changes a))(key \<mapsto> v))\<rparr>)"
| "fvm_set_storage (FWideKey key) (FValue v) a = None"

fun fvm_cached_storage_at ::
  "'c lru_ops \<Rightarrow> fvm_key \<Rightarrow> ('c, 'n) fvm_account \<Rightarrow> fvm_value option \<times> ('c, 'n) fvm_account" where
  "fvm_cached_storage_at L (FKey key) a =
     (case cached_at L (fst (ac_storage_changes a)) (fst (ac_storage_cache a)) key of
        (x, cache) \<Rightarrow> (map_option FValue x, a\<lparr>ac_storage_cache := (cache, snd (ac_storage_cache a))\<rparr>))"
| "fvm_cached_storage_at L (FWideKey key) a =
     (case cached_at L (snd (ac_storage_changes a)) (snd (ac_storage_cache a)) key of
        (x, cache) \<Rightarrow> (map_option FLong x, a\<lparr>ac_storage_cache := (fst (ac_storage_cache a), cache)\<rparr>))"

text \<open>\<open>U\<close> and \<open>V\<close> are the conversions of \<open>U256\<close> and \<open>U128\<close>, \<open>zu\<close> and \<open>zv\<close> their zeros.\<close>

definition fvm_storage_at ::
  "'c lru_ops \<Rightarrow> 'u uint_conv \<Rightarrow> 'u \<Rightarrow> 'v uint_conv \<Rightarrow> 'v \<Rightarrow> (bytes \<Rightarrow> bytes) \<Rightarrow> (bytes \<Rightarrow> bytes option) \<Rightarrow> (bytes \<Rightarrow> bool) \<Rightarrow>
     fvm_key \<Rightarrow> ('c, 'n) fvm_account \<Rightarrow> ((trie_error, fvm_value) outcome \<times> ('c, 'n) fvm_account) option" where
  "fvm_storage_at L U zu V zv blake get contains key a =
     (case fvm_cached_storage_at L key a of
        (Some v, a) \<Rightarrow> Some (Ok v, a)
      | (None, a) \<Rightarrow>
          (case key of
             FKey k \<Rightarrow>
               map_option
                 (\<lambda>r. (omap FValue r, case r of
                     Ok v \<Rightarrow> a\<lparr>ac_storage_cache := (lo_insert L (fst (ac_storage_cache a)) k v, snd (ac_storage_cache a))\<rparr>
                   | _ \<Rightarrow> a))
                 (map_option (omap (uc_to_be V))
                   (read_stored blake get contains (ac_storage_root a) k (rlp_decode (read_big 16 V)) zv))
           | FWideKey k \<Rightarrow>
               map_option
                 (\<lambda>r. (omap FLong r, case r of
                     Ok v \<Rightarrow> a\<lparr>ac_storage_cache := (fst (ac_storage_cache a), lo_insert L (snd (ac_storage_cache a)) k v)\<rparr>
                   | _ \<Rightarrow> a))
                 (map_option (omap (uc_to_be U))
                   (read_stored blake get contains (ac_storage_root a) k (rlp_decode (read_big 32 U)) zu))))"

text \<open>An error in the first loop leaves the wide changes as they are.\<close>

definition fvm_commit_storage ::
  "'c lru_ops \<Rightarrow> 'v uint_conv \<Rightarrow> (bytes \<Rightarrow> bytes) \<Rightarrow> trie_spec \<Rightarrow> 'db hash_store_ops \<Rightarrow> (bytes set \<Rightarrow> bytes list) \<Rightarrow>
     (bytes \<times> bytes) list \<Rightarrow> (bytes \<times> bytes) list \<Rightarrow> 'db \<Rightarrow> ('c, 'n) fvm_account \<Rightarrow>
     ((trie_error, unit) outcome \<times> 'db \<times> ('c, 'n) fvm_account) option" where
  "fvm_commit_storage L V blake spec D row order wide_order db a =
     (case factory_from_existing spec D db (ac_storage_root a) of
        Err e \<Rightarrow> Some (Err e, db, a)
      | Panic \<Rightarrow> None
      | Ok t \<Rightarrow>
          Option.bind
            (drain_changes (write_entry blake spec D (\<lambda>v. encode_with (append_big 16 V (uc_from V v)))) L order
               (fst (ac_storage_cache a)) t)
            (\<lambda>(r, cache, t). Option.bind
               (case r of
                  Ok _ \<Rightarrow>
                    map_option (\<lambda>(r, wide, t). (r, wide, Map.empty, t))
                      (drain_changes (write_entry blake spec D (\<lambda>v. encode_with (rlp_append_hash v))) L wide_order
                         (snd (ac_storage_cache a)) t)
                | _ \<Rightarrow> Some (r, snd (ac_storage_cache a), snd (ac_storage_changes a), t))
               (\<lambda>(r, wide, wide_changes, t). Option.bind (trie_mut_commit D (row (tm_death_row t)) t) (\<lambda>t.
                  Some (r, tm_db t,
                    a\<lparr>ac_storage_root := tm_root t, ac_storage_cache := (cache, wide),
                      ac_storage_changes := (Map.empty, wide_changes)\<rparr>)))))"

end
