(* ===== verification/Account_Persist.thy ===== *)
theory Account_Persist
  imports Accounts
begin

text \<open>
  What an account writes can be read again.  The loop of \<open>commit_storage\<close> is a sequence of updates of a
  trie (\<open>drain_run\<close>), the trie is committed to the account's own store (\<open>account_commit\<close>), whose reads
  find every node by its hash (\<open>account_inserted\<close>), so \<open>storage_at\<close> sees the map of the updates
  (\<open>read_account\<close>).  The theorems follow an account through a commit, its RLP and a reload.
\<close>

declare rlp_enc.simps [simp del] code_enc.simps [simp del]

section \<open>The loop\<close>

lemma mut_run_Cons:
  assumes "mut_run D (op # ops) s = Some (Ok olds, s')"
  obtains old s1 olds' where "mut_step D op s = Some (Ok old, s1)" and "mut_run D ops s1 = Some (Ok olds', s')"
  using assms by (auto simp: act_bind_def act_return_def split: outcome.splits bind_splits)

lemma mut_run_append:
  assumes "mut_run D (ops @ ops') s = Some (Ok olds, s')"
  obtains s1 o1 o2 where "mut_run D ops s = Some (Ok o1, s1)" and "mut_run D ops' s1 = Some (Ok o2, s')"
  using assms
proof (induction ops arbitrary: s olds thesis)
  case Nil
  then show ?case by (simp add: act_return_def)
next
  case (Cons op ops)
  obtain old s1 olds' where step: "mut_step D op s = Some (Ok old, s1)" "mut_run D (ops @ ops') s1 = Some (Ok olds', s')"
    using Cons.prems(2) mut_run_Cons by (metis append_Cons)
  obtain s2 o1 o2 where "mut_run D ops s1 = Some (Ok o1, s2)" "mut_run D ops' s2 = Some (Ok o2, s')"
    using Cons.IH step(2) by blast
  then show ?case using Cons.prems(1) [of "old # o1" s2 o2] step(1) by (simp add: act_bind_def act_return_def)
qed

definition entry_op :: "(bytes \<Rightarrow> bytes) \<Rightarrow> (bytes \<Rightarrow> bytes) \<Rightarrow> bytes \<times> bytes \<Rightarrow> map_op" where
  "entry_op blake enc = (\<lambda>(k, v). if is_zero_value v then Del (blake k) else Put (blake k) (enc v))"

lemma write_entry_step:
  assumes "\<not> is_zero_value v \<Longrightarrow> encode v = Some (enc v)"
  shows "write_entry blake SpecSecure D encode k v = mut_step D (entry_op blake enc (k, v))"
  using assms by (auto simp: write_entry_def entry_op_def sec_mut_insert_def sec_mut_remove_def fun_eq_iff)

lemma drain_run:
  assumes "\<forall>(k, v) \<in> set es. \<not> is_zero_value v \<longrightarrow> encode v = Some (enc v)"
    and "mut_run D (map (entry_op blake enc) es) t = Some (Ok olds, t')"
  shows "drain_changes (write_entry blake SpecSecure D encode) L es cache t =
    Some (Ok (), fold (\<lambda>(k, v) c. lo_insert L c k v) es cache, t')"
  using assms
proof (induction es arbitrary: cache t olds)
  case Nil
  then show ?case by (simp add: act_return_def)
next
  case (Cons e es)
  obtain k v where e: "e = (k, v)" by (cases e)
  obtain old t1 olds' where step: "mut_step D (entry_op blake enc e) t = Some (Ok old, t1)"
    "mut_run D (map (entry_op blake enc) es) t1 = Some (Ok olds', t')"
    by (rule mut_run_Cons [OF Cons.prems(2) [unfolded list.map]])
  have "write_entry blake SpecSecure D encode k v = mut_step D (entry_op blake enc (k, v))"
    using Cons.prems(1) e by (intro write_entry_step) simp
  then show ?case using Cons.IH [OF _ step(2)] Cons.prems(1) step(1) e by simp
qed

text \<open>The map after the updates, at the hash of a key that no other key shares.\<close>

lemma entries_map:
  assumes "distinct (map fst es)" and "\<forall>k \<in> fst ` set es. blake k = blake key \<longrightarrow> k = key" and "\<And>v. enc v \<noteq> []"
  shows "fold kv_step (map (entry_op blake enc) es) m (blake key) =
    (case map_of es key of
       Some v \<Rightarrow> if is_zero_value v then None else Some (enc v)
     | None \<Rightarrow> m (blake key))"
  using assms(1,2)
proof (induction es arbitrary: m)
  case (Cons e es)
  obtain k v where e: "e = (k, v)" by (cases e)
  have "map_of es k = None" using Cons.prems(1) e by (simp add: map_of_eq_None_iff)
  then show ?case
    using Cons.IH [of "kv_step (entry_op blake enc e) m"] Cons.prems e assms(3)
    by (auto simp: entry_op_def split: option.split)
qed simp

section \<open>The store\<close>

text \<open>What is written to the account's store: distinguishable by hash, of the widths of the code, and
  mixed with no key into the one that \<open>MemoryDB\<close> reserves.\<close>

definition account_fits :: "(bytes \<Rightarrow> bytes) \<Rightarrow> bytes \<Rightarrow> bytes list \<Rightarrow> bool" where
  "account_fits blake ah vals \<longleftrightarrow>
     inj_on blake (set vals) \<and> int (length vals) < 2 ^ 31 - 1 \<and>
     (\<forall>e \<in> set vals. length e < 2 ^ 32 \<and> e \<noteq> NULL_RLP \<and> usable_key ah (blake e) \<and> blake e \<noteq> BLAKE2B_NULL_RLP)"

definition account_nodes :: "(bytes \<Rightarrow> bytes) \<Rightarrow> ptrie \<Rightarrow> bytes list" where
  "account_nodes blake t = (if t = PEmpty then [] else pt_below blake t @ [pt_node blake t])"

lemma insert_all_Nil: "insert_all D [] m = m"
  by (simp add: insert_all_def)

lemma insert_all_append: "insert_all D (xs @ ys) m = insert_all D ys (insert_all D xs m)"
  by (simp add: insert_all_def)

lemma account_view_new: "length ah = 32 \<Longrightarrow> account_view ah mdb_new = mdb_new"
  by (simp add: account_view_def mdb_new_def fun_eq_iff)

lemma account_inserted:
  assumes ah: "length ah = 32" and fits: "account_fits blake ah vals" and e: "e \<in> set vals"
  defines "m \<equiv> insert_all (account_mem blake ah) vals mdb_new"
  shows "hs_get (account_mem blake ah) m (blake e) = Some e" and "hs_contains (account_mem blake ah) m (blake e)"
proof -
  have usable: "usable_key ah (blake e)" if "e \<in> set vals" for e using fits that by (simp add: account_fits_def)
  have "account_view ah m = insert_all (memory_ops blake) vals mdb_new"
    using arg_cong [OF account_run_view [OF ah, of "map Insert_Call vals" blake mdb_new], of snd] usable
    by (simp add: m_def account_view_new [OF ah] call_run_inserts own_run_inserts)
  then have "mdb_get (account_view ah m) (blake e) = Some e"
    using inserted_get [of blake vals e] fits e by (simp add: account_fits_def)
  moreover have "mdb_contains (account_view ah m) (blake e)"
    using calculation fits e by (auto simp: mdb_get_def mdb_contains_def account_fits_def split: option.splits if_splits)
  ultimately show "hs_get (account_mem blake ah) m (blake e) = Some e" and "hs_contains (account_mem blake ah) m (blake e)"
    using account_get_view [OF usable [OF e]] by simp_all
qed

lemma account_null [simp]:
  "hs_get (account_mem blake ah) m BLAKE2B_NULL_RLP = Some NULL_RLP"
  "hs_contains (account_mem blake ah) m BLAKE2B_NULL_RLP"
  by (simp_all add: account_db_mut_def account_db_get_def account_db_contains_def)

lemma account_hash_law: "blake NULL_RLP = BLAKE2B_NULL_RLP \<Longrightarrow> hash_law (account_mem blake ah) blake"
  by (simp add: hash_law_def account_db_mut_def Let_def)

lemma account_insert_null: "set vals \<subseteq> {NULL_RLP} \<Longrightarrow> insert_all (account_mem blake ah) vals m = m"
  by (induction vals) (simp_all add: insert_all_def account_db_mut_def)

lemma account_insert_value:
  "v \<noteq> NULL_RLP \<Longrightarrow> blake v \<noteq> BLAKE2B_NULL_RLP \<Longrightarrow>
     insert_all (account_mem blake ah) [v] m = hs_emplace (account_mem blake ah) m (blake v) v"
  by (simp add: insert_all_def account_db_mut_def Let_def)

text \<open>In an empty store the only keys with an entry are two that removals ignore.\<close>

lemma account_buried:
  assumes "set dead \<subseteq> dom (hs_get (account_mem blake ah) mdb_new)"
  shows "buried (account_mem blake ah) dead mdb_new = mdb_new"
  using assms
proof (induction dead)
  case (Cons k dead)
  have "k = BLAKE2B_NULL_RLP \<or> combine_key ah k = BLAKE2B_NULL_RLP"
    using Cons.prems dom_mdb_new by (auto simp: account_db_mut_def account_db_get_def memory_ops_def split: if_splits)
  then have "hs_remove (account_mem blake ah) mdb_new k = mdb_new"
    by (auto simp: account_db_mut_def memory_ops_def mdb_remove_def)
  then show ?case using Cons by (simp add: buried_def)
qed (simp add: buried_def)

section \<open>Commit and read\<close>

lemma account_commit:
  assumes null: "blake NULL_RLP = BLAKE2B_NULL_RLP" and row: "\<And>S. set (row S) \<subseteq> S"
    and t: "canon t" "pt_lookup t = of_keys (fold kv_step ops Map.empty)"
  obtains s s' where "mut_run (account_mem blake ah) ops (trie_mut_new mdb_new) = Some (Ok (kv_olds ops Map.empty), s)"
    and "trie_mut_commit (account_mem blake ah) (row (tm_death_row s)) s = Some s'"
    and "tm_root s' = blake (pt_node blake t)"
    and "tm_db s' = insert_all (account_mem blake ah) (account_nodes blake t) mdb_new"
proof -
  let ?D = "account_mem blake ah"
  obtain s where s: "mut_run ?D ops (trie_mut_new mdb_new) = Some (Ok (kv_olds ops Map.empty), s)"
    "tm_death_row s \<subseteq> dom (hs_get ?D mdb_new)"
    and commit: "\<And>dead. \<exists>s'. trie_mut_root ?D dead s = Some (blake (pt_node blake t), s') \<and> tm_death_row s' = {} \<and>
      (t \<noteq> PEmpty \<longrightarrow> tm_db s' = insert_all ?D (pt_below blake t @ [pt_node blake t]) (buried ?D dead mdb_new)) \<and>
      (t = PEmpty \<longrightarrow> (\<exists>vals. set vals \<subseteq> {NULL_RLP} \<and> tm_db s' = insert_all ?D vals (buried ?D dead mdb_new)))"
    by (rule commit_run_new [OF account_null(1) account_hash_law [of blake, OF null] null t]) blast
  have "buried ?D (row (tm_death_row s)) mdb_new = mdb_new"
    using row [of "tm_death_row s"] s(2) by (intro account_buried) blast
  moreover obtain s' where s': "trie_mut_root ?D (row (tm_death_row s)) s = Some (blake (pt_node blake t), s')"
    "t \<noteq> PEmpty \<longrightarrow> tm_db s' = insert_all ?D (pt_below blake t @ [pt_node blake t]) (buried ?D (row (tm_death_row s)) mdb_new)"
    "t = PEmpty \<longrightarrow> (\<exists>vals. set vals \<subseteq> {NULL_RLP} \<and> tm_db s' = insert_all ?D vals (buried ?D (row (tm_death_row s)) mdb_new))"
    using commit by blast
  ultimately have "tm_db s' = insert_all ?D (account_nodes blake t) mdb_new"
    using insert_all_Nil [of ?D mdb_new] by (auto simp: account_nodes_def account_insert_null)
  then show ?thesis using that s(1) s'(1) by (auto simp: trie_mut_root_def)
qed

lemma read_stored_rep:
  assumes "contains root" and "get root = Some d" and "node_rep get d t"
  shows "read_stored blake get contains root key decode zero =
    (case pt_lookup t (nibbles (blake key)) of Some e \<Rightarrow> map_option Ok (decode e) | None \<Rightarrow> Some (Ok zero))"
proof -
  have "look_up (query_fn decode) get root (ns_new (blake key)) () =
      Some (Ok (map_option decode (pt_lookup t (nibbles (blake key)))), ())"
    using look_up_rep [OF map_le_refl assms(2,3) plain_key_new, of decode "blake key"] assms(2)
    by (auto simp: answers_def)
  then show ?thesis
    using assms(1) by (simp add: read_stored_def trie_db_new_def sec_get_with_def trie_get_with_def split: option.split)
qed

lemma read_account:
  assumes ah: "length ah = 32" and null: "blake NULL_RLP = BLAKE2B_NULL_RLP" and t: "canon t"
    and fits: "account_fits blake ah (account_nodes blake t @ written)"
  defines "m \<equiv> insert_all (account_mem blake ah) (account_nodes blake t @ written) mdb_new"
  shows "read_stored blake (account_db_get ah (mdb_get m)) (account_db_contains ah (mdb_contains m))
      (blake (pt_node blake t)) key decode zero =
    (case pt_lookup t (nibbles (blake key)) of Some e \<Rightarrow> map_option Ok (decode e) | None \<Rightarrow> Some (Ok zero))"
proof -
  let ?D = "account_mem blake ah"
  have view: "account_db_get ah (mdb_get m) = hs_get ?D m" "account_db_contains ah (mdb_contains m) = hs_contains ?D m"
    by (simp_all add: account_db_mut_def memory_ops_def)
  show ?thesis
  proof (cases "t = PEmpty")
    case True
    have "node_rep (hs_get ?D m) NULL_RLP PEmpty"
      by (auto simp: NULL_RLP_def intro: rep_Empty node_decoded_Empty)
    then show ?thesis
      unfolding view using True null by (intro read_stored_rep [of _ _ _ NULL_RLP]) (simp_all add: NULL_RLP_def)
  next
    case False
    then have nodes: "set (pt_below blake t @ [pt_node blake t]) \<subseteq> set (account_nodes blake t @ written)"
      by (auto simp: account_nodes_def)
    have get: "hs_get ?D m (blake e) = Some e \<and> hs_contains ?D m (blake e) \<and> length e < 2 ^ 32 \<and> length (blake e) = 32"
      if "e \<in> set (pt_below blake t @ [pt_node blake t])" for e
    proof -
      have mem: "e \<in> set (account_nodes blake t @ written)" using that nodes by blast
      show ?thesis using account_inserted [OF ah fits mem] fits mem by (simp add: m_def account_fits_def usable_key_def)
    qed
    have "has_below (hs_get ?D m) blake t" unfolding has_below_def using get by simp
    then have "node_rep (hs_get ?D m) (pt_node blake t) t" using pt_node_rep [OF t] get by simp
    then show ?thesis unfolding view using get by (intro read_stored_rep) simp_all
  qed
qed

section \<open>RLP of an account\<close>

lemma account_rlp_enc:
  assumes "uint_law 32 U val" and "length (ac_storage_root a) = 32" and "length (ac_code_hash a) = 32"
  defines "b \<equiv> \<lparr>ba_nonce = ac_nonce a, ba_balance = ac_balance a, ba_storage_root = ac_storage_root a,
     ba_code_hash = ac_code_hash a\<rparr>"
  shows "account_rlp U a = Some (rlp_enc (basic_item val b))" and "rlp_decode (decode_basic U) (rlp_enc (basic_item val b)) = Some b"
proof -
  note big = big_codec [OF assms(1)]
  let ?ts = "[RData (min_be (val (ac_nonce a))), RData (min_be (val (ac_balance a))), RData (ac_storage_root a), RData (ac_code_hash a)]"
  let ?fs = "[append_with (append_big 32 U (ac_nonce a)), append_with (append_big 32 U (ac_balance a)),
    append_with (rlp_append_hash (ac_storage_root a)), append_with (rlp_append_hash (ac_code_hash a))]"
  have item: "basic_item val b = RList ?ts" by (simp add: basic_item_def b_def)
  have "byte_len (val x) \<le> 32" for x using assms(1) by (simp add: uint_law_def byte_len_le_iff)
  then have min: "length (min_be (val x)) \<le> 256" for x using order_trans [of "byte_len (val x)" 32 256] by simp
  have d: "length (rlp_enc (RData (min_be (val (ac_nonce a))))) \<le> 300" "length (rlp_enc (RData (min_be (val (ac_balance a))))) \<le> 300"
    "length (rlp_enc (RData (ac_storage_root a))) \<le> 300" "length (rlp_enc (RData (ac_code_hash a))) \<le> 300"
    using min assms(2,3) by (auto intro!: rlp_enc_short)
  have payload: "length (concat (map rlp_enc ?ts)) \<le> 1200" using d by simp
  then have small: "length (rlp_enc (basic_item val b)) < 2 ^ 32"
    unfolding item by (intro rlp_enc_list_small) simp
  have "list_all2 pushes ?fs (map code_enc ?ts)"
    by (simp add: pushes_closing_pushes closing_append rlp_codec.appends [OF big] rlp_codec.appends [OF hash_codec] assms(2,3))
  from new_list_run_each [OF this] have "account_rlp U a = Some (code_enc (RList ?ts))"
    by (simp add: account_rlp_def run_each_Cons run_each_Nil code_enc.simps Let_def numeral_eq_Suc)
  then show "account_rlp U a = Some (rlp_enc (basic_item val b))" using code_enc_eq [OF small] item by simp
  have "basic_ok b" using assms(2,3) by (simp add: basic_ok_def b_def)
  then show "rlp_decode (decode_basic U) (rlp_enc (basic_item val b)) = Some b"
    using rlp_codec.decodes [OF basic_codec [OF assms(1)]] small by (simp add: rlp_decode_def trusted_as_val_def)
qed

section \<open>The steps of an AVM account\<close>

lemma bytes_encoded:
  assumes "length (rlp_enc (RData v)) < 2 ^ 32"
  shows "encode_with (rlp_append_bytes v) = Some (rlp_enc (RData v))" and "rlp_decode decode_bytes (rlp_enc (RData v)) = Some v"
  using bytes_codec.encode_value_of [OF TrueI assms] bytes_codec.decodes [of v] assms
  by (simp_all add: rlp_decode_def trusted_as_val_def)

lemma rlp_enc_not_Nil: "rlp_enc (RData v) \<noteq> []"
  by (auto simp: rlp_enc.simps rlp_header_def Let_def)

definition code_values :: "bytes \<Rightarrow> bytes list" where
  "code_values code = (if code = [] then [] else [code])"

lemma avm_commit_new:
  fixes a :: "('c, 'n) avm_account"
  assumes "blake NULL_RLP = BLAKE2B_NULL_RLP" and "\<And>S. set (row S) \<subseteq> S" and "ac_storage_root a = BLAKE2B_NULL_RLP"
    and small: "\<forall>(k, v) \<in> set order. length (rlp_enc (RData v)) < 2 ^ 32"
    and t: "canon t"
      "pt_lookup t = of_keys (fold kv_step (map (entry_op blake (\<lambda>v. rlp_enc (RData v))) order) Map.empty)"
  shows "avm_commit_storage L blake default_spec (account_mem blake ah) row order mdb_new a =
    Some (Ok (), insert_all (account_mem blake ah) (account_nodes blake t) mdb_new,
      a\<lparr>ac_storage_root := blake (pt_node blake t),
        ac_storage_cache := fold (\<lambda>(k, v) c. lo_insert L c k v) order (ac_storage_cache a),
        ac_storage_changes := Map.empty\<rparr>)"
proof -
  let ?D = "account_mem blake ah" and ?enc = "\<lambda>v. rlp_enc (RData v)"
  let ?ops = "map (entry_op blake ?enc) order"
  obtain s s' where s: "mut_run ?D ?ops (trie_mut_new mdb_new) = Some (Ok (kv_olds ?ops Map.empty), s)"
    "trie_mut_commit ?D (row (tm_death_row s)) s = Some s'" "tm_root s' = blake (pt_node blake t)"
    "tm_db s' = insert_all ?D (account_nodes blake t) mdb_new"
    by (rule account_commit [where blake = blake and row = row and ah = ah, OF assms(1,2) t])
  have "\<forall>(k, v) \<in> set order. \<not> is_zero_value v \<longrightarrow> encode_with (rlp_append_bytes v) = Some (?enc v)"
    using small bytes_encoded(1) by auto
  from drain_run [OF this s(1), of L "ac_storage_cache a"] show ?thesis
    using s(2-4) assms(3)
    by (simp add: avm_commit_storage_def default_spec_def trie_mut_from_existing_def trie_mut_new_def)
qed

lemma code_written:
  assumes "account_fits blake ah (vals @ code_values code)"
  shows "account_commit_code (account_mem blake ah) (insert_all (account_mem blake ah) vals mdb_new) (account_init_code blake code a) =
    (insert_all (account_mem blake ah) (vals @ code_values code) mdb_new,
     a\<lparr>ac_code_hash := blake code, ac_code_cache := code, ac_code_size := Some (length code), ac_code_filth := Clean\<rparr>)"
  using assms account_insert_value [of code blake ah]
  by (simp add: account_commit_code_def account_init_code_def code_values_def account_fits_def insert_all_append insert_all_Nil)

lemma code_found:
  assumes "length ah = 32" and "account_fits blake ah (vals @ code_values code)"
    and "blake [] = BLAKE2B_EMPTY" and "code \<noteq> [] \<Longrightarrow> blake code \<noteq> BLAKE2B_EMPTY"
    and "ac_code_cache a = []" and "ac_code_hash a = blake code"
  defines "m \<equiv> insert_all (account_mem blake ah) (vals @ code_values code) mdb_new"
  shows "fst (account_cache_code (account_db_get ah (mdb_get m)) a) = Some code"
proof -
  have "account_db_get ah (mdb_get m) = hs_get (account_mem blake ah) m" by (simp add: account_db_mut_def memory_ops_def)
  then show ?thesis
    using account_inserted(1) [OF assms(1,2), of code] assms(3-6)
    by (cases "code = []") (simp_all add: m_def account_cache_code_def account_is_cached_def code_values_def)
qed

lemma root_length:
  assumes "account_fits blake ah (account_nodes blake t @ written)" and "blake NULL_RLP = BLAKE2B_NULL_RLP"
  shows "length (blake (pt_node blake t)) = 32"
  using assms by (cases "t = PEmpty")
    (simp_all add: NULL_RLP_def BLAKE2B_NULL_RLP_def account_fits_def account_nodes_def usable_key_def)

lemma code_hash_length:
  assumes "account_fits blake ah (vals @ code_values code)" and "blake [] = BLAKE2B_EMPTY"
  shows "length (blake code) = 32"
  using assms by (cases "code = []") (simp_all add: BLAKE2B_EMPTY_def account_fits_def code_values_def usable_key_def)

lemma lru_fresh:
  assumes "lru_law L view"
  obtains c where "lo_get_mut L (lo_new L n) key = (None, c)"
proof -
  have "fst (lo_get_mut L (lo_new L n) key) = None" using assms by (simp add: lru_law_def)
  then show ?thesis using that by (metis prod.collapse)
qed

lemma avm_read_reloaded:
  assumes "length ah = 32" and "blake NULL_RLP = BLAKE2B_NULL_RLP" and "lru_law L view"
    and t: "canon t" "pt_lookup t = of_keys (fold kv_step (map (entry_op blake (\<lambda>v. rlp_enc (RData v))) order) Map.empty)"
    and fits: "account_fits blake ah (account_nodes blake t @ written)"
    and order: "distinct (map fst order)" "\<forall>(k, v) \<in> set order. length (rlp_enc (RData v)) < 2 ^ 32"
    and key: "\<forall>k \<in> dom (map_of order). blake k = blake key \<longrightarrow> k = key"
    and root: "ba_storage_root b = blake (pt_node blake t)"
  defines "m \<equiv> insert_all (account_mem blake ah) (account_nodes blake t @ written) mdb_new"
  shows "\<exists>a'. avm_storage_at L blake (account_db_get ah (mdb_get m)) (account_db_contains ah (mdb_contains m)) key
      (avm_from_basic L b) =
    Some (Ok (case map_of order key of Some v \<Rightarrow> if is_zero_value v then [] else v | None \<Rightarrow> []), a')"
proof -
  let ?enc = "\<lambda>v. rlp_enc (RData v)"
  obtain c where fresh: "lo_get_mut L (lo_new L STORAGE_CACHE_ITEMS) key = (None, c)" by (rule lru_fresh [OF assms(3)])
  have "pt_lookup t (nibbles (blake key)) = (case map_of order key of
      Some v \<Rightarrow> if is_zero_value v then None else Some (?enc v) | None \<Rightarrow> None)"
    using entries_map [OF order(1), of blake key ?enc Map.empty] key t(2) rlp_enc_not_Nil by (simp add: dom_map_of_conv_image_fst)
  moreover have "rlp_decode decode_bytes (?enc v) = Some v" if "map_of order key = Some v" for v
    using order(2) map_of_SomeD [OF that] by (intro bytes_encoded(2)) auto
  ultimately show ?thesis
    using read_account [OF assms(1,2) t(1) fits, of key "rlp_decode decode_bytes" "[]"] fresh root
    by (auto simp: m_def avm_storage_at_def avm_cached_storage_at_def cached_at_def avm_from_basic_def
        avm_empty_storage_cache_def avm_empty_storage_change_def split: prod.split option.splits)
qed

section \<open>Properties\<close>

text \<open>C14. An AVM account survives a commit and a reload. An account without stored data and with any
  changes \<open>order\<close> (in the order in which the map is drained) commits its storage and then new code to
  its store inside an empty \<open>MemoryDB\<close>; from its RLP a new account is read. Nothing fails or panics,
  no change is left, and the new account has the balance and the nonce, finds the code, and
  \<open>storage_at\<close> returns the last value of every key, except that values of zeros only read as the
  empty one. Assumed of the hash function: 32 bytes (\<open>usable_key\<close>), no collision on what is
  written (\<open>account_fits\<close>) or between the key read and a changed one, and its two known hashes;
  the values stay below 4 GiB.\<close>

theorem avm_account_persists:
  fixes a :: "('c, 'n) avm_account"
  assumes hash: "blake NULL_RLP = BLAKE2B_NULL_RLP" "blake [] = BLAKE2B_EMPTY" "code \<noteq> [] \<Longrightarrow> blake code \<noteq> BLAKE2B_EMPTY"
    and env: "length ah = 32" "uint_law 32 U val" "lru_law L view" "\<And>S. set (row S) \<subseteq> S"
    and a: "ac_storage_root a = BLAKE2B_NULL_RLP" "ac_storage_changes a = map_of order" "distinct (map fst order)"
    and small: "\<forall>(k, v) \<in> set order. length (rlp_enc (RData v)) < 2 ^ 32"
    and t: "canon t"
      "pt_lookup t = of_keys (fold kv_step (map (entry_op blake (\<lambda>v. rlp_enc (RData v))) order) Map.empty)"
    and fits: "account_fits blake ah (account_nodes blake t @ code_values code)"
  shows "\<exists>db a1 db' a2 bs a3.
    avm_commit_storage L blake default_spec (account_mem blake ah) row order mdb_new a = Some (Ok (), db, a1) \<and>
    account_commit_code (account_mem blake ah) db (account_init_code blake code a1) = (db', a2) \<and>
    avm_storage_is_clean a2 \<and> account_rlp U a2 = Some bs \<and>
    account_from_rlp U (avm_from_basic L) bs = Some a3 \<and>
    ac_balance a3 = ac_balance a \<and> ac_nonce a3 = ac_nonce a \<and>
    fst (account_cache_code (account_db_get ah (mdb_get db')) a3) = Some code \<and>
    (\<forall>key. (\<forall>k \<in> dom (ac_storage_changes a). blake k = blake key \<longrightarrow> k = key) \<longrightarrow>
       (\<exists>a4. avm_storage_at L blake (account_db_get ah (mdb_get db')) (account_db_contains ah (mdb_contains db')) key a3 =
          Some (Ok (case ac_storage_changes a key of Some v \<Rightarrow> if is_zero_value v then [] else v | None \<Rightarrow> []), a4)))"
proof -
  let ?D = "account_mem blake ah"
  let ?db' = "insert_all ?D (account_nodes blake t @ code_values code) mdb_new"
  define a1 where "a1 = a\<lparr>ac_storage_root := blake (pt_node blake t),
      ac_storage_cache := fold (\<lambda>(k, v) c. lo_insert L c k v) order (ac_storage_cache a), ac_storage_changes := Map.empty\<rparr>"
  define a2 where "a2 = a1\<lparr>ac_code_hash := blake code, ac_code_cache := code, ac_code_size := Some (length code),
      ac_code_filth := Clean\<rparr>"
  note commit = avm_commit_new [where blake = blake and row = row and a = a, OF hash(1) env(4) a(1) small t, of L ah, folded a1_def]
  note code = code_written [OF fits, of a1, folded a2_def]
  define b where "b = \<lparr>ba_nonce = ac_nonce a, ba_balance = ac_balance a, ba_storage_root = blake (pt_node blake t),
    ba_code_hash = blake code\<rparr>"
  obtain bs where bs: "account_rlp U a2 = Some bs" "rlp_decode (decode_basic U) bs = Some b"
    using account_rlp_enc [OF env(2), of a2] root_length [OF fits hash(1)] code_hash_length [OF fits hash(2)]
    by (simp add: a1_def a2_def b_def)
  have cached: "fst (account_cache_code (account_db_get ah (mdb_get ?db')) (avm_from_basic L b)) = Some code"
    by (rule code_found [OF env(1) fits hash(2,3)]) (simp_all add: avm_from_basic_def b_def)
  note reads = avm_read_reloaded [OF env(1) hash(1) env(3) t fits a(3) small, where b = b]
  show ?thesis
  proof (intro exI conjI)
    show "account_from_rlp U (avm_from_basic L) bs = Some (avm_from_basic L b)"
      using bs(2) by (simp add: account_from_rlp_def)
    show "\<forall>key. (\<forall>k \<in> dom (ac_storage_changes a). blake k = blake key \<longrightarrow> k = key) \<longrightarrow>
       (\<exists>a4. avm_storage_at L blake (account_db_get ah (mdb_get ?db')) (account_db_contains ah (mdb_contains ?db')) key
            (avm_from_basic L b) =
          Some (Ok (case ac_storage_changes a key of Some v \<Rightarrow> if is_zero_value v then [] else v | None \<Rightarrow> []), a4))"
      unfolding a(2) using reads by (simp add: b_def)
  qed (rule commit code bs(1) cached | simp add: avm_storage_is_clean_def a1_def a2_def avm_from_basic_def b_def; fail)+
qed

text \<open>C16. The storage cache is transparent. While every cached entry of an AVM account is what the stored
  trie answers for its key, \<open>storage_at\<close> returns the uncommitted change of a key if there is one and
  the stored answer otherwise, errors and panics included; and it leaves the root, the changes and
  that agreement as they were, whatever the cache evicts.\<close>

theorem avm_cache_transparent:
  assumes "lru_law L view"
    and "\<forall>k v. view (ac_storage_cache a) k = Some v \<longrightarrow>
      read_stored blake get contains (ac_storage_root a) k (rlp_decode decode_bytes) [] = Some (Ok v)"
  shows "map_option fst (avm_storage_at L blake get contains key a) =
      (case ac_storage_changes a key of
         Some v \<Rightarrow> Some (Ok v)
       | None \<Rightarrow> read_stored blake get contains (ac_storage_root a) key (rlp_decode decode_bytes) []) \<and>
    (\<forall>r a'. avm_storage_at L blake get contains key a = Some (r, a') \<longrightarrow>
       ac_storage_root a' = ac_storage_root a \<and> ac_storage_changes a' = ac_storage_changes a \<and>
       (\<forall>k v. view (ac_storage_cache a') k = Some v \<longrightarrow>
          read_stored blake get contains (ac_storage_root a) k (rlp_decode decode_bytes) [] = Some (Ok v)))"
proof -
  let ?stored = "\<lambda>k. read_stored blake get contains (ac_storage_root a) k (rlp_decode decode_bytes) []"
  obtain x cache where get: "lo_get_mut L (ac_storage_cache a) key = (x, cache)" by fastforce
  have "fst (lo_get_mut L (ac_storage_cache a) key) = view (ac_storage_cache a) key \<and>
      view (snd (lo_get_mut L (ac_storage_cache a) key)) = view (ac_storage_cache a)"
    using assms(1) by (simp add: lru_law_def)
  then have look: "x = view (ac_storage_cache a) key" "view cache = view (ac_storage_cache a)" using get by simp_all
  have filled: "view (lo_insert L cache key v) k = Some w \<Longrightarrow> ?stored k = Some (Ok w)" if "?stored key = Some (Ok v)" for v k w
  proof -
    assume "view (lo_insert L cache key v) k = Some w"
    moreover have "view (lo_insert L cache key v) \<subseteq>\<^sub>m (view cache)(key \<mapsto> v)" using assms(1) by (simp add: lru_law_def)
    ultimately have "((view cache)(key \<mapsto> v)) k = Some w" by (metis domI map_le_def)
    then show ?thesis using that assms(2) look(2) by (auto split: if_splits)
  qed
  note defs = avm_storage_at_def avm_cached_storage_at_def cached_at_def
  show ?thesis
  proof (cases "ac_storage_changes a key")
    case (Some v)
    then show ?thesis by (simp add: defs) (use assms(2) in blast)
  next
    case None
    show ?thesis
    proof (cases x)
      case (Some v)
      then have "?stored key = Some (Ok v)" using look(1) assms(2) by metis
      then show ?thesis using Some None get look(2) by (simp add: defs) (use assms(2) in blast)
    next
      case miss: None
      show ?thesis
      proof (cases "?stored key")
        case (Some r)
        then show ?thesis
          using None miss get look(2) by (cases r; simp add: defs) (use assms(2) filled Some in blast)+
      qed (use None miss get in \<open>simp add: defs\<close>)
    qed
  qed
qed

text \<open>A hash function for samples: the known hashes, and the first byte repeated.\<close>

definition first_hash :: "bytes \<Rightarrow> bytes" where
  "first_hash v = (if v = NULL_RLP then BLAKE2B_NULL_RLP else if v = [] then BLAKE2B_EMPTY else replicate 32 (hd v))"

definition list_cache :: "(bytes \<times> bytes) list lru_ops" where
  "list_cache = \<lparr>lo_new = (\<lambda>n. []), lo_insert = (\<lambda>c k v. (k, v) # c), lo_get_mut = (\<lambda>c k. (map_of c k, c)), lo_items = (\<lambda>c. c)\<rparr>"

lemma list_cache_law: "lru_law list_cache map_of"
  by (simp add: lru_law_def list_cache_def)

lemma first_hash_null: "first_hash NULL_RLP = BLAKE2B_NULL_RLP" "first_hash [] = BLAKE2B_EMPTY"
  by (simp_all add: first_hash_def NULL_RLP_def)

lemma first_hash_usable:
  assumes "v \<noteq> NULL_RLP" and "v \<noteq> []" and "hd v \<noteq> 0x45"
  shows "usable_key (replicate 32 1) (first_hash v)" and "first_hash v \<noteq> BLAKE2B_NULL_RLP"
proof -
  have "hd BLAKE2B_NULL_RLP = 0x45" by (simp add: BLAKE2B_NULL_RLP_def)
  moreover have "hd (combine_key (replicate 32 1) (replicate 32 (hd v))) = hd v" by (simp add: combine_key_def)
  moreover have "hd (replicate 32 (hd v)) = hd v" by simp
  ultimately have "combine_key (replicate 32 1) (replicate 32 (hd v)) \<noteq> BLAKE2B_NULL_RLP"
    "replicate 32 (hd v) \<noteq> BLAKE2B_NULL_RLP" using assms(3) by metis+
  then show "usable_key (replicate 32 1) (first_hash v)" "first_hash v \<noteq> BLAKE2B_NULL_RLP"
    using assms by (simp_all add: usable_key_def first_hash_def)
qed

lemma sample_leaf:
  defines "t \<equiv> \<lambda>v. PLeaf (nibbles (first_hash [1])) v"
  assumes node: "pt_node first_hash (t v) = h # rest" "0xc0 \<le> h" "length rest < 100" and v: "v \<noteq> []"
    and code: "code \<in> {[], [5]}"
  shows "account_fits first_hash (replicate 32 1) (account_nodes first_hash (t v) @ code_values code)"
    and "canon (t v)" and "pt_lookup (t v) = of_keys [first_hash [1] \<mapsto> v]"
proof -
  have h: "h \<noteq> 0x80" "h \<noteq> 0x45" "h \<noteq> 5" using node(2) by auto
  then have ne: "h # rest \<noteq> NULL_RLP" by (auto simp: NULL_RLP_def)
  have hds: "hd (first_hash (h # rest)) = h" "hd (first_hash [5]) = 5"
    using ne by (simp_all only: first_hash_def) (simp_all add: NULL_RLP_def)
  then have "first_hash (h # rest) \<noteq> first_hash [5]" using h(3) by metis
  moreover have "account_nodes first_hash (t v) = [h # rest]" using node(1) by (simp add: account_nodes_def t_def)
  ultimately show "account_fits first_hash (replicate 32 1) (account_nodes first_hash (t v) @ code_values code)"
    using first_hash_usable [OF ne] first_hash_usable [of "[5]"] h(2) node(3) ne code
    by (auto simp: account_fits_def code_values_def NULL_RLP_def)
  show "canon (t v)" using nibbles_less [of _ "first_hash [1]"] v by (auto simp: t_def)
  show "pt_lookup (t v) = of_keys [first_hash [1] \<mapsto> v]" unfolding t_def by (rule single_leaf_keys)
qed

lemma sample_account_fits:
  defines "t \<equiv> PLeaf (nibbles (first_hash [1])) (rlp_enc (RData [7]))"
  shows "account_fits first_hash (replicate 32 1) (account_nodes first_hash t @ code_values [5])"
    and "canon t"
    and "pt_lookup t = of_keys (fold kv_step (map (entry_op first_hash (\<lambda>v. rlp_enc (RData v))) [([1], [7])]) Map.empty)"
proof -
  have key: "first_hash [1] = replicate 32 1" by (simp add: first_hash_def NULL_RLP_def)
  have val: "rlp_enc (RData [7]) = [7]" by (simp add: rlp_enc.simps rlp_header_def)
  let ?rest = "concat [code_enc (RData (hex_prefix (nibbles (replicate 32 1)) True)), code_enc (RData [7])]"
  have len: "length ?rest = 35"
    by (simp add: hex_prefix_def code_enc.simps code_header_def)
  have node: "pt_node first_hash t = 0xe3 # ?rest"
    using len unfolding t_def key val by (simp add: enc_parts_def code_header_def)
  note sample = sample_leaf [of "rlp_enc (RData [7])" "0xe3" ?rest "[5]", folded t_def, OF node]
  show "account_fits first_hash (replicate 32 1) (account_nodes first_hash t @ code_values [5])" "canon t"
    "pt_lookup t = of_keys (fold kv_step (map (entry_op first_hash (\<lambda>v. rlp_enc (RData v))) [([1], [7])]) Map.empty)"
    using sample len by (simp_all add: val entry_op_def is_zero_value_def)
qed

theorem avm_cache_transparent_witness:
  "map_option fst (avm_storage_at list_cache first_hash (account_db_get [] Map.empty) (account_db_contains [] (\<lambda>k. False)) [1]
     ((avm_new_basic list_cache (4 :: 256 word) 3)\<lparr>ac_storage_cache := [([2], [])]\<rparr>)) = Some (Ok []) \<and>
   map_option fst (avm_storage_at list_cache first_hash (account_db_get [] Map.empty) (account_db_contains [] (\<lambda>k. False)) [2]
     ((avm_new_basic list_cache (4 :: 256 word) 3)\<lparr>ac_storage_cache := [([2], [])]\<rparr>)) = Some (Ok [])"
proof -
  let ?a = "(avm_new_basic list_cache (4 :: 256 word) 3)\<lparr>ac_storage_cache := [([2], [])]\<rparr>"
  have "node_rep (account_db_get [] Map.empty) NULL_RLP PEmpty" by (auto simp: NULL_RLP_def intro: rep_Empty node_decoded_Empty)
  then have stored: "read_stored first_hash (account_db_get [] Map.empty) (account_db_contains [] (\<lambda>k. False)) BLAKE2B_NULL_RLP k
      (rlp_decode decode_bytes) [] = Some (Ok [])" for k
    using read_stored_rep [of "account_db_contains [] (\<lambda>k. False)" BLAKE2B_NULL_RLP "account_db_get [] Map.empty" NULL_RLP PEmpty
        first_hash k "rlp_decode decode_bytes" "[]"]
    by (simp add: account_db_get_def account_db_contains_def)
  have consistent: "\<forall>k v. map_of (ac_storage_cache ?a) k = Some v \<longrightarrow>
      read_stored first_hash (account_db_get [] Map.empty) (account_db_contains [] (\<lambda>k. False)) (ac_storage_root ?a) k
        (rlp_decode decode_bytes) [] = Some (Ok v)"
    by (simp add: stored avm_new_basic_def)
  show ?thesis
    using avm_cache_transparent [OF list_cache_law consistent, of "[1]"]
      avm_cache_transparent [OF list_cache_law consistent, of "[2]"]
    by (simp add: stored avm_new_basic_def avm_empty_storage_change_def)
qed

theorem avm_account_persists_witness:
  "\<exists>db a1 db' a2 bs a3 a4.
    avm_commit_storage list_cache first_hash default_spec (account_mem first_hash (replicate 32 1)) (\<lambda>S. []) [([1], [7])] mdb_new
      (avm_set_storage [1] [7] (avm_new_basic list_cache (4 :: 256 word) 3)) = Some (Ok (), db, a1) \<and>
    account_commit_code (account_mem first_hash (replicate 32 1)) db (account_init_code first_hash [5] a1) = (db', a2) \<and>
    account_rlp word256 a2 = Some bs \<and> account_from_rlp word256 (avm_from_basic list_cache) bs = Some a3 \<and>
    ac_balance a3 = 4 \<and>
    avm_storage_at list_cache first_hash (account_db_get (replicate 32 1) (mdb_get db'))
      (account_db_contains (replicate 32 1) (mdb_contains db')) [1] a3 = Some (Ok [7], a4)"
proof -
  let ?a = "avm_set_storage [1] [7] (avm_new_basic list_cache (4 :: 256 word) 3)" and ?ah = "replicate 32 (1 :: byte)"
  have code: "first_hash [5] \<noteq> BLAKE2B_EMPTY"
  proof
    assume "first_hash [5] = BLAKE2B_EMPTY"
    then have "hd (first_hash [5]) = hd BLAKE2B_EMPTY" by simp
    then show False by (simp add: first_hash_def BLAKE2B_EMPTY_def NULL_RLP_def)
  qed
  have root: "ac_storage_root ?a = BLAKE2B_NULL_RLP" and changes: "ac_storage_changes ?a = map_of [([1], [7])]"
    and bal: "ac_balance ?a = 4"
    by (simp_all add: avm_set_storage_def avm_new_basic_def fun_eq_iff)
  have small: "\<forall>(k, v) \<in> set [([1 :: byte], [7 :: byte])]. length (rlp_enc (RData v)) < 2 ^ 32"
    by (simp add: rlp_enc.simps rlp_header_def)
  have other: "length ?ah = 32" "distinct (map fst [([1 :: byte], [7 :: byte])])" by simp_all
  have row: "set ([] :: bytes list) \<subseteq> S" for S by simp
  note persists = avm_account_persists [where blake = first_hash and code = "[5]" and ah = ?ah and a = ?a and order = "[([1], [7])]"
        and row = "\<lambda>S. []", OF first_hash_null code other(1) word256_law list_cache_law row root changes other(2) small
        sample_account_fits(2,3,1)]
  obtain db a1 db' a2 bs a3 where run:
    "avm_commit_storage list_cache first_hash default_spec (account_mem first_hash ?ah) (\<lambda>S. []) [([1], [7])] mdb_new ?a = Some (Ok (), db, a1)"
    "account_commit_code (account_mem first_hash ?ah) db (account_init_code first_hash [5] a1) = (db', a2)"
    "account_rlp word256 a2 = Some bs" "account_from_rlp word256 (avm_from_basic list_cache) bs = Some a3" "ac_balance a3 = ac_balance ?a"
    and reads: "\<forall>key. (\<forall>k \<in> dom (ac_storage_changes ?a). first_hash k = first_hash key \<longrightarrow> k = key) \<longrightarrow>
       (\<exists>a4. avm_storage_at list_cache first_hash (account_db_get ?ah (mdb_get db')) (account_db_contains ?ah (mdb_contains db')) key a3 =
          Some (Ok (case ac_storage_changes ?a key of Some v \<Rightarrow> if is_zero_value v then [] else v | None \<Rightarrow> []), a4))"
    using persists by (elim exE conjE) (rule that; assumption)
  from reads [rule_format, of "[1]"] obtain a4 where
    "avm_storage_at list_cache first_hash (account_db_get ?ah (mdb_get db')) (account_db_contains ?ah (mdb_contains db')) [1] a3 =
      Some (Ok [7], a4)"
    unfolding changes by (auto simp: is_zero_value_def)
  then show ?thesis using run bal by (intro exI [of _ db] exI [of _ a1] exI [of _ db'] exI [of _ a2] exI [of _ bs] exI [of _ a3] exI [of _ a4]) simp
qed

end
