(* ===== verification/Account_Fvm.thy ===== *)
theory Account_Fvm
  imports Account_Persist
begin

text \<open>
  FVM storage through a commit and a reload.  Values of 16 bytes are stored as the integer \<open>U128\<close> and
  read back.  Values of 32 bytes are stored as the hash \<open>H256\<close>, with their leading zeros, but read as
  the integer \<open>U256\<close>, whose decoder refuses a leading zero: such a read panics.
\<close>

declare rlp_enc.simps [simp del] code_enc.simps [simp del]

definition enc_value :: "bytes \<Rightarrow> bytes" where
  "enc_value v = rlp_enc (RData (min_be (be_nat v)))"

definition enc_long :: "bytes \<Rightarrow> bytes" where
  "enc_long v = rlp_enc (RData v)"

lemma zero_value: "is_zero_value v \<Longrightarrow> be_nat v = 0"
  by (induction v) (auto simp: is_zero_value_def be_nat_Cons)

lemma min_be_short:
  assumes "length v \<le> 32"
  shows "length (min_be (be_nat v)) \<le> 256"
proof -
  have "byte_len (be_nat v) \<le> 32" using be_nat_less_power [OF assms] by (simp add: byte_len_le_iff)
  then show ?thesis using order_trans [of "byte_len (be_nat v)" 32 256] by simp
qed

lemma value_encoded:
  assumes "uint_law 16 V val" and "\<forall>bs. length bs \<le> 16 \<longrightarrow> val (uc_from V bs) = be_nat bs" and v: "length v = 16"
  shows "encode_with (append_big 16 V (uc_from V v)) = Some (enc_value v)"
    and "map_option (uc_to_be V) (rlp_decode (read_big 16 V) (enc_value v)) = Some v"
proof -
  have val: "val (uc_from V v) = be_nat v" using assms(2) v by simp
  have "length (rlp_enc (RData (min_be (be_nat v)))) < 2 ^ 32"
    using rlp_enc_short [OF min_be_short [of v]] v by simp
  note codec = rlp_codec.encode_value_of [OF big_codec [OF assms(1)], of "uc_from V v"]
    rlp_codec.decodes [OF big_codec [OF assms(1)], of "uc_from V v"]
  then show "encode_with (append_big 16 V (uc_from V v)) = Some (enc_value v)"
    using \<open>length (rlp_enc (RData (min_be (be_nat v)))) < 2 ^ 32\<close> val by (simp add: enc_value_def)
  have "uc_to_be V (uc_from V v) = v"
    using assms(1) val be_bytes_be_nat [of v] v by (simp add: uint_law_def)
  then show "map_option (uc_to_be V) (rlp_decode (read_big 16 V) (enc_value v)) = Some v"
    using codec(2) \<open>length (rlp_enc (RData (min_be (be_nat v)))) < 2 ^ 32\<close> val
    by (simp add: enc_value_def rlp_decode_def trusted_as_val_def)
qed

lemma long_encoded:
  assumes "length v = 32"
  shows "encode_with (rlp_append_hash v) = Some (enc_long v)"
    and "rlp_decode (read_big 32 U) (enc_long v) = (if v ! 0 = 0 then None else Some (uc_from U v))"
proof -
  have small: "length (rlp_enc (RData v)) < 2 ^ 32" using rlp_enc_short [of v] assms by simp
  show "encode_with (rlp_append_hash v) = Some (enc_long v)"
    using h256_codec.encode_value_of [OF assms small] by (simp add: enc_long_def)
  have "read_big 32 U (untrusted_new (rlp_enc (RData v))) =
      (if v ! 0 = 0 then Err RlpInvalidIndirection else Ok (uc_from U v))"
    using small assms by (auto simp: decode_big_def decode_value_enc)
  then show "rlp_decode (read_big 32 U) (enc_long v) = (if v ! 0 = 0 then None else Some (uc_from U v))"
    by (simp add: enc_long_def rlp_decode_def trusted_as_val_def)
qed

text \<open>The updates of the two loops.\<close>

abbreviation fvm_ops :: "(bytes \<Rightarrow> bytes) \<Rightarrow> (bytes \<times> bytes) list \<Rightarrow> (bytes \<times> bytes) list \<Rightarrow> map_op list" where
  "fvm_ops blake order wide \<equiv> map (entry_op blake enc_value) order @ map (entry_op blake enc_long) wide"

lemma fvm_ops_map:
  assumes "distinct (map fst (order @ wide))" and "\<forall>k \<in> fst ` set (order @ wide). blake k = blake key \<longrightarrow> k = key"
  shows "map_of order key = Some v \<Longrightarrow> fold kv_step (fvm_ops blake order wide) Map.empty (blake key) =
      (if is_zero_value v then None else Some (enc_value v))"
    and "map_of wide key = Some v \<Longrightarrow> fold kv_step (fvm_ops blake order wide) Map.empty (blake key) =
      (if is_zero_value v then None else Some (enc_long v))"
proof -
  have ne: "enc_value v \<noteq> []" "enc_long v \<noteq> []" for v by (simp_all add: enc_value_def enc_long_def rlp_enc_not_Nil)
  note wide = entries_map [where es = wide and enc = enc_long and blake = blake and key = key, OF _ _ ne(2)]
  note order = entries_map [where es = order and enc = enc_value and blake = blake and key = key, OF _ _ ne(1)]
  show "map_of wide key = Some v \<Longrightarrow> fold kv_step (fvm_ops blake order wide) Map.empty (blake key) =
      (if is_zero_value v then None else Some (enc_long v))"
    using wide assms by simp
  assume v: "map_of order key = Some v"
  then have "key \<in> fst ` set order" by (force dest: map_of_SomeD)
  then have "map_of wide key = None" using assms(1) by (auto simp: map_of_eq_None_iff)
  then show "fold kv_step (fvm_ops blake order wide) Map.empty (blake key) = (if is_zero_value v then None else Some (enc_value v))"
    using wide order v assms by simp
qed

section \<open>Commit and read\<close>

lemma fvm_commit_new:
  fixes a :: "('c, 'n) fvm_account"
  assumes "blake NULL_RLP = BLAKE2B_NULL_RLP" and "\<And>S. set (row S) \<subseteq> S" and "ac_storage_root a = BLAKE2B_NULL_RLP"
    and V: "uint_law 16 V val" "\<forall>bs. length bs \<le> 16 \<longrightarrow> val (uc_from V bs) = be_nat bs"
    and widths: "\<forall>(k, v) \<in> set order. length v = 16" "\<forall>(k, v) \<in> set wide. length v = 32"
    and t: "canon t" "pt_lookup t = of_keys (fold kv_step (fvm_ops blake order wide) Map.empty)"
  shows "\<exists>caches. fvm_commit_storage L V blake default_spec (account_mem blake ah) row order wide mdb_new a =
    Some (Ok (), insert_all (account_mem blake ah) (account_nodes blake t) mdb_new,
      a\<lparr>ac_storage_root := blake (pt_node blake t), ac_storage_cache := caches, ac_storage_changes := (Map.empty, Map.empty)\<rparr>)"
proof -
  let ?D = "account_mem blake ah"
  obtain s s' where s: "mut_run ?D (fvm_ops blake order wide) (trie_mut_new mdb_new) = Some (Ok (kv_olds (fvm_ops blake order wide) Map.empty), s)"
    "trie_mut_commit ?D (row (tm_death_row s)) s = Some s'" "tm_root s' = blake (pt_node blake t)"
    "tm_db s' = insert_all ?D (account_nodes blake t) mdb_new"
    by (rule account_commit [where blake = blake and row = row and ah = ah, OF assms(1,2) t])
  obtain s1 o1 o2 where runs: "mut_run ?D (map (entry_op blake enc_value) order) (trie_mut_new mdb_new) = Some (Ok o1, s1)"
    "mut_run ?D (map (entry_op blake enc_long) wide) s1 = Some (Ok o2, s)"
    by (rule mut_run_append [OF s(1)])
  have "\<forall>(k, v) \<in> set order. \<not> is_zero_value v \<longrightarrow> encode_with (append_big 16 V (uc_from V v)) = Some (enc_value v)"
    using widths(1) value_encoded(1) [OF V] by auto
  note drained = drain_run [OF this runs(1), of L "fst (ac_storage_cache a)"]
  have "\<forall>(k, v) \<in> set wide. \<not> is_zero_value v \<longrightarrow> encode_with (rlp_append_hash v) = Some (enc_long v)"
    using widths(2) long_encoded(1) by auto
  from drained drain_run [OF this runs(2), of L "snd (ac_storage_cache a)"] show ?thesis
    using s(2-4) assms(3)
    by (intro exI [of _ "(fold (\<lambda>(k, v) c. lo_insert L c k v) order (fst (ac_storage_cache a)),
        fold (\<lambda>(k, v) c. lo_insert L c k v) wide (snd (ac_storage_cache a)))"])
      (simp add: fvm_commit_storage_def default_spec_def trie_mut_from_existing_def trie_mut_new_def)
qed

lemma fvm_read_value:
  assumes "lru_law L view" and b: "ba_storage_root b = root"
    and stored: "\<And>dec. read_stored blake get contains root key dec zv =
      (case fold kv_step (fvm_ops blake order wide) Map.empty (blake key) of
         Some e \<Rightarrow> map_option Ok (dec e) | None \<Rightarrow> Some (Ok zv))"
    and V: "uint_law 16 V val" "\<forall>bs. length bs \<le> 16 \<longrightarrow> val (uc_from V bs) = be_nat bs" "val zv = 0"
    and keys: "distinct (map fst (order @ wide))" "\<forall>k \<in> fst ` set (order @ wide). blake k = blake key \<longrightarrow> k = key"
    and widths: "\<forall>(k, v) \<in> set order. length v = 16" and v: "map_of order key = Some v"
  shows "map_option fst (fvm_storage_at L U zu V zv blake get contains (FKey key) (fvm_from_basic L b)) = Some (Ok (FValue v))"
proof -
  obtain c where fresh: "lo_get_mut L (lo_new L STORAGE_CACHE_ITEMS) key = (None, c)" by (rule lru_fresh [OF assms(1)])
  have len: "length v = 16" using widths map_of_SomeD [OF v] by auto
  have zero: "is_zero_value v \<Longrightarrow> uc_to_be V zv = v"
    using V(1,3) zero_value [of v] be_bytes_be_nat [of v] len by (simp add: uint_law_def)
  show ?thesis
    using stored [of "rlp_decode (read_big 16 V)"] fvm_ops_map(1) [OF keys v] value_encoded(2) [OF V(1,2) len] fresh b zero
    by (auto simp: fvm_storage_at_def cached_at_def fvm_from_basic_def fvm_empty_storage_cache_def option.map_comp comp_def)
qed

lemma fvm_read_long:
  assumes "lru_law L view" and b: "ba_storage_root b = root"
    and stored: "\<And>dec. read_stored blake get contains root key dec zu =
      (case fold kv_step (fvm_ops blake order wide) Map.empty (blake key) of
         Some e \<Rightarrow> map_option Ok (dec e) | None \<Rightarrow> Some (Ok zu))"
    and U: "uint_law 32 U val" "\<forall>bs. length bs \<le> 32 \<longrightarrow> val (uc_from U bs) = be_nat bs" "val zu = 0"
    and keys: "distinct (map fst (order @ wide))" "\<forall>k \<in> fst ` set (order @ wide). blake k = blake key \<longrightarrow> k = key"
    and widths: "\<forall>(k, v) \<in> set wide. length v = 32" and v: "map_of wide key = Some v"
  shows "map_option fst (fvm_storage_at L U zu V zv blake get contains (FWideKey key) (fvm_from_basic L b)) =
    (if is_zero_value v \<or> v ! 0 \<noteq> 0 then Some (Ok (FLong v)) else None)"
proof -
  obtain c where fresh: "lo_get_mut L (lo_new L STORAGE_CACHE_ITEMS) key = (None, c)" by (rule lru_fresh [OF assms(1)])
  have len: "length v = 32" using widths map_of_SomeD [OF v] by auto
  have zero: "is_zero_value v \<Longrightarrow> uc_to_be U zu = v"
    using U(1,3) zero_value [of v] be_bytes_be_nat [of v] len by (simp add: uint_law_def)
  have same: "uc_to_be U (uc_from U v) = v"
    using U(1) U(2) [rule_format, of v] be_bytes_be_nat [of v] len by (simp add: uint_law_def)
  show ?thesis
    using stored [of "rlp_decode (read_big 32 U)"] fvm_ops_map(2) [OF keys v] long_encoded(2) [OF len, of U] fresh b zero same
    by (auto simp: fvm_storage_at_def cached_at_def fvm_from_basic_def fvm_empty_storage_cache_def option.map_comp comp_def)
qed

section \<open>Properties\<close>

text \<open>C15. FVM storage after a commit and a reload. A commit of any changes of an account without stored
  data succeeds, and an account reloaded at the new root reads every changed key of 16-byte values
  as it was set, and every changed key of 32-byte values as it was set if the value is zero or its
  first byte is not; otherwise the read panics. Assumed is as for AVM accounts that hashes do not
  collide, here also between the two kinds of keys, which share one trie.\<close>

theorem fvm_storage_reads:
  fixes a :: "('c, 'n) fvm_account"
  assumes hash: "blake NULL_RLP = BLAKE2B_NULL_RLP"
    and env: "length ah = 32" "lru_law L view" "\<And>S. set (row S) \<subseteq> S"
    and V: "uint_law 16 V val" "\<forall>bs. length bs \<le> 16 \<longrightarrow> val (uc_from V bs) = be_nat bs" "val zv = 0"
    and U: "uint_law 32 U valu" "\<forall>bs. length bs \<le> 32 \<longrightarrow> valu (uc_from U bs) = be_nat bs" "valu zu = 0"
    and a: "ac_storage_root a = BLAKE2B_NULL_RLP" "ac_storage_changes a = (map_of order, map_of wide)"
      "distinct (map fst (order @ wide))"
    and widths: "\<forall>(k, v) \<in> set order. length v = 16" "\<forall>(k, v) \<in> set wide. length v = 32"
    and t: "canon t" "pt_lookup t = of_keys (fold kv_step (fvm_ops blake order wide) Map.empty)"
    and fits: "account_fits blake ah (account_nodes blake t)"
  shows "\<exists>db a1. fvm_commit_storage L V blake default_spec (account_mem blake ah) row order wide mdb_new a = Some (Ok (), db, a1) \<and>
    fvm_storage_is_clean a1 \<and>
    (\<forall>(b :: 'n basic_account) key. ba_storage_root b = ac_storage_root a1 \<longrightarrow>
       (\<forall>k \<in> fst ` set (order @ wide). blake k = blake key \<longrightarrow> k = key) \<longrightarrow>
       (let read = (\<lambda>key. map_option fst (fvm_storage_at L U zu V zv blake (account_db_get ah (mdb_get db))
              (account_db_contains ah (mdb_contains db)) key (fvm_from_basic L b))) in
        (\<forall>v. map_of order key = Some v \<longrightarrow> read (FKey key) = Some (Ok (FValue v))) \<and>
        (\<forall>v. map_of wide key = Some v \<longrightarrow>
           read (FWideKey key) = (if is_zero_value v \<or> v ! 0 \<noteq> 0 then Some (Ok (FLong v)) else None))))"
proof -
  obtain caches where commit: "fvm_commit_storage L V blake default_spec (account_mem blake ah) row order wide mdb_new a =
    Some (Ok (), insert_all (account_mem blake ah) (account_nodes blake t) mdb_new,
      a\<lparr>ac_storage_root := blake (pt_node blake t), ac_storage_cache := caches, ac_storage_changes := (Map.empty, Map.empty)\<rparr>)"
    using fvm_commit_new [where blake = blake and row = row and a = a and V = V, OF hash env(3) a(1) V(1,2) widths t] by blast
  let ?m = "insert_all (account_mem blake ah) (account_nodes blake t) mdb_new"
  let ?get = "account_db_get ah (mdb_get ?m)" and ?contains = "account_db_contains ah (mdb_contains ?m)"
  have stored: "read_stored blake ?get ?contains (blake (pt_node blake t)) key dec zero =
      (case fold kv_step (fvm_ops blake order wide) Map.empty (blake key) of
         Some e \<Rightarrow> map_option Ok (dec e) | None \<Rightarrow> Some (Ok zero))" for key dec and zero :: 'z
    using read_account [where blake = blake and t = t and written = "[]", OF env(1) hash t(1), of key dec zero] fits t(2) by simp
  show ?thesis
  proof (intro exI conjI allI impI)
    fix b :: "'n basic_account" and key
    assume "ba_storage_root b = ac_storage_root (a\<lparr>ac_storage_root := blake (pt_node blake t), ac_storage_cache := caches,
        ac_storage_changes := (Map.empty, Map.empty)\<rparr>)"
      and key: "\<forall>k \<in> fst ` set (order @ wide). blake k = blake key \<longrightarrow> k = key"
    then have b: "ba_storage_root b = blake (pt_node blake t)" by simp
    show "let read = (\<lambda>key. map_option fst (fvm_storage_at L U zu V zv blake ?get ?contains key (fvm_from_basic L b))) in
        (\<forall>v. map_of order key = Some v \<longrightarrow> read (FKey key) = Some (Ok (FValue v))) \<and>
        (\<forall>v. map_of wide key = Some v \<longrightarrow>
           read (FWideKey key) = (if is_zero_value v \<or> v ! 0 \<noteq> 0 then Some (Ok (FLong v)) else None))"
      unfolding Let_def
      by (intro conjI allI impI, rule fvm_read_value [OF env(2) b stored V a(3) key widths(1)], assumption,
        rule fvm_read_long [OF env(2) b stored U a(3) key widths(2)])
  qed (rule commit, simp add: fvm_storage_is_clean_def)
qed

definition word128 :: "128 word uint_conv" where
  "word128 = \<lparr>uc_bits = (\<lambda>u. bit_len (unat u)), uc_to_be = (\<lambda>u. be_bytes 16 (unat u)), uc_from = (\<lambda>bs. of_nat (be_nat bs))\<rparr>"

lemma word128_law: "uint_law 16 word128 unat" "\<forall>bs. length bs \<le> 16 \<longrightarrow> unat (uc_from word128 bs) = be_nat bs"
proof -
  have "unat u < 256 ^ 16" for u :: "128 word"
    using unsigned_less [of u] by simp
  then show "uint_law 16 word128 unat" by (simp add: uint_law_def word128_def)
  have "be_nat bs < 2 ^ LENGTH(128)" if "length bs \<le> 16" for bs
    using be_nat_less_power [OF that] by simp
  then show "\<forall>bs. length bs \<le> 16 \<longrightarrow> unat (uc_from word128 bs) = be_nat bs"
    by (simp add: word128_def unsigned_of_nat take_bit_nat_eq_self_iff)
qed

lemma word256_from: "\<forall>bs. length bs \<le> 32 \<longrightarrow> unat (uc_from word256 bs) = be_nat bs"
proof -
  have "be_nat bs < 2 ^ LENGTH(256)" if "length bs \<le> 32" for bs
    using be_nat_less_power [OF that] by simp
  then show ?thesis by (simp add: word256_def unsigned_of_nat take_bit_nat_eq_self_iff)
qed

abbreviation sample_long :: bytes where
  "sample_long \<equiv> 0 # replicate 31 7"

lemma sample_long_fits:
  defines "t \<equiv> PLeaf (nibbles (first_hash [1])) (enc_long sample_long)"
  shows "account_fits first_hash (replicate 32 1) (account_nodes first_hash t)" and "canon t"
    and "pt_lookup t = of_keys (fold kv_step (fvm_ops first_hash [] [([1], sample_long)]) Map.empty)"
proof -
  have key: "first_hash [1] = replicate 32 1" by (simp add: first_hash_def NULL_RLP_def)
  have val: "enc_long sample_long = 0xa0 # sample_long" by (simp add: enc_long_def rlp_enc.simps rlp_header_def)
  let ?es = "[code_enc (RData (hex_prefix (nibbles (replicate 32 1)) True)), code_enc (RData (0xa0 # sample_long))]"
  have len: "length (concat ?es) = 68"
    by (simp add: hex_prefix_def code_enc.simps code_header_def)
  moreover have "byte_len 68 = 1" by (simp add: byte_len_def bit_len_pos)
  ultimately have node: "pt_node first_hash t = 0xf8 # 68 # concat ?es"
    unfolding t_def key val by (simp add: enc_parts_def code_header_def)
  have not_zero: "\<not> is_zero_value sample_long" by (simp add: is_zero_value_def list_all_iff)
  note sample = sample_leaf [of "enc_long sample_long" "0xf8" "68 # concat ?es" "[]", folded t_def, OF node]
  show "account_fits first_hash (replicate 32 1) (account_nodes first_hash t)" "canon t"
    "pt_lookup t = of_keys (fold kv_step (fvm_ops first_hash [] [([1], sample_long)]) Map.empty)"
    using sample len not_zero by (simp_all add: val entry_op_def code_values_def)
qed

theorem fvm_storage_reads_witness:
  "\<exists>a db a1. fvm_set_storage (FWideKey [1]) (FLong sample_long) (fvm_new_contract list_cache (0 :: 256 word) 0) = Some a \<and>
    fvm_commit_storage list_cache word128 first_hash default_spec (account_mem first_hash (replicate 32 1)) (\<lambda>S. []) []
      [([1], sample_long)] mdb_new a = Some (Ok (), db, a1) \<and>
    fvm_storage_at list_cache word256 0 word128 0 first_hash (account_db_get (replicate 32 1) (mdb_get db))
      (account_db_contains (replicate 32 1) (mdb_contains db)) (FWideKey [1])
      (fvm_from_basic list_cache \<lparr>ba_nonce = 0 :: 256 word, ba_balance = 0, ba_storage_root = ac_storage_root a1,
        ba_code_hash = BLAKE2B_EMPTY\<rparr>) = None"
proof -
  let ?ah = "replicate 32 (1 :: byte)" and ?wide = "[([1 :: byte], sample_long)]"
  obtain a :: "((bytes \<times> bytes) list, 256 word) fvm_account" where
    set: "fvm_set_storage (FWideKey [1]) (FLong sample_long) (fvm_new_contract list_cache 0 0) = Some a" by simp
  then have root: "ac_storage_root a = BLAKE2B_NULL_RLP" and changes: "ac_storage_changes a = (map_of [], map_of ?wide)"
    by (auto simp: fvm_new_contract_def fvm_empty_storage_change_def fun_eq_iff)
  have plain: "length ?ah = 32" "distinct (map fst ([] @ ?wide))" "unat (0 :: 128 word) = 0" "unat (0 :: 256 word) = 0"
    "\<forall>(k, v) \<in> set []. length (v :: bytes) = 16" "\<forall>(k, v) \<in> set ?wide. length v = 32" by simp_all
  have row: "set ([] :: bytes list) \<subseteq> S" for S by simp
  obtain db a1 where commit: "fvm_commit_storage list_cache word128 first_hash default_spec (account_mem first_hash ?ah) (\<lambda>S. []) []
      ?wide mdb_new a = Some (Ok (), db, a1)"
    and reads: "\<forall>(b :: 256 word basic_account) key. ba_storage_root b = ac_storage_root a1 \<longrightarrow>
       (\<forall>k \<in> fst ` set ([] @ ?wide). first_hash k = first_hash key \<longrightarrow> k = key) \<longrightarrow>
       (let read = (\<lambda>key. map_option fst (fvm_storage_at list_cache word256 0 word128 0 first_hash (account_db_get ?ah (mdb_get db))
              (account_db_contains ?ah (mdb_contains db)) key (fvm_from_basic list_cache b))) in
        (\<forall>v. map_of [] key = Some v \<longrightarrow> read (FKey key) = Some (Ok (FValue v))) \<and>
        (\<forall>v. map_of ?wide key = Some v \<longrightarrow>
           read (FWideKey key) = (if is_zero_value v \<or> v ! 0 \<noteq> 0 then Some (Ok (FLong v)) else None)))"
    using fvm_storage_reads [where blake = first_hash and ah = ?ah and row = "\<lambda>S. []" and a = a, OF first_hash_null(1) plain(1) list_cache_law
        row word128_law plain(3) word256_law word256_from plain(4) root changes plain(2,5,6) sample_long_fits(2,3,1)]
    by (elim exE conjE) (rule that; assumption)
  have "\<not> is_zero_value sample_long" by (simp add: is_zero_value_def list_all_iff)
  then show ?thesis
    using set commit reads [rule_format, of "\<lparr>ba_nonce = 0, ba_balance = 0, ba_storage_root = ac_storage_root a1, ba_code_hash = BLAKE2B_EMPTY\<rparr>" "[1]"]
    by (intro exI [of _ a] exI [of _ db] exI [of _ a1]) (simp add: Let_def)
qed

end
