(* ===== verification/Bloom.thy ===== *)
theory Bloom
  imports Blake2b
begin

text \<open>
  Bloom filters and their users: \<open>ethbloom/src/lib.rs\<close>, the log bloom of
  \<open>common_types/src/log_entry.rs\<close> and the filter of \<open>common_types/src/filter.rs\<close>.

  A \<open>Bloom\<close> is a list of 256 bytes.  Its abstract value is the set \<open>bloom_bits\<close> of the
  positions of its one bits: \<open>accrue\<close> adds three positions, \<open>accrue_bloom\<close> is union,
  \<open>contains_bloom\<close> is inclusion.  On top of that: no false negatives, and the soundness of the
  search by blooms that \<open>Filter\<close> does.
\<close>

unbundle bit_operations_syntax

section \<open>\<open>Bloom\<close>\<close>

definition BLOOM_BITS :: nat where "BLOOM_BITS = 3"
definition BLOOM_SIZE :: nat where "BLOOM_SIZE = 256"

text \<open>The code's \<open>log2\<close> is the number of bits: one more than the logarithm.\<close>

definition log2 :: "nat \<Rightarrow> nat" where
  "log2 x = (if x \<le> 1 then 0 else 64 - leading_zeros 64 x)"

datatype bloom_input = Raw bytes | Hash bytes

fun input_hash :: "bloom_input \<Rightarrow> bytes" where
  "input_hash (Raw raw) = blake2b_key raw"
| "input_hash (Hash hash) = hash"

definition bloom_default :: bytes where
  "bloom_default = replicate BLOOM_SIZE 0"

definition bloom_is_empty :: "bytes \<Rightarrow> bool" where
  "bloom_is_empty b \<longleftrightarrow> list_all (\<lambda>x. x = 0) b"

text \<open>The inner loop of \<open>accrue\<close>: \<open>bloom_bytes\<close> bytes of the hash from \<open>ptr\<close> on.\<close>

fun hash_index :: "bytes \<Rightarrow> nat \<Rightarrow> nat \<Rightarrow> nat \<Rightarrow> nat" where
  "hash_index hash ptr 0 index = index"
| "hash_index hash ptr (Suc k) index =
     hash_index hash (ptr + 1) k (push_bit 8 index OR unat (hash ! ptr))"

definition set_bloom_bit :: "bytes \<Rightarrow> nat \<Rightarrow> bytes" where
  "set_bloom_bit bloom index =
     (let m = length bloom; pos = m - 1 - index div 8
      in bloom[pos := bloom ! pos OR push_bit (index mod 8) 1])"

definition bloom_index :: "nat \<Rightarrow> bytes \<Rightarrow> nat \<Rightarrow> nat" where
  "bloom_index m hash i =
     (let bloom_bits = m * 8; mask = bloom_bits - 1; bloom_bytes = (log2 bloom_bits + 7) div 8
      in hash_index hash (i * bloom_bytes) bloom_bytes 0 AND mask)"

text \<open>\<open>None\<close> is a failed assertion.\<close>

definition accrue :: "bytes \<Rightarrow> bloom_input \<Rightarrow> bytes option" where
  "accrue bloom input =
     (let p = BLOOM_BITS; m = length bloom; bloom_bits = m * 8;
          bloom_bytes = (log2 bloom_bits + 7) div 8; hash = input_hash input
      in if m AND (m - 1) \<noteq> 0 \<or> \<not> p * bloom_bytes \<le> length hash \<or> BLOOM_BITS \<noteq> 3 then None
         else Some (fold (\<lambda>i b. set_bloom_bit b (bloom_index m hash i)) [0..<3] bloom))"

definition bloom_from :: "bloom_input \<Rightarrow> bytes option" where
  "bloom_from input = accrue bloom_default input"

definition accrue_bloom :: "bytes \<Rightarrow> bytes \<Rightarrow> bytes option" where
  "accrue_bloom a b =
     (if length a = BLOOM_SIZE \<and> length b = BLOOM_SIZE
      then Some (map (\<lambda>i. a ! i OR b ! i) [0..<BLOOM_SIZE]) else None)"

definition contains_bloom :: "bytes \<Rightarrow> bytes \<Rightarrow> bool option" where
  "contains_bloom a b =
     (if length a = BLOOM_SIZE \<and> length b = BLOOM_SIZE
      then Some (list_all (\<lambda>i. (a ! i AND b ! i) = b ! i) [0..<BLOOM_SIZE]) else None)"

definition contains_input :: "bytes \<Rightarrow> bloom_input \<Rightarrow> bool option" where
  "contains_input bloom input = do { b \<leftarrow> bloom_from input; contains_bloom bloom b }"

fun accrue_all :: "bytes \<Rightarrow> bloom_input list \<Rightarrow> bytes option" where
  "accrue_all b [] = Some b"
| "accrue_all b (x # xs) = do { b \<leftarrow> accrue b x; accrue_all b xs }"

section \<open>Log entries and filters\<close>

record log_entry =
  le_address :: bytes
  le_topics :: "bytes list"
  le_data :: bytes

definition log_bloom :: "log_entry \<Rightarrow> bytes option" where
  "log_bloom l = do { b \<leftarrow> bloom_from (Raw (le_address l)); accrue_all b (map Raw (le_topics l)) }"

datatype block_id = BlockHash bytes | BlockNumber nat | Earliest | Latest | Pending

record log_filter =
  fl_from_block :: block_id
  fl_to_block :: block_id
  fl_address :: "bytes list option"
  fl_topics :: "bytes list option list"
  fl_limit :: "nat option"

text \<open>\<open>Clone\<close> copies the first four topics and panics when there are fewer.\<close>

definition filter_clone :: "log_filter \<Rightarrow> log_filter option" where
  "filter_clone f =
     do { t0 \<leftarrow> nth_checked (fl_topics f) 0; t1 \<leftarrow> nth_checked (fl_topics f) 1;
          t2 \<leftarrow> nth_checked (fl_topics f) 2; t3 \<leftarrow> nth_checked (fl_topics f) 3;
          Some (f\<lparr>fl_topics := [t0, t1, t2, t3]\<rparr>) }"

fun all_some :: "'a option list \<Rightarrow> 'a list option" where
  "all_some [] = Some []"
| "all_some (x # xs) = do { a \<leftarrow> x; as \<leftarrow> all_some xs; Some (a # as) }"

definition address_blooms :: "log_filter \<Rightarrow> bytes list option" where
  "address_blooms f =
     (case fl_address f of
        Some addresses \<Rightarrow>
          if addresses \<noteq> [] then all_some (map (\<lambda>a. bloom_from (Raw a)) addresses)
          else Some [bloom_default]
      | None \<Rightarrow> Some [bloom_default])"

fun topic_step :: "bytes list option \<Rightarrow> bytes list \<Rightarrow> bytes list option" where
  "topic_step None bs = Some bs"
| "topic_step (Some topics) bs =
     map_option concat (all_some (map (\<lambda>bloom. all_some (map (\<lambda>t. accrue bloom (Raw t)) topics)) bs))"

fun topic_steps :: "bytes list option list \<Rightarrow> bytes list \<Rightarrow> bytes list option" where
  "topic_steps [] bs = Some bs"
| "topic_steps (t # ts) bs = do { bs \<leftarrow> topic_step t bs; topic_steps ts bs }"

definition bloom_possibilities :: "log_filter \<Rightarrow> bytes list option" where
  "bloom_possibilities f = do { blooms \<leftarrow> address_blooms f; topic_steps (fl_topics f) blooms }"

fun topics_match :: "bytes list option list \<Rightarrow> nat \<Rightarrow> bytes list \<Rightarrow> bool" where
  "topics_match [] i log = True"
| "topics_match (t # ts) i log \<longleftrightarrow>
     (case t of
        Some topics \<Rightarrow>
          if topics \<noteq> [] then list_ex (\<lambda>topic. i < length log \<and> log ! i = topic) topics else True
      | None \<Rightarrow> True) \<and> topics_match ts (i + 1) log"

definition filter_matches :: "log_filter \<Rightarrow> log_entry \<Rightarrow> bool" where
  "filter_matches f log \<longleftrightarrow>
     (case fl_address f of
        Some addresses \<Rightarrow> if addresses \<noteq> [] then list_ex (\<lambda>a. le_address log = a) addresses else True
      | None \<Rightarrow> True) \<and>
     topics_match (fl_topics f) 0 (le_topics log)"

section \<open>The bits of a bloom\<close>

definition bloom_bits :: "bytes \<Rightarrow> nat set" where
  "bloom_bits b = {i. i < 8 * length b \<and> bit (b ! (length b - 1 - i div 8)) (i mod 8)}"

lemma length_set_bloom_bit [simp]: "length (set_bloom_bit b i) = length b"
  by (simp add: set_bloom_bit_def Let_def)

lemma bit_push_one: "bit (push_bit (i mod 8) 1 :: byte) (j mod 8) \<longleftrightarrow> i mod 8 = j mod 8"
  by (auto simp: bit_simps)

lemma bloom_bits_set:
  assumes "i < 8 * length b"
  shows "bloom_bits (set_bloom_bit b i) = insert i (bloom_bits b)"
proof -
  let ?pos = "\<lambda>j. length b - 1 - j div 8"
  have pos: "?pos j < length b" and same: "?pos j = ?pos i \<longleftrightarrow> j div 8 = i div 8" if "j < 8 * length b" for j
    using that assms by auto
  have "j \<in> bloom_bits (set_bloom_bit b i) \<longleftrightarrow> j = i \<or> j \<in> bloom_bits b" for j
  proof (cases "j < 8 * length b")
    case False
    then show ?thesis using assms by (auto simp: bloom_bits_def)
  next
    case True
    have ij: "j = i \<longleftrightarrow> j div 8 = i div 8 \<and> j mod 8 = i mod 8"
      by (metis div_mult_mod_eq)
    have "bit (set_bloom_bit b i ! ?pos j) (j mod 8) \<longleftrightarrow>
        bit (b ! ?pos j) (j mod 8) \<or> (j div 8 = i div 8 \<and> j mod 8 = i mod 8)"
    proof (cases "j div 8 = i div 8")
      case here: True
      have "set_bloom_bit b i ! ?pos j = b ! ?pos j OR push_bit (i mod 8) 1"
        using pos [OF True] here by (simp only: set_bloom_bit_def Let_def nth_list_update_eq)
      then show ?thesis using here bit_push_one [of i j] by (simp only: bit_or_iff) auto
    next
      case False
      then have "?pos i \<noteq> ?pos j" using same [OF True] by auto
      then have "set_bloom_bit b i ! ?pos j = b ! ?pos j"
        unfolding set_bloom_bit_def Let_def by (rule nth_list_update_neq)
      then show ?thesis using False by simp
    qed
    then show ?thesis using True ij by (simp add: bloom_bits_def) blast
  qed
  then show ?thesis by blast
qed

lemma log2_bloom: "(log2 2048 + 7) div 8 = 2"
proof -
  have "bit_len 2048 \<le> 12" "\<not> bit_len 2048 \<le> 11" by (simp_all only: bit_len_le_iff) simp_all
  then have "bit_len 2048 = 12" by simp
  then show ?thesis by (simp add: log2_def leading_zeros_def)
qed

definition input_bits :: "bloom_input \<Rightarrow> nat set" where
  "input_bits x = bloom_index BLOOM_SIZE (input_hash x) ` {0, 1, 2}"

text \<open>A \<open>Hash\<close> input is an array of 32 bytes.\<close>

fun input_ok :: "bloom_input \<Rightarrow> bool" where
  "input_ok (Raw raw) = True"
| "input_ok (Hash hash) \<longleftrightarrow> length hash = 32"

lemma length_input_hash: "input_ok x \<Longrightarrow> length (input_hash x) = 32"
  by (cases x) auto

lemma bloom_index_less: "bloom_index BLOOM_SIZE hash i < 2048"
proof -
  have "hash_index hash (i * 2) 2 0 AND mask 11 < 2 ^ 11"
    using take_bit_nat_less_exp [of 11 "hash_index hash (i * 2) 2 0"] by (simp only: take_bit_eq_mask)
  then show ?thesis by (simp add: bloom_index_def BLOOM_SIZE_def Let_def log2_bloom mask_eq_exp_minus_1)
qed

lemma accrue_ok:
  assumes "length b = BLOOM_SIZE" and "input_ok x"
  shows "\<exists>b'. accrue b x = Some b' \<and> length b' = BLOOM_SIZE \<and> bloom_bits b' = bloom_bits b \<union> input_bits x"
proof -
  have "(256 :: nat) AND 255 = 0" by simp
  then have "accrue b x = Some (fold (\<lambda>i b. set_bloom_bit b (bloom_index BLOOM_SIZE (input_hash x) i)) [0..<3] b)"
    using assms length_input_hash [OF assms(2)]
    by (simp add: accrue_def Let_def BLOOM_SIZE_def BLOOM_BITS_def log2_bloom)
  then show ?thesis
    using assms(1) bloom_index_less [of "input_hash x"]
    by (auto simp: numeral_3_eq_3 numeral_2_eq_2 bloom_bits_set input_bits_def BLOOM_SIZE_def)
qed

lemma bloom_bits_default [simp]: "bloom_bits bloom_default = {}" "length bloom_default = BLOOM_SIZE"
  by (auto simp: bloom_bits_def bloom_default_def BLOOM_SIZE_def)

lemma bloom_from_ok:
  "input_ok x \<Longrightarrow> \<exists>b. bloom_from x = Some b \<and> length b = BLOOM_SIZE \<and> bloom_bits b = input_bits x"
  using accrue_ok [of bloom_default x] by (simp add: bloom_from_def)

lemma accrue_all_ok:
  "length b = BLOOM_SIZE \<Longrightarrow> list_all input_ok xs \<Longrightarrow>
     \<exists>b'. accrue_all b xs = Some b' \<and> length b' = BLOOM_SIZE \<and>
       bloom_bits b' = bloom_bits b \<union> \<Union> (input_bits ` set xs)"
proof (induction xs arbitrary: b)
  case (Cons x xs)
  obtain b1 where b1: "accrue b x = Some b1" "length b1 = BLOOM_SIZE" "bloom_bits b1 = bloom_bits b \<union> input_bits x"
    using accrue_ok [of b x] Cons.prems by auto
  with Cons.IH [of b1] Cons.prems show ?case by auto
qed simp

section \<open>Inclusion and union\<close>

lemma bloom_byte_bit:
  assumes "length b = BLOOM_SIZE" and "i < BLOOM_SIZE" and "n < 8"
  shows "bit (b ! i) n \<longleftrightarrow> (BLOOM_SIZE - 1 - i) * 8 + n \<in> bloom_bits b"
proof -
  have "((BLOOM_SIZE - 1 - i) * 8 + n) div 8 = BLOOM_SIZE - 1 - i" "((BLOOM_SIZE - 1 - i) * 8 + n) mod 8 = n"
    using assms(3) by simp_all
  moreover have "(BLOOM_SIZE - 1 - i) * 8 + n < 8 * BLOOM_SIZE" using assms by (auto simp: BLOOM_SIZE_def)
  moreover have "BLOOM_SIZE - 1 - (BLOOM_SIZE - 1 - i) = i" using assms(2) by simp
  ultimately show ?thesis by (simp add: bloom_bits_def assms(1) del: diff_diff_left)
qed

lemma bloom_bits_inject:
  assumes "length a = BLOOM_SIZE" and "length b = BLOOM_SIZE" and "bloom_bits a = bloom_bits b"
  shows "a = b"
proof (rule nth_equalityI)
  fix i assume "i < length a"
  then have i: "i < BLOOM_SIZE" using assms(1) by simp
  show "a ! i = b ! i"
  proof (rule bit_word_eqI)
    fix n assume "n < LENGTH(8)"
    then have n: "n < 8" by simp
    show "bit (a ! i) n \<longleftrightarrow> bit (b ! i) n"
      using bloom_byte_bit [OF assms(1) i n] bloom_byte_bit [OF assms(2) i n] assms(3) by simp
  qed
qed (simp add: assms)

lemma byte_and_eq: "(a AND b) = (b :: byte) \<longleftrightarrow> (\<forall>n < 8. bit b n \<longrightarrow> bit a n)"
proof
  assume eq: "(a AND b) = b"
  show "\<forall>n < 8. bit b n \<longrightarrow> bit a n" by (metis bit_and_iff eq)
next
  assume "\<forall>n < 8. bit b n \<longrightarrow> bit a n"
  then show "(a AND b) = b" by (intro bit_word_eqI) (auto simp: bit_and_iff)
qed

lemma contains_bloom_bits:
  assumes "length a = BLOOM_SIZE" and "length b = BLOOM_SIZE"
  shows "contains_bloom a b = Some (bloom_bits b \<subseteq> bloom_bits a)"
proof -
  have "(\<forall>i < BLOOM_SIZE. (a ! i AND b ! i) = b ! i) \<longleftrightarrow>
      (\<forall>i < BLOOM_SIZE. \<forall>n < 8. (BLOOM_SIZE - 1 - i) * 8 + n \<in> bloom_bits b \<longrightarrow>
         (BLOOM_SIZE - 1 - i) * 8 + n \<in> bloom_bits a)"
    using bloom_byte_bit [OF assms(1)] bloom_byte_bit [OF assms(2)] by (simp add: byte_and_eq)
  also have "\<dots> \<longleftrightarrow> bloom_bits b \<subseteq> bloom_bits a"
  proof
    assume all: "\<forall>i < BLOOM_SIZE. \<forall>n < 8. (BLOOM_SIZE - 1 - i) * 8 + n \<in> bloom_bits b \<longrightarrow>
         (BLOOM_SIZE - 1 - i) * 8 + n \<in> bloom_bits a"
    show "bloom_bits b \<subseteq> bloom_bits a"
    proof
      fix j assume j: "j \<in> bloom_bits b"
      then have "j < 8 * BLOOM_SIZE" using assms by (simp add: bloom_bits_def)
      then have "BLOOM_SIZE - 1 - j div 8 < BLOOM_SIZE" "BLOOM_SIZE - 1 - (BLOOM_SIZE - 1 - j div 8) = j div 8"
        by (auto simp: BLOOM_SIZE_def)
      with all [rule_format, of "BLOOM_SIZE - 1 - j div 8" "j mod 8"] j show "j \<in> bloom_bits a"
        by simp
    qed
  qed blast
  finally show ?thesis using assms by (auto simp: contains_bloom_def list_all_iff)
qed

lemma accrue_bloom_bits:
  assumes "length a = BLOOM_SIZE" and "length b = BLOOM_SIZE"
  shows "\<exists>c. accrue_bloom a b = Some c \<and> length c = BLOOM_SIZE \<and> bloom_bits c = bloom_bits a \<union> bloom_bits b"
  using assms by (auto simp: accrue_bloom_def bloom_bits_def bit_or_iff)

lemma contains_input_bits:
  assumes "length b = BLOOM_SIZE" and "input_ok x"
  shows "contains_input b x = Some (input_bits x \<subseteq> bloom_bits b)"
  using bloom_from_ok [OF assms(2)] contains_bloom_bits [OF assms(1)] by (auto simp: contains_input_def)

section \<open>Filters\<close>

lemma log_bloom_ok:
  "\<exists>b. log_bloom l = Some b \<and> length b = BLOOM_SIZE \<and>
    bloom_bits b = input_bits (Raw (le_address l)) \<union> \<Union> (input_bits ` Raw ` set (le_topics l))"
proof -
  obtain a where a: "bloom_from (Raw (le_address l)) = Some a" "length a = BLOOM_SIZE"
    "bloom_bits a = input_bits (Raw (le_address l))"
    using bloom_from_ok [of "Raw (le_address l)"] by auto
  have "list_all input_ok (map Raw (le_topics l))" by (simp add: list_all_iff)
  with accrue_all_ok [OF a(2), of "map Raw (le_topics l)"] a show ?thesis
    by (auto simp: log_bloom_def)
qed

lemma all_some_Some: "all_some (map (\<lambda>x. Some (f x)) xs) = Some (map f xs)"
  by (induction xs) auto

lemma all_some_map: "\<forall>x \<in> set xs. \<exists>y. f x = Some y \<Longrightarrow> all_some (map f xs) = Some (map (the \<circ> f) xs)"
  by (induction xs) auto

definition blooms_ok :: "bytes list \<Rightarrow> bool" where
  "blooms_ok bs \<longleftrightarrow> (\<forall>b \<in> set bs. length b = BLOOM_SIZE)"

text \<open>One topic position: every bloom whose bits are in \<open>s\<close> has an extension whose bits are in
  \<open>s\<close>, when \<open>s\<close> has the bits of one of the topics.\<close>

lemma topic_step_ok:
  assumes "blooms_ok bs"
  shows "\<exists>bs'. topic_step t bs = Some bs' \<and> blooms_ok bs' \<and>
    ((\<exists>b \<in> set bs. bloom_bits b \<subseteq> s) \<longrightarrow>
     (case t of None \<Rightarrow> True | Some topics \<Rightarrow> \<exists>topic \<in> set topics. input_bits (Raw topic) \<subseteq> s) \<longrightarrow>
     (\<exists>b' \<in> set bs'. bloom_bits b' \<subseteq> s))"
proof (cases t)
  case None
  then show ?thesis using assms by simp
next
  case (Some topics)
  let ?acc = "\<lambda>b topic. the (accrue b (Raw topic))"
  have acc: "accrue b (Raw topic) = Some (?acc b topic) \<and> length (?acc b topic) = BLOOM_SIZE \<and>
      bloom_bits (?acc b topic) = bloom_bits b \<union> input_bits (Raw topic)" if "b \<in> set bs" for b topic
    using accrue_ok [of b "Raw topic"] assms that by (auto simp: blooms_ok_def)
  have inner: "all_some (map (\<lambda>t. accrue b (Raw t)) topics) = Some (map (?acc b) topics)" if "b \<in> set bs" for b
    using acc [OF that] by (subst all_some_map) (auto simp: o_def)
  then have eq: "map (\<lambda>b. all_some (map (\<lambda>t. accrue b (Raw t)) topics)) bs = map (\<lambda>b. Some (map (?acc b) topics)) bs"
    by simp
  have "topic_step t bs = Some (concat (map (\<lambda>b. map (?acc b) topics) bs))"
    by (simp only: Some topic_step.simps eq all_some_Some option.map)
  moreover have "blooms_ok (concat (map (\<lambda>b. map (?acc b) topics) bs))"
    using acc by (auto simp: blooms_ok_def)
  moreover have "\<exists>b' \<in> set (concat (map (\<lambda>b. map (?acc b) topics) bs)). bloom_bits b' \<subseteq> s"
    if "b \<in> set bs" "bloom_bits b \<subseteq> s" "topic \<in> set topics" "input_bits (Raw topic) \<subseteq> s" for b topic
  proof -
    have "?acc b topic \<in> set (concat (map (\<lambda>b. map (?acc b) topics) bs))" using that by auto
    moreover have "bloom_bits (?acc b topic) \<subseteq> s" using that acc [OF that(1), of topic] by simp
    ultimately show ?thesis by blast
  qed
  ultimately show ?thesis using Some by auto
qed

lemma topic_steps_ok:
  "blooms_ok bs \<Longrightarrow> \<exists>bs'. topic_steps ts bs = Some bs' \<and> blooms_ok bs' \<and>
    ((\<exists>b \<in> set bs. bloom_bits b \<subseteq> s) \<longrightarrow>
     (\<forall>t \<in> set ts. case t of None \<Rightarrow> True | Some topics \<Rightarrow> \<exists>topic \<in> set topics. input_bits (Raw topic) \<subseteq> s) \<longrightarrow>
     (\<exists>b' \<in> set bs'. bloom_bits b' \<subseteq> s))"
proof (induction ts arbitrary: bs)
  case (Cons t ts)
  obtain bs1 where bs1: "topic_step t bs = Some bs1" "blooms_ok bs1"
    and step: "(\<exists>b \<in> set bs. bloom_bits b \<subseteq> s) \<longrightarrow>
     (case t of None \<Rightarrow> True | Some topics \<Rightarrow> \<exists>topic \<in> set topics. input_bits (Raw topic) \<subseteq> s) \<longrightarrow>
     (\<exists>b' \<in> set bs1. bloom_bits b' \<subseteq> s)"
    using topic_step_ok [OF Cons.prems, of t s] by blast
  from Cons.IH [OF bs1(2)] bs1(1) step show ?case by auto
qed simp

lemma address_blooms_ok:
  "\<exists>bs. address_blooms f = Some bs \<and> blooms_ok bs \<and>
    ((case fl_address f of Some as \<Rightarrow> as \<noteq> [] \<longrightarrow> (\<exists>a \<in> set as. input_bits (Raw a) \<subseteq> s) | None \<Rightarrow> True) \<longrightarrow>
     (\<exists>b \<in> set bs. bloom_bits b \<subseteq> s))"
proof -
  let ?from = "\<lambda>a. the (bloom_from (Raw a))"
  have "bloom_from (Raw a) = Some (?from a)" "length (?from a) = BLOOM_SIZE" "bloom_bits (?from a) = input_bits (Raw a)" for a
  proof -
    obtain b where b: "bloom_from (Raw a) = Some b" "length b = BLOOM_SIZE" "bloom_bits b = input_bits (Raw a)"
      using bloom_from_ok [of "Raw a"] by (meson input_ok.simps(1))
    then show "bloom_from (Raw a) = Some (?from a)" "length (?from a) = BLOOM_SIZE"
      "bloom_bits (?from a) = input_bits (Raw a)" by (simp_all only: option.sel)
  qed
  note fromb = this
  have eq: "(\<lambda>a. bloom_from (Raw a)) = (\<lambda>a. Some (?from a))" by (rule ext) (rule fromb(1))
  have all: "all_some (map (\<lambda>a. bloom_from (Raw a)) ads) = Some (map ?from ads)" for ads
    unfolding eq by (rule all_some_Some)
  show ?thesis
  proof (cases "\<exists>as. fl_address f = Some as \<and> as \<noteq> []")
    case True
    then obtain ads where ads: "fl_address f = Some ads" "ads \<noteq> []" by blast
    then have "address_blooms f = Some (map ?from ads)" by (simp only: address_blooms_def all option.case if_True not_False_eq_True)
    then show ?thesis using ads fromb(2,3) by (auto simp: blooms_ok_def)
  next
    case False
    then have "address_blooms f = Some [bloom_default]" by (auto simp: address_blooms_def split: option.split)
    then show ?thesis by (simp add: blooms_ok_def)
  qed
qed

lemma topics_match_bits:
  "topics_match ts i log \<Longrightarrow> Some [] \<notin> set ts \<Longrightarrow> t \<in> set ts \<Longrightarrow> t = Some topics \<Longrightarrow>
     \<exists>topic \<in> set topics. topic \<in> set log"
proof (induction ts arbitrary: i)
  case (Cons u ts)
  show ?case
  proof (cases "t = u")
    case True
    then have "i < length log" "log ! i \<in> set topics"
      using Cons.prems by (auto simp: list_ex_iff split: if_splits)
    then show ?thesis using nth_mem by blast
  next
    case False
    then show ?thesis using Cons.IH [of "i + 1"] Cons.prems by auto
  qed
qed simp

section \<open>Properties\<close>

text \<open>C38. A bloom has no false negatives: after any inputs are accrued into an empty bloom, every
  one of them is found by \<open>contains_input\<close>, no assertion fails, and merging further blooms into
  it with \<open>accrue_bloom\<close> keeps it that way.\<close>

theorem bloom_no_false_negatives:
  assumes "list_all input_ok xs" and "x \<in> set xs" and "length b = BLOOM_SIZE"
  shows "\<exists>a c. accrue_all bloom_default xs = Some a \<and> contains_input a x = Some True \<and>
    accrue_bloom a b = Some c \<and> contains_input c x = Some True"
proof -
  obtain a where a: "accrue_all bloom_default xs = Some a" "length a = BLOOM_SIZE"
    "bloom_bits a = \<Union> (input_bits ` set xs)"
    using accrue_all_ok [of bloom_default xs] assms(1) by auto
  obtain c where c: "accrue_bloom a b = Some c" "length c = BLOOM_SIZE" "bloom_bits c = bloom_bits a \<union> bloom_bits b"
    using accrue_bloom_bits [OF a(2) assms(3)] by blast
  have "input_ok x" using assms(1,2) by (simp add: list_all_iff)
  moreover have "input_bits x \<subseteq> bloom_bits a" using a(3) assms(2) by auto
  ultimately show ?thesis using a c contains_input_bits by auto
qed

theorem bloom_no_false_negatives_witness:
  "\<exists>a c. accrue_all bloom_default [Raw [1], Hash (replicate 32 7)] = Some a \<and>
    contains_input a (Raw [1]) = Some True \<and>
    accrue_bloom a bloom_default = Some c \<and> contains_input c (Raw [1]) = Some True"
  by (rule bloom_no_false_negatives) simp_all

text \<open>Merging is exact: the \<open>accrue_bloom\<close> of two blooms is, byte for byte, the bloom of the
  inputs of both, so blooms of blocks can be combined in any order and grouping.\<close>

theorem accrue_bloom_merges:
  assumes "list_all input_ok xs" and "list_all input_ok ys"
  shows "do { a \<leftarrow> accrue_all bloom_default xs; b \<leftarrow> accrue_all bloom_default ys; accrue_bloom a b } =
    accrue_all bloom_default (xs @ ys)"
proof -
  obtain a where a: "accrue_all bloom_default xs = Some a" "length a = BLOOM_SIZE"
    "bloom_bits a = \<Union> (input_bits ` set xs)"
    using accrue_all_ok [of bloom_default xs] assms(1) by auto
  obtain b where b: "accrue_all bloom_default ys = Some b" "length b = BLOOM_SIZE"
    "bloom_bits b = \<Union> (input_bits ` set ys)"
    using accrue_all_ok [of bloom_default ys] assms(2) by auto
  obtain c where c: "accrue_all bloom_default (xs @ ys) = Some c" "length c = BLOOM_SIZE"
    "bloom_bits c = \<Union> (input_bits ` set (xs @ ys))"
    using accrue_all_ok [of bloom_default "xs @ ys"] assms by auto
  obtain d where d: "accrue_bloom a b = Some d" "length d = BLOOM_SIZE" "bloom_bits d = bloom_bits a \<union> bloom_bits b"
    using accrue_bloom_bits [OF a(2) b(2)] by blast
  have "d = c" using d c a b by (intro bloom_bits_inject) auto
  then show ?thesis using a b c d by simp
qed

theorem accrue_bloom_merges_witness:
  "do { a \<leftarrow> accrue_all bloom_default [Raw [1]]; b \<leftarrow> accrue_all bloom_default [Raw [2], Raw []]; accrue_bloom a b } =
    accrue_all bloom_default ([Raw [1]] @ [Raw [2], Raw []])"
  by (rule accrue_bloom_merges) simp_all

lemma filter_bloom_found:
  assumes "filter_matches f log" and "Some [] \<notin> set (fl_topics f)"
  shows "\<exists>bs lb b. bloom_possibilities f = Some bs \<and> log_bloom log = Some lb \<and> length lb = BLOOM_SIZE \<and>
    b \<in> set bs \<and> length b = BLOOM_SIZE \<and> bloom_bits b \<subseteq> bloom_bits lb"
proof -
  obtain lb where lb: "log_bloom log = Some lb" "length lb = BLOOM_SIZE"
    and bits: "bloom_bits lb = input_bits (Raw (le_address log)) \<union> \<Union> (input_bits ` Raw ` set (le_topics log))"
    using log_bloom_ok [of log] by (elim exE conjE) (rule that)
  obtain bs where bs: "address_blooms f = Some bs" "blooms_ok bs"
    and addr: "(case fl_address f of Some as \<Rightarrow> as \<noteq> [] \<longrightarrow> (\<exists>a \<in> set as. input_bits (Raw a) \<subseteq> bloom_bits lb) | None \<Rightarrow> True) \<longrightarrow>
     (\<exists>b \<in> set bs. bloom_bits b \<subseteq> bloom_bits lb)"
    using address_blooms_ok [of f "bloom_bits lb"] by (elim exE conjE) (rule that)
  have "case fl_address f of Some ads \<Rightarrow> ads \<noteq> [] \<longrightarrow> (\<exists>a \<in> set ads. input_bits (Raw a) \<subseteq> bloom_bits lb) | None \<Rightarrow> True"
  proof (cases "fl_address f")
    case (Some ads)
    then have "ads \<noteq> [] \<longrightarrow> le_address log \<in> set ads"
      using assms(1) by (auto simp: filter_matches_def list_ex_iff)
    then show ?thesis using bits Some by auto
  qed simp
  then have "\<exists>b \<in> set bs. bloom_bits b \<subseteq> bloom_bits lb" by (rule addr [THEN mp])
  moreover have "case t of None \<Rightarrow> True | Some topics \<Rightarrow> \<exists>topic \<in> set topics. input_bits (Raw topic) \<subseteq> bloom_bits lb"
    if "t \<in> set (fl_topics f)" for t
  proof (cases t)
    case (Some topics)
    have "topics_match (fl_topics f) 0 (le_topics log)" using assms(1) by (simp add: filter_matches_def)
    from topics_match_bits [OF this assms(2) that Some] obtain topic
      where "topic \<in> set topics" "topic \<in> set (le_topics log)" by blast
    then show ?thesis using bits Some by auto
  qed simp
  ultimately obtain bs' b where "topic_steps (fl_topics f) bs = Some bs'" "blooms_ok bs'" "b \<in> set bs'"
    "bloom_bits b \<subseteq> bloom_bits lb"
    using topic_steps_ok [OF bs(2), of "fl_topics f" "bloom_bits lb"] by blast
  then show ?thesis
    using bs(1) lb by (auto simp: bloom_possibilities_def blooms_ok_def)
qed

text \<open>The bloom search of a filter misses nothing: if a log entry matches a filter none of whose
  topic lists is empty, the log's bloom contains one of the filter's bloom possibilities.\<close>

theorem filter_bloom_sound:
  assumes "filter_matches f log" and "Some [] \<notin> set (fl_topics f)"
  shows "\<exists>bs lb b. bloom_possibilities f = Some bs \<and> log_bloom log = Some lb \<and> b \<in> set bs \<and>
    contains_bloom lb b = Some True"
proof -
  obtain bs lb b where "bloom_possibilities f = Some bs" "log_bloom log = Some lb" "length lb = BLOOM_SIZE"
    "b \<in> set bs" "length b = BLOOM_SIZE" "bloom_bits b \<subseteq> bloom_bits lb"
    using filter_bloom_found [OF assms] by (elim exE conjE) (rule that)
  then show ?thesis using contains_bloom_bits [of lb b] by auto
qed

theorem filter_bloom_sound_witness:
  "\<exists>bs lb b. bloom_possibilities \<lparr>fl_from_block = Earliest, fl_to_block = Latest, fl_address = Some [[1]],
       fl_topics = [Some [[9], [2]], None], fl_limit = None\<rparr> = Some bs \<and>
    log_bloom \<lparr>le_address = [1], le_topics = [[2], [3]], le_data = []\<rparr> = Some lb \<and> b \<in> set bs \<and>
    contains_bloom lb b = Some True"
  by (rule filter_bloom_sound) (simp_all add: filter_matches_def)

text \<open>An empty topic list matches every log but gives no bloom at all, so the bloom search of such
  a filter finds nothing although the filter matches.\<close>

theorem empty_topics_unsearchable:
  "filter_matches \<lparr>fl_from_block = Earliest, fl_to_block = Latest, fl_address = None,
     fl_topics = [Some []], fl_limit = None\<rparr> log \<and>
   bloom_possibilities \<lparr>fl_from_block = Earliest, fl_to_block = Latest, fl_address = None,
     fl_topics = [Some []], fl_limit = None\<rparr> = Some []"
  by (simp add: filter_matches_def bloom_possibilities_def address_blooms_def)

text \<open>\<open>log2\<close> returns one more than the logarithm of a power of two.\<close>

theorem log2_off_by_one: "log2 (2 ^ 11) = 12"
proof -
  have "bit_len 2048 \<le> 12" "\<not> bit_len 2048 \<le> 11" by (simp_all only: bit_len_le_iff) simp_all
  then have "bit_len 2048 = 12" by simp
  then show ?thesis by (simp add: log2_def leading_zeros_def)
qed

end
