(* ===== verification/Receipts.thy ===== *)
theory Receipts
  imports Rlp_Records Bloom
begin

text \<open>
  Receipts: \<open>common_types/src/receipt.rs\<close>, and the RLP of \<open>common_types/src/log_entry.rs\<close>.

  A receipt carries the bloom of its logs, the bitwise or of theirs.  \<open>LogEntry\<close> derives its RLP;
  \<open>SimpleReceipt\<close> and \<open>Receipt\<close> have theirs written by hand.  The \<open>|\<close> of two blooms comes from a macro
  of another crate and is an argument (\<open>bor\<close>), of which \<open>bitor_law\<close> states the documented bitwise meaning.  The theory shows that the
  bloom of a receipt covers its logs, and what of a receipt survives its RLP.
\<close>

unbundle bit_operations_syntax

section \<open>Log entries\<close>

definition rlp_append_log :: "log_entry \<Rightarrow> rlp_stream \<Rightarrow> rlp_stream option" where
  "rlp_append_log l =
     derived_append
       [append_with (rlp_append_hash (le_address l)), append_list (map rlp_append_hash (le_topics l)),
        append_with (rlp_append_bytes (le_data l))]"

definition decode_log :: "untrusted_rlp \<Rightarrow> log_entry decoded" where
  "decode_log rlp =
     (case val_at (decode_hash 32) rlp 0 of (x, rlp) \<Rightarrow> obind x (\<lambda>address.
      case list_at (decode_hash 32) rlp 1 of (x, rlp) \<Rightarrow> obind x (\<lambda>topics.
      case val_at decode_bytes rlp 2 of (x, rlp) \<Rightarrow> obind x (\<lambda>data.
      Ok \<lparr>le_address = address, le_topics = topics, le_data = data\<rparr>))))"

section \<open>Receipts\<close>

record simple_receipt =
  sr_log_bloom :: bytes
  sr_logs :: "log_entry list"
  sr_state_root :: bytes

record 'u receipt =
  rc_simple :: simple_receipt
  rc_output :: bytes
  rc_gas_used :: 'u
  rc_error_message :: bytes
  rc_transaction_fee :: 'u

text \<open>The fold over the logs; \<open>bor\<close> is the \<open>|\<close> of two \<open>Bloom\<close>s.\<close>

fun logs_bloom :: "(bytes \<Rightarrow> bytes \<Rightarrow> bytes) \<Rightarrow> log_entry list \<Rightarrow> bytes \<Rightarrow> bytes option" where
  "logs_bloom bor [] b = Some b"
| "logs_bloom bor (l # logs) b = do { lb \<leftarrow> log_bloom l; logs_bloom bor logs (bor b lb) }"

definition simple_receipt_new ::
  "(bytes \<Rightarrow> bytes \<Rightarrow> bytes) \<Rightarrow> bytes \<Rightarrow> log_entry list \<Rightarrow> simple_receipt option" where
  "simple_receipt_new bor state_root logs =
     map_option (\<lambda>b. \<lparr>sr_log_bloom = b, sr_logs = logs, sr_state_root = state_root\<rparr>) (logs_bloom bor logs bloom_default)"

definition receipt_new ::
  "(bytes \<Rightarrow> bytes \<Rightarrow> bytes) \<Rightarrow> bytes \<Rightarrow> 'u \<Rightarrow> 'u \<Rightarrow> log_entry list \<Rightarrow> bytes \<Rightarrow> bytes \<Rightarrow> 'u receipt option" where
  "receipt_new bor state_root gas_used transaction_fee logs res error_message =
     map_option (\<lambda>b. \<lparr>rc_simple = \<lparr>sr_log_bloom = b, sr_logs = logs, sr_state_root = state_root\<rparr>, rc_output = res,
        rc_gas_used = gas_used, rc_error_message = error_message, rc_transaction_fee = transaction_fee\<rparr>)
       (logs_bloom bor logs bloom_default)"

definition rlp_append_simple_receipt :: "simple_receipt \<Rightarrow> rlp_stream \<Rightarrow> rlp_stream option" where
  "rlp_append_simple_receipt r s =
     do { s \<leftarrow> begin_list s 3;
          s \<leftarrow> append_with (rlp_append_hash (sr_state_root r)) s;
          s \<leftarrow> append_with (rlp_append_hash (sr_log_bloom r)) s;
          append_list (map rlp_append_log (sr_logs r)) s }"

definition decode_simple_receipt :: "untrusted_rlp \<Rightarrow> simple_receipt decoded" where
  "decode_simple_receipt rlp =
     (case val_at (decode_hash 32) rlp 0 of (x, rlp) \<Rightarrow> obind x (\<lambda>state_root.
      case val_at (decode_hash 256) rlp 1 of (x, rlp) \<Rightarrow> obind x (\<lambda>log_bloom.
      case list_at decode_log rlp 2 of (x, rlp) \<Rightarrow> obind x (\<lambda>logs.
      Ok \<lparr>sr_log_bloom = log_bloom, sr_logs = logs, sr_state_root = state_root\<rparr>))))"

definition rlp_append_receipt :: "'u uint_conv \<Rightarrow> 'u receipt \<Rightarrow> rlp_stream \<Rightarrow> rlp_stream option" where
  "rlp_append_receipt U r s =
     do { s \<leftarrow> begin_list s 6;
          s \<leftarrow> append_with (rlp_append_hash (sr_state_root (rc_simple r))) s;
          s \<leftarrow> append_with (rlp_append_hash (sr_log_bloom (rc_simple r))) s;
          s \<leftarrow> append_list (map rlp_append_log (sr_logs (rc_simple r))) s;
          s \<leftarrow> append_with (rlp_append_bytes (rc_output r)) s;
          s \<leftarrow> append_with (append_big 32 U (rc_gas_used r)) s;
          append_with (rlp_append_string (rc_error_message r)) s }"

text \<open>\<open>zero\<close> is \<open>U256::default()\<close>.\<close>

definition decode_receipt :: "'u uint_conv \<Rightarrow> 'u \<Rightarrow> untrusted_rlp \<Rightarrow> 'u receipt decoded" where
  "decode_receipt U zero rlp =
     (case val_at (decode_hash 32) rlp 0 of (x, rlp) \<Rightarrow> obind x (\<lambda>state_root.
      case val_at (decode_hash 256) rlp 1 of (x, rlp) \<Rightarrow> obind x (\<lambda>log_bloom.
      case list_at decode_log rlp 2 of (x, rlp) \<Rightarrow> obind x (\<lambda>logs.
      case val_at decode_bytes rlp 3 of (x, rlp) \<Rightarrow> obind x (\<lambda>res.
      case val_at (read_big 32 U) rlp 4 of (x, rlp) \<Rightarrow> obind x (\<lambda>gas_used.
      case val_at decode_string rlp 5 of (x, rlp) \<Rightarrow> obind x (\<lambda>error_message.
      Ok \<lparr>rc_simple = \<lparr>sr_log_bloom = log_bloom, sr_logs = logs, sr_state_root = state_root\<rparr>, rc_output = res,
          rc_gas_used = gas_used, rc_error_message = error_message, rc_transaction_fee = zero\<rparr>)))))))"

section \<open>Blooms\<close>

text \<open>What the code relies on of \<open>|\<close>: on two blooms it is the bloom of the bytewise or.\<close>

definition bitor_law :: "(bytes \<Rightarrow> bytes \<Rightarrow> bytes) \<Rightarrow> bool" where
  "bitor_law bor \<longleftrightarrow>
     (\<forall>a b. length a = BLOOM_SIZE \<and> length b = BLOOM_SIZE \<longrightarrow>
        length (bor a b) = BLOOM_SIZE \<and> (\<forall>i < BLOOM_SIZE. bor a b ! i = a ! i OR b ! i))"

lemma bitor_law_map2: "bitor_law (map2 (\<lambda>x y. x OR y))"
  by (simp add: bitor_law_def)

lemma bitor_bits:
  assumes "bitor_law bor" and "length a = BLOOM_SIZE" and "length b = BLOOM_SIZE"
  shows "length (bor a b) = BLOOM_SIZE" and "bloom_bits (bor a b) = bloom_bits a \<union> bloom_bits b"
proof -
  have or: "length (bor a b) = BLOOM_SIZE" "\<forall>i < BLOOM_SIZE. bor a b ! i = a ! i OR b ! i"
    using assms by (simp_all add: bitor_law_def)
  then show "length (bor a b) = BLOOM_SIZE" and "bloom_bits (bor a b) = bloom_bits a \<union> bloom_bits b"
    using assms(2,3) by (auto simp: bloom_bits_def bit_or_iff)
qed

lemma logs_bloom_ok:
  assumes law: "bitor_law bor" and "length b = BLOOM_SIZE"
  shows "\<exists>b'. logs_bloom bor logs b = Some b' \<and> length b' = BLOOM_SIZE \<and> bloom_bits b \<subseteq> bloom_bits b' \<and>
    (\<forall>l \<in> set logs. \<exists>lb. log_bloom l = Some lb \<and> bloom_bits lb \<subseteq> bloom_bits b')"
  using assms(2)
proof (induction logs arbitrary: b)
  case (Cons l logs)
  obtain lb where lb: "log_bloom l = Some lb" "length lb = BLOOM_SIZE" using log_bloom_ok [of l] by blast
  note or = bitor_bits [OF law Cons.prems lb(2)]
  obtain b' where b': "logs_bloom bor logs (bor b lb) = Some b'" "length b' = BLOOM_SIZE"
    "bloom_bits (bor b lb) \<subseteq> bloom_bits b'"
    "\<forall>l \<in> set logs. \<exists>lb. log_bloom l = Some lb \<and> bloom_bits lb \<subseteq> bloom_bits b'"
    using Cons.IH [OF or(1)] by blast
  then show ?case using lb or(2) by (intro exI [of _ b']) auto
qed auto

section \<open>Codecs\<close>

definition log_item :: "log_entry \<Rightarrow> rlp_item" where
  "log_item l = RList [RData (le_address l), RList (map RData (le_topics l)), RData (le_data l)]"

definition log_ok :: "log_entry \<Rightarrow> bool" where
  "log_ok l \<longleftrightarrow> length (le_address l) = 32 \<and> (\<forall>t \<in> set (le_topics l). length t = 32)"

interpretation log_codec: rlp_codec rlp_append_log decode_log log_item log_ok
proof
  fix l
  note hash = hash_codec [of 32]
  show "log_ok l \<Longrightarrow> appends_item (rlp_append_log l) (log_item l)"
    unfolding rlp_append_log_def log_item_def
    by (rule derived_append_item)
      (simp_all add: closing_append closing_list appends_item_bytes list.rel_map list.rel_refl)
  let ?ts = "[RData (le_address l), RList (map RData (le_topics l)), RData (le_data l)]"
  let ?r = "untrusted_new (rlp_enc (RList ?ts))"
  assume ok: "log_ok l" and "length (rlp_enc (log_item l)) < 2 ^ 64 - 1"
  then have r0: "views_list ?r ?ts" unfolding log_item_def by (intro views_list_new)
  note each = views_list_item [OF this]
  have topics: "list_all (\<lambda>h. length h = 32) (le_topics l)" using ok by (simp add: log_ok_def list_all_iff)
  have fields: "field_reads ?ts 0 (decode_hash 32) (Ok (le_address l))"
    "field_reads ?ts 1 (as_list (decode_hash 32)) (Ok (le_topics l))"
    "field_reads ?ts 2 decode_bytes (Ok (le_data l))"
    using each [of 0] each [of 1] each [of 2] ok rlp_codec.decodes_list [OF hash topics]
    by (simp_all add: field_reads_def rlp_codec.decodes [OF hash] bytes_codec.decodes log_ok_def)
  obtain r1 where r1: "val_at (decode_hash 32) ?r 0 = (Ok (le_address l), r1)" "views_list r1 ?ts"
    by (rule val_at_enc [OF r0 fields(1)])
  obtain r2 where r2: "list_at (decode_hash 32) r1 1 = (Ok (le_topics l), r2)" "views_list r2 ?ts"
    by (rule list_at_enc [OF r1(2) fields(2)])
  obtain r3 where r3: "val_at decode_bytes r2 2 = (Ok (le_data l), r3)"
    by (rule val_at_enc [OF r2(2) fields(3)])
  show "decode_log (untrusted_new (rlp_enc (log_item l))) = Ok l"
    using r1(1) r2(1) r3 by (simp add: decode_log_def log_item_def)
qed


definition logs_ok :: "simple_receipt \<Rightarrow> bool" where
  "logs_ok r \<longleftrightarrow> length (sr_state_root r) = 32 \<and> length (sr_log_bloom r) = 256 \<and> list_all log_ok (sr_logs r)"

abbreviation simple_items :: "simple_receipt \<Rightarrow> rlp_item list" where
  "simple_items r \<equiv> [RData (sr_state_root r), RData (sr_log_bloom r), RList (map log_item (sr_logs r))]"

lemma simple_fields:
  assumes "logs_ok r" and "views_list v (simple_items r @ ts)"
  shows "field_reads (simple_items r @ ts) 0 (decode_hash 32) (Ok (sr_state_root r))"
    and "field_reads (simple_items r @ ts) 1 (decode_hash 256) (Ok (sr_log_bloom r))"
    and "field_reads (simple_items r @ ts) 2 (as_list decode_log) (Ok (sr_logs r))"
  using views_list_item [OF assms(2), of 0] views_list_item [OF assms(2), of 1] views_list_item [OF assms(2), of 2]
    assms(1) log_codec.decodes_list [of "sr_logs r"]
  by (simp_all add: field_reads_def rlp_codec.decodes [OF hash_codec] logs_ok_def)

lemma simple_stmts:
  assumes "logs_ok r"
  shows "list_all2 pushes_closing
    [append_with (rlp_append_hash (sr_state_root r)), append_with (rlp_append_hash (sr_log_bloom r)),
     append_list (map rlp_append_log (sr_logs r))] (map code_enc (simple_items r))"
  using assms log_codec.encodes_list [of "sr_logs r"] by (simp add: closing_append closing_list logs_ok_def)

interpretation simple_receipt_codec: rlp_codec rlp_append_simple_receipt decode_simple_receipt
  "\<lambda>r. RList (simple_items r)" logs_ok
proof
  fix r
  show "logs_ok r \<Longrightarrow> appends_item (rlp_append_simple_receipt r) (RList (simple_items r))"
  proof -
    assume ok: "logs_ok r"
    have "rlp_append_simple_receipt r = derived_append
       [append_with (rlp_append_hash (sr_state_root r)), append_with (rlp_append_hash (sr_log_bloom r)),
        append_list (map rlp_append_log (sr_logs r))]"
      by (rule ext) (simp add: rlp_append_simple_receipt_def derived_append_def run_each_Cons run_each_Nil Option.bind_runit numeral_3_eq_3)
    then show ?thesis using derived_append_item [OF simple_stmts [OF ok]] by simp
  qed
  let ?ts = "simple_items r @ []" and ?r = "untrusted_new (rlp_enc (RList (simple_items r)))"
  assume ok: "logs_ok r" and "length (rlp_enc (RList (simple_items r))) < 2 ^ 64 - 1"
  then have r0: "views_list ?r ?ts" using views_list_new [of ?ts] by simp
  note fields = simple_fields [OF ok r0]
  obtain r1 where r1: "val_at (decode_hash 32) ?r 0 = (Ok (sr_state_root r), r1)" "views_list r1 ?ts"
    by (rule val_at_enc [OF r0 fields(1)])
  obtain r2 where r2: "val_at (decode_hash 256) r1 1 = (Ok (sr_log_bloom r), r2)" "views_list r2 ?ts"
    by (rule val_at_enc [OF r1(2) fields(2)])
  obtain r3 where r3: "list_at decode_log r2 2 = (Ok (sr_logs r), r3)"
    by (rule list_at_enc [OF r2(2) fields(3)])
  show "decode_simple_receipt ?r = Ok r"
    using r1(1) r2(1) r3 by (simp add: decode_simple_receipt_def)
qed

definition receipt_items :: "('u \<Rightarrow> nat) \<Rightarrow> 'u receipt \<Rightarrow> rlp_item list" where
  "receipt_items val r = simple_items (rc_simple r) @
     [RData (rc_output r), RData (min_be (val (rc_gas_used r))), RData (rc_error_message r)]"

definition receipt_ok :: "'u receipt \<Rightarrow> bool" where
  "receipt_ok r \<longleftrightarrow> logs_ok (rc_simple r) \<and> utf8_valid (rc_error_message r)"

lemma receipt_appends:
  assumes "uint_law 32 U val" and "receipt_ok r"
  shows "appends_item (rlp_append_receipt U r) (RList (receipt_items val r))"
proof -
  let ?more = "[append_with (rlp_append_bytes (rc_output r)), append_with (append_big 32 U (rc_gas_used r)),
    append_with (rlp_append_string (rc_error_message r))]"
  let ?stmts = "[append_with (rlp_append_hash (sr_state_root (rc_simple r))),
    append_with (rlp_append_hash (sr_log_bloom (rc_simple r))), append_list (map rlp_append_log (sr_logs (rc_simple r)))] @ ?more"
  have "list_all2 pushes_closing ?more (map code_enc [RData (rc_output r), RData (min_be (val (rc_gas_used r))), RData (rc_error_message r)])"
    using assms(2) by (simp add: closing_append appends_item_bytes rlp_codec.appends [OF big_codec [OF assms(1)]]
        string_codec.appends receipt_ok_def)
  then have "list_all2 pushes_closing ?stmts (map code_enc (receipt_items val r))"
    using simple_stmts [of "rc_simple r"] assms(2) unfolding receipt_items_def map_append receipt_ok_def
    by (intro list_all2_appendI) blast+
  moreover have "rlp_append_receipt U r = derived_append ?stmts"
  proof
    fix s
    have "length ?stmts = 6" by simp
    then show "rlp_append_receipt U r s = derived_append ?stmts s"
      by (simp only: rlp_append_receipt_def derived_append_def) (simp add: run_each_Cons run_each_Nil Option.bind_runit)
  qed
  ultimately show ?thesis using derived_append_item [of ?stmts "receipt_items val r"] by (simp add: receipt_items_def)
qed

lemma receipt_decodes:
  assumes "uint_law 32 U val" and ok: "receipt_ok r" and "length (rlp_enc (RList (receipt_items val r))) < 2 ^ 64 - 1"
  shows "decode_receipt U zero (untrusted_new (rlp_enc (RList (receipt_items val r)))) = Ok (r\<lparr>rc_transaction_fee := zero\<rparr>)"
proof -
  let ?ts = "receipt_items val r" and ?s = "rc_simple r"
  let ?r = "untrusted_new (rlp_enc (RList ?ts))"
  note big = big_codec [OF assms(1)]
  have r0: "views_list ?r ?ts" by (rule views_list_new [OF assms(3)])
  note each = views_list_item [OF this]
  have "logs_ok ?s" using ok by (simp add: receipt_ok_def)
  note simple = simple_fields [OF this r0 [unfolded receipt_items_def], folded receipt_items_def]
  have fields: "field_reads ?ts 3 decode_bytes (Ok (rc_output r))"
    "field_reads ?ts 4 (read_big 32 U) (Ok (rc_gas_used r))" "field_reads ?ts 5 decode_string (Ok (rc_error_message r))"
    using each [of 3] each [of 4] each [of 5] ok
    by (simp_all add: field_reads_def receipt_items_def bytes_codec.decodes rlp_codec.decodes [OF big]
        string_codec.decodes receipt_ok_def)
  obtain r1 where r1: "val_at (decode_hash 32) ?r 0 = (Ok (sr_state_root ?s), r1)" "views_list r1 ?ts"
    by (rule val_at_enc [OF r0 simple(1)])
  obtain r2 where r2: "val_at (decode_hash 256) r1 1 = (Ok (sr_log_bloom ?s), r2)" "views_list r2 ?ts"
    by (rule val_at_enc [OF r1(2) simple(2)])
  obtain r3 where r3: "list_at decode_log r2 2 = (Ok (sr_logs ?s), r3)" "views_list r3 ?ts"
    by (rule list_at_enc [OF r2(2) simple(3)])
  obtain r4 where r4: "val_at decode_bytes r3 3 = (Ok (rc_output r), r4)" "views_list r4 ?ts"
    by (rule val_at_enc [OF r3(2) fields(1)])
  obtain r5 where r5: "val_at (read_big 32 U) r4 4 = (Ok (rc_gas_used r), r5)" "views_list r5 ?ts"
    by (rule val_at_enc [OF r4(2) fields(2)])
  obtain r6 where r6: "val_at decode_string r5 5 = (Ok (rc_error_message r), r6)"
    by (rule val_at_enc [OF r5(2) fields(3)])
  show ?thesis using r1(1) r2(1) r3(1) r4(1) r5(1) r6 by (simp add: decode_receipt_def)
qed


section \<open>Properties\<close>

text \<open>C32. A block search by receipt blooms misses nothing. A receipt built by \<open>Receipt::new\<close> has a bloom
  that contains, for every filter without an empty topic list and every log of the receipt that
  the filter matches, one of the filter's bloom possibilities; \<open>SimpleReceipt::new\<close> has the same bloom.
  Assumed is that \<open>|\<close> of two blooms is their bytewise or (\<open>bitor_law\<close>).\<close>

theorem receipt_search_sound:
  assumes "bitor_law bor" and "log \<in> set logs" and "filter_matches f log" and "Some [] \<notin> set (fl_topics f)"
  shows "\<exists>r bs b. receipt_new bor state_root gas_used fee logs res msg = Some r \<and>
    simple_receipt_new bor state_root logs = Some (rc_simple r) \<and>
    bloom_possibilities f = Some bs \<and> b \<in> set bs \<and> contains_bloom (sr_log_bloom (rc_simple r)) b = Some True"
proof -
  obtain rb where rb: "logs_bloom bor logs bloom_default = Some rb" "length rb = BLOOM_SIZE"
    and each: "\<forall>l \<in> set logs. \<exists>lb. log_bloom l = Some lb \<and> bloom_bits lb \<subseteq> bloom_bits rb"
    using logs_bloom_ok [OF assms(1), of bloom_default logs] by auto
  obtain bs lb b where b: "bloom_possibilities f = Some bs" "log_bloom log = Some lb" "b \<in> set bs" "length b = BLOOM_SIZE"
    "bloom_bits b \<subseteq> bloom_bits lb"
    using filter_bloom_found [OF assms(3,4)] by blast
  have "bloom_bits lb \<subseteq> bloom_bits rb" using each [rule_format, OF assms(2)] b(2) by auto
  then have "contains_bloom rb b = Some True" using contains_bloom_bits [OF rb(2) b(4)] b(5) by auto
  then show ?thesis using rb(1) b(1,3) by (simp add: receipt_new_def simple_receipt_new_def) blast
qed

theorem receipt_search_sound_witness:
  "\<exists>r bs b. receipt_new (map2 (\<lambda>x y. x OR y)) [] (0 :: nat) 1 [\<lparr>le_address = [1], le_topics = [[2], [3]], le_data = []\<rparr>] [] [] = Some r \<and>
    simple_receipt_new (map2 (\<lambda>x y. x OR y)) [] [\<lparr>le_address = [1], le_topics = [[2], [3]], le_data = []\<rparr>] = Some (rc_simple r) \<and>
    bloom_possibilities \<lparr>fl_from_block = Earliest, fl_to_block = Latest, fl_address = Some [[1]],
       fl_topics = [Some [[9], [2]], None], fl_limit = None\<rparr> = Some bs \<and> b \<in> set bs \<and>
    contains_bloom (sr_log_bloom (rc_simple r)) b = Some True"
  by (rule receipt_search_sound [where log = "\<lparr>le_address = [1], le_topics = [[2], [3]], le_data = []\<rparr>",
        OF bitor_law_map2])
    (simp_all add: filter_matches_def)

text \<open>C31. What of a receipt survives its RLP. A \<open>SimpleReceipt\<close> decodes to itself. A \<open>Receipt\<close> decodes
  without an error or a panic to the receipt with its transaction fee replaced by zero: the fee is
  not part of the encoding. Assumed are the sizes of the hashes, an error message in UTF-8 (a
  Rust \<open>String\<close>), an encoding below 4 GiB, and the documented conversions of \<open>U256\<close>.\<close>

theorem receipt_roundtrip:
  assumes "uint_law 32 U val" and "receipt_ok r" and "length (rlp_enc (RList (receipt_items val r))) < 2 ^ 32"
    and "length (rlp_enc (RList (simple_items (rc_simple r)))) < 2 ^ 32"
  shows "Option.bind (encode_with (rlp_append_receipt U r)) (rlp_decode (decode_receipt U zero)) =
      Some (r\<lparr>rc_transaction_fee := zero\<rparr>) \<and>
    Option.bind (encode_with (rlp_append_simple_receipt (rc_simple r))) (rlp_decode decode_simple_receipt) =
      Some (rc_simple r)"
proof -
  have "encode_with (rlp_append_receipt U r) = Some (rlp_enc (RList (receipt_items val r)))"
    using encode_with_item [OF receipt_appends [OF assms(1,2)]] code_enc_eq [OF assms(3)] by simp
  moreover have "rlp_decode (decode_receipt U zero) (rlp_enc (RList (receipt_items val r))) = Some (r\<lparr>rc_transaction_fee := zero\<rparr>)"
    using receipt_decodes [OF assms(1,2), of zero] assms(3) by (simp add: rlp_decode_def trusted_as_val_def)
  moreover have "logs_ok (rc_simple r)" using assms(2) by (simp add: receipt_ok_def)
  ultimately show ?thesis using simple_receipt_codec.roundtrip [OF _ assms(4)] by simp
qed

theorem receipt_roundtrip_witness:
  "Option.bind (encode_with (rlp_append_receipt word256
       \<lparr>rc_simple = \<lparr>sr_log_bloom = replicate 256 0, sr_logs = [], sr_state_root = replicate 32 1\<rparr>, rc_output = [],
        rc_gas_used = 0, rc_error_message = [], rc_transaction_fee = 9\<rparr>)) (rlp_decode (decode_receipt word256 0)) =
    Some \<lparr>rc_simple = \<lparr>sr_log_bloom = replicate 256 0, sr_logs = [], sr_state_root = replicate 32 1\<rparr>, rc_output = [],
        rc_gas_used = 0, rc_error_message = [], rc_transaction_fee = 0\<rparr>"
proof -
  let ?r = "\<lparr>rc_simple = \<lparr>sr_log_bloom = replicate 256 0, sr_logs = [], sr_state_root = replicate 32 1\<rparr>, rc_output = [],
        rc_gas_used = 0, rc_error_message = [], rc_transaction_fee = 9\<rparr> :: 256 word receipt"
  have ok: "receipt_ok ?r" by (simp add: receipt_ok_def logs_ok_def)
  have d1: "length (rlp_enc (RData (replicate 256 0))) \<le> 300" and d2: "length (rlp_enc (RData (replicate 32 1))) \<le> 300"
    by (rule rlp_enc_short, simp)+
  have d3: "length (rlp_enc (RData [])) \<le> 300" by (rule rlp_enc_short) simp
  have empty_list: "rlp_enc (RList []) = [0xc0]" by (simp add: rlp_enc.simps rlp_header_def)
  have "length (rlp_enc (RList (simple_items (rc_simple ?r)))) < 2 ^ 32"
    using d1 d2 by (intro rlp_enc_list_small) (simp add: empty_list)
  moreover have "length (rlp_enc (RList (receipt_items unat ?r))) < 2 ^ 32"
    using d1 d2 d3 by (intro rlp_enc_list_small) (simp add: empty_list receipt_items_def)
  ultimately show ?thesis using receipt_roundtrip [OF word256_law ok, of 0] by simp
qed

end
