(* ===== verification/Abi.thy ===== *)
theory Abi
  imports Prelude
begin

text \<open>
  The arguments of AVM calls: \<open>avm_abi/src/abi_token.rs\<close>.

  A token is written as a tag byte and its value in big-endian bytes (\<open>to_vm_bytes\<close>).  A float is its
  bit pattern, a string its UTF-8 bytes.  A string carries its length as an \<open>i16\<close>; arrays carry none,
  and a method name always carries the length 11.
\<close>

datatype abi_token =
    UCHAR byte
  | BOOL bool
  | INT8 byte
  | INT16 "16 word"
  | INT32 "32 word"
  | INT64 "64 word"
  | FLOAT "32 word"
  | DOUBLE "64 word"
  | AUCHAR bytes
  | ABOOL "bool list"
  | AINT8 bytes
  | AINT16 "16 word list"
  | AINT32 "32 word list"
  | AINT64 "64 word list"
  | AFLOAT "32 word list"
  | ADOUBLE "64 word list"
  | STRING bytes
  | METHOD bytes
  | ADDRESS bytes

definition to_vm_bytes :: "nat \<Rightarrow> 'a :: len word \<Rightarrow> bytes" where
  "to_vm_bytes n w = be_bytes n (unat w)"

fun abi_encode :: "abi_token \<Rightarrow> bytes" where
  "abi_encode (UCHAR v) = [0x01, v]"
| "abi_encode (BOOL v) = [0x02, if v then 0x01 else 0x00]"
| "abi_encode (INT8 v) = [0x03, v]"
| "abi_encode (INT16 v) = 0x04 # to_vm_bytes 2 v"
| "abi_encode (INT32 v) = 0x05 # to_vm_bytes 4 v"
| "abi_encode (INT64 v) = 0x06 # to_vm_bytes 8 v"
| "abi_encode (FLOAT v) = 0x07 # to_vm_bytes 4 v"
| "abi_encode (DOUBLE v) = 0x08 # to_vm_bytes 8 v"
| "abi_encode (AUCHAR v) = 0x11 # v"
| "abi_encode (ABOOL v) = 0x12 # map (\<lambda>item. if item then 0x01 else 0x02) v"
| "abi_encode (AINT8 v) = 0x13 # v"
| "abi_encode (AINT16 v) = 0x14 # concat (map (to_vm_bytes 2) v)"
| "abi_encode (AINT32 v) = 0x15 # concat (map (to_vm_bytes 4) v)"
| "abi_encode (AINT64 v) = 0x16 # concat (map (to_vm_bytes 8) v)"
| "abi_encode (AFLOAT v) = 0x17 # concat (map (to_vm_bytes 4) v)"
| "abi_encode (ADOUBLE v) = 0x18 # concat (map (to_vm_bytes 8) v)"
| "abi_encode (STRING v) = 0x21 # to_vm_bytes 2 (of_nat (length v) :: 16 word) @ v"
| "abi_encode (METHOD s) = 0x21 # 0x00 # 0x0b # s"
| "abi_encode (ADDRESS addr) = 0x22 # addr"

section \<open>Values\<close>

lemma length_to_vm_bytes [simp]: "length (to_vm_bytes n w) = n"
  by (simp add: to_vm_bytes_def)

lemma to_vm_bytes_inject:
  fixes v w :: "'a :: len word"
  assumes "LENGTH('a) = 8 * n"
  shows "to_vm_bytes n v = to_vm_bytes n w \<longleftrightarrow> v = w"
proof
  assume "to_vm_bytes n v = to_vm_bytes n w"
  then have "be_nat (be_bytes n (unat v)) = be_nat (be_bytes n (unat w))" by (simp add: to_vm_bytes_def)
  moreover have "unat u < 256 ^ n" for u :: "'a word"
    using unsigned_less [of u] by (simp add: assms power_mult)
  ultimately show "v = w" by (simp add: be_nat_be_bytes word_unat_eq_iff)
qed simp

lemma words_inject [simp]:
  "to_vm_bytes 2 v = to_vm_bytes 2 v' \<longleftrightarrow> v = v'" "to_vm_bytes 4 w = to_vm_bytes 4 w' \<longleftrightarrow> w = w'"
  "to_vm_bytes 8 u = to_vm_bytes 8 u' \<longleftrightarrow> u = u'"
  for v v' :: "16 word" and w w' :: "32 word" and u u' :: "64 word"
  by (simp_all add: to_vm_bytes_inject)

lemma concat_inject:
  assumes "inj f" and "\<And>x. length (f x) = n" and "0 < n"
  shows "concat (map f xs) = concat (map f ys) \<longleftrightarrow> xs = ys"
proof (induction xs arbitrary: ys)
  case Nil
  then show ?case using assms(2,3) by (cases ys) (auto, metis length_0_conv less_nat_zero_code)
next
  case (Cons x xs)
  then show ?case
  proof (cases ys)
    case Nil
    then show ?thesis using assms(2,3) by (auto, metis length_0_conv less_nat_zero_code)
  qed (use assms(1,2) Cons in \<open>simp add: inj_eq\<close>)
qed

lemma arrays_inject [simp]:
  "concat (map (to_vm_bytes 2) v) = concat (map (to_vm_bytes 2) v') \<longleftrightarrow> v = v'"
  "concat (map (to_vm_bytes 4) w) = concat (map (to_vm_bytes 4) w') \<longleftrightarrow> w = w'"
  "concat (map (to_vm_bytes 8) u) = concat (map (to_vm_bytes 8) u') \<longleftrightarrow> u = u'"
  for v v' :: "16 word list" and w w' :: "32 word list" and u u' :: "64 word list"
  by (rule concat_inject [where n = 2], simp_all add: inj_def, rule concat_inject [where n = 4], simp_all add: inj_def,
    rule concat_inject [where n = 8], simp_all add: inj_def)

lemma bools_inject [simp]:
  "map (\<lambda>item. if item then 0x01 else 0x02 :: byte) v = map (\<lambda>item. if item then 0x01 else 0x02) v' \<longleftrightarrow> v = v'"
  by (rule inj_map_eq_map) (simp add: inj_def)

lemma be_bytes_2: "be_bytes 2 n = [word_of_nat (n div 256), word_of_nat n]"
proof -
  have "be_bytes (Suc (Suc 0)) n = [word_of_nat (n div 256), word_of_nat n]" by simp
  then show ?thesis by (simp only: numeral_2_eq_2)
qed

lemma string_length:
  assumes "length v < 2 ^ 16"
  shows "unat (of_nat (length v) :: 16 word) = length v"
  using assms by (simp add: unsigned_of_nat take_bit_nat_eq_self_iff)

section \<open>Properties\<close>

text \<open>C37. Encoded tokens can be told apart, as long as strings stay below 65536 bytes: tokens with the
  same bytes are equal, or they are a string and a method of the same text, which then has the 11
  bytes that a method always announces. Any other method has the bytes of no string at all.\<close>

theorem abi_encode_injective:
  assumes "abi_encode a = abi_encode b"
    and "\<forall>v. a = STRING v \<or> b = STRING v \<longrightarrow> length v < 2 ^ 16"
  shows "a = b \<or> (\<exists>v. length v = 11 \<and> {a, b} = {STRING v, METHOD v})"
proof -
  have eleven: "length v = 11 \<and> s = v" if "to_vm_bytes 2 (of_nat (length v) :: 16 word) @ v = 0 # 0xb # s" "length v < 2 ^ 16" for v s
  proof -
    have "to_vm_bytes 2 (of_nat (length v) :: 16 word) @ v = [0, 0xb] @ s" using that(1) by simp
    then have parts: "to_vm_bytes 2 (of_nat (length v) :: 16 word) = [0, 0xb]" "v = s"
      using append_eq_append_conv [of "to_vm_bytes 2 (of_nat (length v) :: 16 word)" "[0, 0xb]" v s] by simp_all
    have "be_nat (to_vm_bytes 2 (of_nat (length v) :: 16 word)) = be_nat [0, 0xb]" using parts(1) by simp
    then show ?thesis
      using that(2) parts(2) by (simp add: to_vm_bytes_def be_nat_be_bytes be_nat_Cons string_length)
  qed
  have strings: "v = w" if "to_vm_bytes 2 (of_nat (length v) :: 16 word) @ v = to_vm_bytes 2 (of_nat (length w) :: 16 word) @ w" for v w
    using that by (simp add: append_eq_append_conv)
  have methods: "length v = 11 \<and> s = v" if "0 # 0xb # s = to_vm_bytes 2 (of_nat (length v) :: 16 word) @ v" "length v < 2 ^ 16" for v s
    using eleven that by metis
  have both: "?thesis" if "a = STRING v \<and> b = METHOD v \<or> a = METHOD v \<and> b = STRING v" and "length v = 11" for v
    using that by (intro disjI2 exI [of _ v]) auto
  show ?thesis
  proof (cases a)
    case a: (STRING v)
    show ?thesis
    proof (cases b)
      case (STRING w)
      then show ?thesis using a assms(1) strings [of v w] by simp
    next
      case (METHOD s)
      then have "length v = 11 \<and> s = v" using a assms by (intro eleven) simp_all
      then show ?thesis using a METHOD by (intro both [of v]) simp_all
    qed (use a assms(1) in simp_all)
  next
    case a: (METHOD s)
    show ?thesis
    proof (cases b)
      case (STRING w)
      then have "length w = 11 \<and> s = w" using a assms by (intro methods) simp_all
      then show ?thesis using a STRING by (intro both [of w]) simp_all
    qed (use a assms(1) in simp_all)
  qed (use assms(1) in \<open>cases b; simp split: if_splits\<close>)+
qed

theorem abi_encode_injective_witness:
  "abi_encode (STRING (replicate 11 7)) = abi_encode (METHOD (replicate 11 7)) \<and>
   (\<exists>v. length v = 11 \<and> {STRING (replicate 11 7), METHOD (replicate 11 7)} = {STRING v, METHOD v})"
proof -
  define v :: bytes where "v = replicate 11 7"
  have len: "length v = 11" by (simp add: v_def)
  then have eq: "abi_encode (STRING v) = abi_encode (METHOD v)" by (simp add: to_vm_bytes_def be_bytes_2)
  have "\<forall>w. STRING v = STRING w \<or> METHOD v = STRING w \<longrightarrow> length w < 2 ^ 16"
    using len by (simp del: One_nat_def)
  note same = abi_encode_injective [OF eq this]
  have "STRING v \<noteq> METHOD v" by (rule abi_token.distinct)
  then have "\<exists>w. length w = 11 \<and> {STRING v, METHOD v} = {STRING w, METHOD w}"
    using same by (simp only: simp_thms)
  then show ?thesis using eq unfolding v_def by (simp only: simp_thms)
qed

end
