(* ===== verification/Spec2Isabelle.thy ===== *)
theory Spec2Isabelle
  imports Trie_Root Overlay_Recovery Account_Fvm Receipts Abi
begin

text \<open>
  A verification library for the storage crates of \<open>aion_utils\<close> (file names are under \<open>src/\<close>).

  THE PROGRAM. The crates keep the state of a blockchain. \<open>rlp\<close> turns values into bytes and back;
  \<open>blake2b\<close> hashes bytes; \<open>patricia_trie\<close> stores a map as a Merkle trie whose nodes are RLP lists,
  each named by its hash; \<open>db/core\<close> holds the nodes, in memory with reference counts (\<open>MemoryDB\<close>) or
  in named key-value databases; \<open>db/journaldb\<close> puts a journal between the two, so that the changes of
  a block stay revertible until the block is canonical; \<open>ethbloom\<close> and \<open>common_types\<close> summarise logs
  in bloom filters; \<open>accounts\<close> keeps the storage and the code of an account in its part of a store. A block is executed on a \<open>TrieDBMut\<close> over a journal; \<open>commit\<close> of the trie inserts
  its nodes in the journal's memory overlay, \<open>journal_under\<close> moves them to a transaction,
  \<open>write_buffered\<close> to the database, and \<open>TrieDB\<close> or a new \<open>TrieDBMut\<close> reads them at the root.

  CONVENTIONS. A byte is \<open>8 word\<close>, a byte string a list. \<open>usize\<close> is \<open>nat\<close> with the bound or the \<open>mod\<close>
  written where the code relies on the width; \<open>i32\<close> counts wrap (\<open>add_i32\<close>), hashing is on \<open>64 word\<close>.
  Arithmetic is that of a checked build: where an overflow of \<open>usize\<close> can be reached (the item
  count of an unbounded list in \<open>note_appended\<close>), it is a panic. A panic is \<open>None\<close> or \<open>Panic\<close>, an \<open>Err\<close> is \<open>Err e\<close> (\<open>outcome\<close> of \<open>Prelude\<close>); a call that does not
  return is \<open>None\<close> of a \<open>partial_function (option)\<close>, and every theorem that says \<open>= Some ...\<close> says that
  the call returns. Mutation is state passing, also for the interior \<open>Cell\<close>s. Where the code visits
  a hash map, the order of the visit is an argument (the death row of a trie, the drained overlays),
  and the theorems hold for every order.

  THEORIES, in the order of the calls.
  \<^item> \<open>Prelude\<close>: outcomes, big-endian integers, checked indexing and subtraction.
  \<^item> \<open>Rlp_Stream\<close> (\<open>rlp/src/stream.rs\<close>): \<open>RlpStream\<close> with its stack of unfinished lists. A stream driven
    with any tree drains to \<open>rlp_enc\<close> of the tree; in every state that public operations reach
    (\<open>reachable_stream\<close>) the open lists nest, and an append panics exactly when it overflows the
    count of an unbounded list (\<open>has_room\<close>); lists of
    unknown length agree with lists of known length. Lengths are below 4 GiB, as the code casts them
    to \<open>u32\<close> (\<open>code_enc\<close> is what it writes without that bound).
  \<^item> \<open>Rlp_Decode\<close>, \<open>Rlp_Views\<close>, \<open>Rlp_Roundtrip\<close> (\<open>untrusted_rlp.rs\<close>, \<open>rlpin.rs\<close>, \<open>error.rs\<close>): views with
    offset and count caches. Parsing never panics, the caches are transparent, iteration ends
    (\<open>iter_collect\<close> has as fuel the length of the bytes plus one, more than the items there can be),
    and decoding inverts encoding: from a view of an encoded tree a path of \<open>at\<close> calls (\<open>view_at\<close>) leads
    to views of its items (\<open>shows_item\<close>).
  \<^item> \<open>Rlp_Impls\<close> (\<open>impls.rs\<close>, \<open>lib.rs\<close>): the codecs of values; the contract of a codec is the locale
    \<open>rlp_codec\<close>, interpreted for every type.
  \<^item> \<open>Blake2b\<close> (\<open>blake2b\<close>): the compression function and the streaming state; buffering is invisible.
  \<^item> \<open>Memory_DB\<close> (\<open>db/core/src/memorydb.rs\<close>, \<open>traits/hashstore.rs\<close>): reference counts; locale \<open>hash_store\<close>.
    Counts are in the range of \<open>i32\<close>.
  \<^item> \<open>Kvdb\<close> (\<open>dbtransaction.rs\<close>, \<open>mockkvdb.rs\<close>, \<open>dbrepository.rs\<close>): batches; locale \<open>kv_dao\<close>.
  \<^item> \<open>Archive_DB\<close> (\<open>archivedb.rs\<close>, \<open>journaldb/src/lib.rs\<close>): a commit and a restart change no read.
  \<^item> \<open>Overlay_DB\<close>, \<open>Overlay_Recovery\<close> (\<open>overlayrecentdb.rs\<close>, \<open>traits.rs\<close>): the pruning journal. What a
    commit and a canonicalisation do to reads; in every reachable state (\<open>overlay_reach\<close>, an inductive
    relation) reopening rebuilds the journal in memory from the records on disk.
  \<^item> \<open>Nibbles\<close> (\<open>nibbleslice.rs\<close>, \<open>nibblevec.rs\<close>), \<open>Trie_Node\<close> (\<open>node.rs\<close>): paths, their hex-prefix
    encoding, nodes and their RLP; locale \<open>nibble_stack\<close>.
  \<^item> \<open>Trie_Lookup\<close> (\<open>lookup.rs\<close>, \<open>recorder.rs\<close>, \<open>triedb.rs\<close>, \<open>sectriedb.rs\<close>, \<open>fatdb.rs\<close>, \<open>lib.rs\<close>): \<open>ptrie\<close> is
    the trie that stored nodes stand for (\<open>node_rep\<close>) and \<open>pt_lookup\<close> its map; a lookup returns what
    the trie denotes, or names a missing node; recorded proofs suffice.
  \<^item> \<open>Trie_Iter\<close> (the iterators): draining and seeking, against the sorted items of the trie, for keys that
    are in the trie and for keys that are not.
  \<^item> \<open>Trie_Map\<close>: insertion and removal on \<open>ptrie\<close>, the canonical form \<open>canon\<close> and its uniqueness
    (\<open>canon_determined\<close>); locale \<open>finite_map_ops\<close>.
  \<^item> \<open>Trie_Mut\<close> (\<open>triedbmut.rs\<close>, \<open>sectriedbmut.rs\<close>, \<open>fatdbmut.rs\<close>): the mutable trie as the code has it, a
    vector of slots with a free list and handles into it.
  \<^item> \<open>Trie_Heap\<close>, \<open>Trie_Refine\<close>: the slots as a heap. \<open>handle_rep\<close> relates a handle to the trie it stands
    for and to the slots it owns; \<open>triple\<close> is total correctness with a frame rule; every case of
    \<open>insert_inspector\<close>, \<open>remove_inspector\<close> and \<open>fix\<close> is followed to \<open>pt_insert\<close> and \<open>pt_remove\<close>. The locale
    \<open>node_source\<close> is what the trie relies on in its store.
  \<^item> \<open>Trie_Mut_Map\<close>: \<open>TrieDBMut\<close> is a map, new or opened over a stored trie.
  \<^item> \<open>Trie_Commit\<close>: the root is the hash of \<open>pt_node\<close>, the encoding of the one canonical trie with the
    contents of the map; locale \<open>canonical_source\<close>.
  \<^item> \<open>Trie_Persist\<close>: what a commit writes to a \<open>MemoryDB\<close> is read back by every reader.
  \<^item> \<open>Trie_Root\<close> (\<open>triehash/src/lib.rs\<close>): the root of a list of pairs computed without a trie; it appends
    \<open>pt_node\<close> of the same canonical trie, so both crates agree.
  \<^item> \<open>Account_DB\<close> (\<open>accounts/src/account_db.rs\<close>): the store of one account inside a shared one; it acts as
    a store of its own (\<open>account_view\<close>, \<open>own_step\<close>) and leaves other accounts alone.
  \<^item> \<open>Accounts\<close> (\<open>accounts.rs\<close>, \<open>generic.rs\<close>, \<open>traits/mod.rs\<close>): AVM and FVM accounts with their storage
    changes, cache and code; \<open>Account_Persist\<close>, \<open>Account_Fvm\<close>: what survives a commit and a reload.
  \<^item> \<open>Rlp_Records\<close> (\<open>rlp_derive\<close>, \<open>basic_account.rs\<close>), \<open>Receipts\<close> (\<open>common_types/src/receipt.rs\<close>): structs with
    generated codecs, receipts and their blooms; a struct of codecs is a codec.
  \<^item> \<open>Bloom\<close> (\<open>ethbloom\<close>, \<open>common_types/src/log_entry.rs\<close>, \<open>filter.rs\<close>): no false negatives; the search of
    logs by blooms misses nothing, and so does that of receipts.
  \<^item> \<open>Abi\<close> (\<open>avm_abi/src/abi_token.rs\<close>): the bytes of AVM call arguments.

  PARAMETERS. The conversions of \<open>U256\<close>, \<open>H256\<close> and \<open>Bloom\<close> from and to bytes come from macros of
  other crates and are arguments (\<open>uint_conv\<close>, \<open>num_ops\<close>), as are the bitwise or of two blooms
  (\<open>bor\<close>, \<open>bitor_law\<close>) and the LRU cache of accounts (\<open>lru_ops\<close>), with their documented laws as
  hypotheses. The trie is parametric in its hash function;
  theorems that need it assume only what they name (no collision between the nodes of the trie at
  hand, 32 bytes, the hash of the empty node).

  Not modelled: the procedural macros of \<open>rlp_derive\<close> themselves (they build token trees with crates that
  are not here; the code they generate is modelled), plain records without operations and the
  differences of accounts in \<open>common_types\<close>, the hasher \<open>plain_hasher\<close>, the buffers of \<open>bytes\<close>, the
  RocksDB wrapper and its options (calls of a C library), the macro-generated numbers and hashes of \<open>aion-types\<close>, the serde readers of \<open>json\<close>, logging and the terminal, the random maps of
  \<open>trie-standardmap\<close>, test vectors (\<open>blake2b/src/kat.rs\<close>), \<open>Debug\<close> and \<open>Display\<close> printing, heap-size
  accounting, and trace messages. Locks are held for the whole of an operation and are left out.
\<close>

end
